(* ===== verification/Prelude.thy ===== *)
theory Prelude
  imports Main "HOL-Library.Word"
begin

text \<open>
  Shared ground of the development: the machine integer types of the i686 target, the flat
  byte memory with little-endian loads and stores, the machine record (memory, port
  history, control registers, kernel log), and the lemma collections the component theories
  extend.  A C pointer is a \<open>32 word\<close>; the null pointer is 0.
\<close>

unbundle bit_operations_syntax

type_synonym u8 = "8 word"
type_synonym u16 = "16 word"
type_synonym u32 = "32 word"
type_synonym u64 = "64 word"

type_synonym mem = "u32 \<Rightarrow> u8"

named_theorems mem_simps \<open>loads from memory after stores\<close>
named_theorems defs \<open>definitions unfolded by the evaluation of a closed instance\<close>

section \<open>Little-endian memory\<close>

definition load32 :: "mem \<Rightarrow> u32 \<Rightarrow> u32" where
  "load32 m a = ucast (m a) OR push_bit 8 (ucast (m (a + 1)))
     OR push_bit 16 (ucast (m (a + 2))) OR push_bit 24 (ucast (m (a + 3)))"

definition load64 :: "mem \<Rightarrow> u32 \<Rightarrow> u64" where
  "load64 m a = ucast (load32 m a) OR push_bit 32 (ucast (load32 m (a + 4)))"

definition store32 :: "mem \<Rightarrow> u32 \<Rightarrow> u32 \<Rightarrow> mem" where
  "store32 m a v = m(a := ucast v, a + 1 := ucast (drop_bit 8 v),
     a + 2 := ucast (drop_bit 16 v), a + 3 := ucast (drop_bit 24 v))"

declare load32_def [defs] load64_def [defs] store32_def [defs]

lemma word_add_numeral_neq [simp]:
  "(a::u32) + 1 \<noteq> a" "(a::u32) + 2 \<noteq> a" "(a::u32) + 3 \<noteq> a"
  "(a::u32) \<noteq> a + 1" "(a::u32) \<noteq> a + 2" "(a::u32) \<noteq> a + 3"
  by simp_all

lemma u32_bytes:
  "ucast (ucast v :: u8) OR push_bit 8 (ucast (ucast (drop_bit 8 v) :: u8))
     OR push_bit 16 (ucast (ucast (drop_bit 16 v) :: u8))
     OR push_bit 24 (ucast (ucast (drop_bit 24 v) :: u8)) = (v :: u32)"
proof (rule bit_word_eqI)
  fix n assume "n < LENGTH(32)"
  then consider "n < 8" | "8 \<le> n" "n < 16" | "16 \<le> n" "n < 24" | "24 \<le> n" "n < 32"
    by fastforce
  then show "bit (ucast (ucast v :: u8) OR push_bit 8 (ucast (ucast (drop_bit 8 v) :: u8))
     OR push_bit 16 (ucast (ucast (drop_bit 16 v) :: u8))
     OR push_bit 24 (ucast (ucast (drop_bit 24 v) :: u8)) :: u32) n = bit v n"
    by cases (auto simp: bit_simps)
qed

lemma load32_store32 [simp, mem_simps]: "load32 (store32 m a v) a = v"
  by (simp add: load32_def store32_def u32_bytes)

lemma of_nat_u32_eq_iff:
  "x < 2 ^ 32 \<Longrightarrow> y < 2 ^ 32 \<Longrightarrow> (of_nat x :: u32) = of_nat y \<longleftrightarrow> x = y"
  by (simp add: word_of_nat_eq_iff take_bit_eq_mod)

lemma store32_other:
  assumes "a + 4 \<le> b \<or> b + 1 \<le> a" "a + 4 \<le> 2 ^ 32" "b < 2 ^ 32"
  shows "store32 m (of_nat a) v (of_nat b) = m (of_nat b)"
proof -
  have "(of_nat b :: u32) \<noteq> of_nat (a + k)" if "k < 4" for k
    using assms that by (subst of_nat_u32_eq_iff) auto
  from this [of 0] this [of 1] this [of 2] this [of 3] show ?thesis
    by (simp add: store32_def ac_simps)
qed

lemma load32_of_nat:
  "load32 m (of_nat a) = ucast (m (of_nat a)) OR push_bit 8 (ucast (m (of_nat (a + 1))))
     OR push_bit 16 (ucast (m (of_nat (a + 2)))) OR push_bit 24 (ucast (m (of_nat (a + 3))))"
  by (simp add: load32_def add.commute)

lemma load32_cong:
  assumes "\<And>k. k < 4 \<Longrightarrow> m (of_nat (a + k)) = m' (of_nat (a + k))"
  shows "load32 m (of_nat a) = load32 m' (of_nat a)"
proof -
  from assms [of 0] assms [of 1] assms [of 2] assms [of 3] show ?thesis
    by (simp only: load32_of_nat) simp
qed

lemma load32_store32_other [mem_simps]:
  assumes "a + 4 \<le> b \<or> b + 4 \<le> a" "a + 4 \<le> 2 ^ 32" "b + 4 \<le> 2 ^ 32"
  shows "load32 (store32 m (of_nat a) v) (of_nat b) = load32 m (of_nat b)"
proof (rule load32_cong)
  fix k :: nat assume "k < 4"
  with assms show "store32 m (of_nat a) v (of_nat (b + k)) = m (of_nat (b + k))"
    by (intro store32_other) auto
qed

lemma load32_upd_other [mem_simps]:
  assumes "a < b \<or> b + 4 \<le> a" "a < 2 ^ 32" "b + 4 \<le> 2 ^ 32"
  shows "load32 (m(of_nat a := v)) (of_nat b) = load32 m (of_nat b)"
proof (rule load32_cong)
  fix k :: nat assume "k < 4"
  with assms have "(of_nat (b + k) :: u32) \<noteq> of_nat a"
    by (subst of_nat_u32_eq_iff) auto
  then show "(m(of_nat a := v)) (of_nat (b + k)) = m (of_nat (b + k))"
    by simp
qed

text \<open>\<open>bytes_at m a bs\<close>: the bytes from address \<open>a\<close> on are \<open>bs\<close>. \<open>le32\<close> is a word in memory order.\<close>

definition bytes_at :: "mem \<Rightarrow> u32 \<Rightarrow> u8 list \<Rightarrow> bool" where
  "bytes_at m a bs \<longleftrightarrow> (\<forall>i < length bs. m (a + of_nat i) = bs ! i)"

definition le32 :: "u32 \<Rightarrow> u8 list" where
  "le32 v = [ucast v, ucast (drop_bit 8 v), ucast (drop_bit 16 v), ucast (drop_bit 24 v)]"

lemma length_le32 [simp]: "length (le32 v) = 4"
  by (simp add: le32_def)

lemma bytes_at_Nil [simp]: "bytes_at m a []"
  by (simp add: bytes_at_def)

lemma bytes_at_append [simp]:
  "bytes_at m a (xs @ ys) \<longleftrightarrow> bytes_at m a xs \<and> bytes_at m (a + of_nat (length xs)) ys"
proof -
  have "(\<forall>i < length xs + length ys. m (a + of_nat i) = (xs @ ys) ! i) \<longleftrightarrow>
      (\<forall>i < length xs. m (a + of_nat i) = xs ! i)
      \<and> (\<forall>i < length ys. m (a + of_nat (length xs + i)) = ys ! i)"
  proof (intro iffI conjI allI impI)
    fix i assume h: "\<forall>i < length xs + length ys. m (a + of_nat i) = (xs @ ys) ! i"
    { assume "i < length xs" with h show "m (a + of_nat i) = xs ! i" by (auto simp: nth_append) }
    { assume "i < length ys" with h [rule_format, of "length xs + i"]
      show "m (a + of_nat (length xs + i)) = ys ! i" by simp }
  next
    fix i assume h: "(\<forall>i < length xs. m (a + of_nat i) = xs ! i)
      \<and> (\<forall>i < length ys. m (a + of_nat (length xs + i)) = ys ! i)" and i: "i < length xs + length ys"
    show "m (a + of_nat i) = (xs @ ys) ! i"
    proof (cases "i < length xs")
      case False
      with i h [THEN conjunct2, rule_format, of "i - length xs"] show ?thesis
        by (simp add: nth_append)
    qed (use h in \<open>simp add: nth_append\<close>)
  qed
  then show ?thesis by (simp add: bytes_at_def add.assoc)
qed

lemma bytes_at_Cons [simp]: "bytes_at m a (x # xs) \<longleftrightarrow> m a = x \<and> bytes_at m (a + 1) xs"
  using bytes_at_append [of m a "[x]" xs] by (simp add: bytes_at_def)

lemma load32_le32: "bytes_at m a (le32 v) \<Longrightarrow> load32 m a = v"
  by (simp add: le32_def load32_def u32_bytes add.assoc)

text \<open>A C string: its bytes, none of them 0, and a terminating 0.\<close>

definition cstr_at :: "mem \<Rightarrow> u32 \<Rightarrow> u8 list \<Rightarrow> bool" where
  "cstr_at m a s \<longleftrightarrow> 0 \<notin> set s \<and> bytes_at m a (s @ [0])"

text \<open>A run of 32-bit words written from an address on, for the concrete memories.\<close>

fun poke :: "u32 \<Rightarrow> u32 list \<Rightarrow> mem \<Rightarrow> mem" where
  "poke a [] m = m"
| "poke a (w # ws) m = store32 (poke (a + 4) ws m) a w"

lemma load32_poke:
  "k < length ws \<Longrightarrow> a + 4 * length ws < 2 ^ 32 \<Longrightarrow>
     load32 (poke (of_nat a) ws m) (of_nat (a + 4 * k)) = ws ! k"
proof (induction ws arbitrary: a k)
  case (Cons w ws)
  show ?case
  proof (cases k)
    case (Suc j)
    have "load32 (poke (of_nat a) (w # ws) m) (of_nat (a + 4 * k))
        = load32 (poke (of_nat a + 4) ws m) (of_nat (a + 4 * k))"
      unfolding poke.simps by (rule load32_store32_other) (use Cons.prems Suc in auto)
    also have "\<dots> = load32 (poke (of_nat (a + 4)) ws m) (of_nat (a + 4 + 4 * j))"
      by (simp add: Suc ac_simps)
    also have "\<dots> = ws ! j" by (rule Cons.IH) (use Cons.prems Suc in auto)
    finally show ?thesis by (simp add: Suc)
  qed simp
qed simp

lemma poke_other:
  "x < a \<or> a + 4 * length ws \<le> x \<Longrightarrow> a + 4 * length ws \<le> 2 ^ 32 \<Longrightarrow> x < 2 ^ 32 \<Longrightarrow>
     poke (of_nat a) ws m (of_nat x) = m (of_nat x)"
proof (induction ws arbitrary: a)
  case (Cons w ws)
  have "poke (of_nat a) (w # ws) m (of_nat x) = poke (of_nat (a + 4)) ws m (of_nat x)"
    unfolding poke.simps using Cons.prems by (subst store32_other) (auto simp: ac_simps)
  also have "\<dots> = m (of_nat x)" by (rule Cons.IH) (use Cons.prems in auto)
  finally show ?case .
qed simp

text \<open>The same for bytes.\<close>

definition poke_bytes :: "u32 \<Rightarrow> u8 list \<Rightarrow> mem \<Rightarrow> mem" where
  "poke_bytes a bs m = (\<lambda>x. if unat (x - a) < length bs then bs ! unat (x - a) else m x)"

lemma bytes_at_poke_bytes: "length bs < 2 ^ 32 \<Longrightarrow> bytes_at (poke_bytes a bs m) a bs"
proof -
  assume "length bs < 2 ^ 32"
  then have "unat (of_nat i :: u32) = i" if "i < length bs" for i
    using that by (simp add: unat_of_nat take_bit_eq_mod)
  then show ?thesis by (simp add: bytes_at_def poke_bytes_def)
qed

lemma bytes_at_cong:
  "(\<And>i. i < length bs \<Longrightarrow> m' (a + of_nat i) = m (a + of_nat i)) \<Longrightarrow> bytes_at m' a bs = bytes_at m a bs"
  by (simp add: bytes_at_def)

section \<open>The machine\<close>

text \<open>
  \<open>io\<close> is the history of port accesses, oldest first.  What a device answers on a read is
  not code of the repository: it is the parameter \<open>dev\<close>, a function of the whole history
  before the read.  Since every read extends the history, any sequence of answers is an
  instance of \<open>dev\<close>.  \<open>klog\<close> records the argument list of every call of \<open>log\<close>; the theory
  of the serial log gives the bytes such a list is rendered to.
\<close>

datatype io_event = Out u16 u8 | In u16 u8

datatype log_arg = LStr string | LInt u32 | LPtr u32

text \<open>
  An argument of \<open>log\<close>: a literal, an \<open>int\<close>, or the address of a C string.  Three literals
  have an em dash, which is three bytes in the source.
\<close>

definition em_dash :: string where "em_dash = [CHR 0xE2, CHR 0x80, CHR 0x94]"

record mach =
  ram :: mem
  io :: "io_event list"
  dev :: "io_event list \<Rightarrow> u16 \<Rightarrow> u8"
  klog :: "log_arg list list"
  cr0 :: u32
  cr2 :: u32
  cr3 :: u32
  cr4 :: u32
  if_flag :: bool
  gdtr :: u32
  idtr :: u32

definition outb :: "u16 \<Rightarrow> u8 \<Rightarrow> mach \<Rightarrow> mach" where
  "outb p v M = M\<lparr>io := io M @ [Out p v]\<rparr>"

definition inb :: "u16 \<Rightarrow> mach \<Rightarrow> u8 \<times> mach" where
  "inb p M = (let v = dev M (io M) p in (v, M\<lparr>io := io M @ [In p v]\<rparr>))"

definition log_line :: "log_arg list \<Rightarrow> mach \<Rightarrow> mach" where
  "log_line xs M = M\<lparr>klog := klog M @ [xs]\<rparr>"

lemma outb_sel [simp]:
  "io (outb p v M) = io M @ [Out p v]" "ram (outb p v M) = ram M" "dev (outb p v M) = dev M"
  "klog (outb p v M) = klog M" "cr0 (outb p v M) = cr0 M" "cr2 (outb p v M) = cr2 M"
  "cr3 (outb p v M) = cr3 M" "cr4 (outb p v M) = cr4 M" "if_flag (outb p v M) = if_flag M"
  "gdtr (outb p v M) = gdtr M" "idtr (outb p v M) = idtr M"
  by (simp_all add: outb_def)

lemma log_line_sel [simp]:
  "klog (log_line xs M) = klog M @ [xs]" "ram (log_line xs M) = ram M"
  "io (log_line xs M) = io M" "dev (log_line xs M) = dev M"
  "cr0 (log_line xs M) = cr0 M" "cr2 (log_line xs M) = cr2 M" "cr3 (log_line xs M) = cr3 M"
  "cr4 (log_line xs M) = cr4 M" "if_flag (log_line xs M) = if_flag M"
  "gdtr (log_line xs M) = gdtr M" "idtr (log_line xs M) = idtr M"
  by (simp_all add: log_line_def)

text \<open>A machine that has done nothing yet: zeroed memory, empty history, silent devices.\<close>

definition blank :: mach where
  "blank = \<lparr>ram = (\<lambda>_. 0), io = [], dev = (\<lambda>_ _. 0), klog = [], cr0 = 0, cr2 = 0, cr3 = 0,
     cr4 = 0, if_flag = False, gdtr = 0, idtr = 0\<rparr>"

declare outb_def [defs] inb_def [defs] log_line_def [defs] blank_def [defs]

section \<open>Numbers\<close>

lemma unat_of_nat_u32 [simp]: "n < 2 ^ 32 \<Longrightarrow> unat (of_nat n :: u32) = n"
  by (simp add: unat_of_nat take_bit_eq_mod)

lemma of_nat_u32_eq_0 [simp]: "n < 2 ^ 32 \<Longrightarrow> (of_nat n :: u32) = 0 \<longleftrightarrow> n = 0"
  using of_nat_u32_eq_iff [of n 0] by simp

lemma of_nat_u32_neq0: "0 < n \<Longrightarrow> n < 2 ^ 32 \<Longrightarrow> (of_nat n :: u32) \<noteq> 0"
  using of_nat_u32_eq_iff [of n 0] by simp

lemma and_not_mask_nat: "(n::nat) - n mod 2 ^ k = (n div 2 ^ k) * 2 ^ k"
  by (simp add: minus_mod_eq_div_mult)

lemma word_and_not_mask:
  "(w::'a::len word) AND NOT (mask k) = push_bit k (drop_bit k w)"
  by (rule bit_word_eqI) (auto simp: bit_simps)

lemma unat_and_not_mask:
  "unat ((w::'a::len word) AND NOT (mask k)) = (unat w div 2 ^ k) * 2 ^ k"
proof -
  have "(unat w div 2 ^ k) * 2 ^ k \<le> unat w" by simp
  then have "(unat w div 2 ^ k) * 2 ^ k < 2 ^ LENGTH('a)"
    using unsigned_less [of w] by (rule le_less_trans)
  moreover have "unat (w AND NOT (mask k)) = (unat w div 2 ^ k) * 2 ^ k mod 2 ^ LENGTH('a)"
    unfolding word_and_not_mask unsigned_push_bit_eq unsigned_drop_bit_eq
    by (simp add: take_bit_eq_mod push_bit_eq_mult drop_bit_eq_div mod_less [OF unsigned_less])
  ultimately show ?thesis by simp
qed

lemma unat_and_not_7: "unat (w AND NOT 7 :: 'a::len word) = unat w div 8 * 8"
  using unat_and_not_mask [of w 3] by (simp add: mask_eq_exp_minus_1)

lemma unat_and_not_0xFFF: "unat (w AND NOT 0xFFF :: 'a::len word) = unat w div 4096 * 4096"
  using unat_and_not_mask [of w 12] by (simp add: mask_eq_exp_minus_1)

lemma and_0xFFF_eq_0: "(w::'a::len word) AND 0xFFF = 0 \<longleftrightarrow> unat w mod 4096 = 0"
proof -
  have "w AND 0xFFF = take_bit 12 w"
    by (simp add: take_bit_eq_mask mask_eq_exp_minus_1)
  then have "unat (w AND 0xFFF) = unat w mod 4096"
    by (simp only: unsigned_take_bit_eq) (simp add: take_bit_eq_mod)
  then show ?thesis by (metis unsigned_0 unsigned_eq_0_iff)
qed

lemma round_up_4096: "(n::nat) mod 4096 = 0 \<Longrightarrow> (n + 4095) div 4096 * 4096 = n"
  by (auto elim!: dvdE simp: mod_eq_0_iff_dvd)

lemma round_up_4096_bounds:
  "(n::nat) \<le> (n + 4095) div 4096 * 4096" "(n + 4095) div 4096 * 4096 \<le> n + 4095"
  using div_mult_mod_eq [of "n + 4095" 4096] mod_less_divisor [of 4096 "n + 4095"] by linarith+

lemma unat_minus_one_u32: "0 < (w::u32) \<Longrightarrow> unat (w - 1) = unat w - 1"
  by (simp add: unat_minus_one word_gt_0)

lemma unat_plus_one_u32: "unat (w::u32) < 2 ^ 32 - 1 \<Longrightarrow> unat (w + 1) = unat w + 1"
  by (simp add: unat_word_ariths)

section \<open>Counted loops\<close>

text \<open>
  \<open>for (uint32_t i = a; i < n; i++) s = f(i, s)\<close>, and the same loop left early with a result
  as soon as the body gives one.
\<close>

function for_loop :: "(u32 \<Rightarrow> 's \<Rightarrow> 's) \<Rightarrow> u32 \<Rightarrow> u32 \<Rightarrow> 's \<Rightarrow> 's" where
  "for_loop f i n s = (if i < n then for_loop f (i + 1) n (f i s) else s)"
  by pat_completeness auto

lemma unat_u32_less: "unat (w :: u32) < 2 ^ 32"
  using unsigned_less [of w] by simp

lemma poke_bytes_other:
  assumes "unat a + length bs \<le> 2 ^ 32" "unat x < unat a \<or> unat a + length bs \<le> unat x"
  shows "poke_bytes a bs m x = m x"
proof -
  have "length bs \<le> unat (x - a)" using assms unat_u32_less [of x]
    by (auto simp: unat_sub_if_size word_size)
  then show ?thesis by (simp add: poke_bytes_def)
qed

lemma unat_Suc_less: "(i::u32) < n \<Longrightarrow> unat (i + 1) = Suc (unat i)"
proof -
  assume "i < n"
  then have "unat i + 1 < 2 ^ 32"
    using unat_u32_less [of n] by (simp add: word_less_nat_alt)
  then show ?thesis by (simp add: unat_word_ariths)
qed

termination for_loop
  by (relation "measure (\<lambda>(f, i, n, s). unat n - unat i)")
    (auto simp: unat_Suc_less word_less_nat_alt)

function for_find :: "(u32 \<Rightarrow> 'a option) \<Rightarrow> u32 \<Rightarrow> u32 \<Rightarrow> 'a option" where
  "for_find f i n =
     (if i < n then case f i of Some x \<Rightarrow> Some x | None \<Rightarrow> for_find f (i + 1) n else None)"
  by pat_completeness auto
termination for_find
  by (relation "measure (\<lambda>(f, i, n). unat n - unat i)")
    (auto simp: unat_Suc_less word_less_nat_alt)

declare for_loop.simps [simp del] for_find.simps [simp del]

definition word_upt :: "u32 \<Rightarrow> u32 \<Rightarrow> u32 list" where
  "word_upt i n = map of_nat [unat i..<unat n]"

lemma word_upt_rec: "word_upt i n = (if i < n then i # word_upt (i + 1) n else [])"
proof (cases "i < n")
  case True
  then have "unat i < unat n" by (simp add: word_less_nat_alt)
  then have "[unat i..<unat n] = unat i # [Suc (unat i)..<unat n]" by (rule upt_conv_Cons)
  then show ?thesis using True by (simp add: word_upt_def unat_Suc_less)
qed (simp add: word_upt_def word_less_nat_alt)

lemma set_word_upt [simp]: "set (word_upt i n) = {i..<n}"
proof -
  have "x \<in> of_nat ` {unat i..<unat n}" if "i \<le> x" "x < n" for x :: u32
    using that by (intro image_eqI [of _ _ "unat x"]) (auto simp: word_le_nat_alt word_less_nat_alt)
  moreover have "i \<le> of_nat k \<and> of_nat k < n" if "unat i \<le> k" "k < unat n" for k
  proof -
    have "k < 2 ^ 32" using that unat_u32_less [of n] by simp
    with that show ?thesis by (simp add: word_le_nat_alt word_less_nat_alt)
  qed
  ultimately show ?thesis by (auto simp: word_upt_def)
qed

lemma distinct_word_upt [simp]: "distinct (word_upt i n)"
proof -
  have "inj_on (of_nat :: nat \<Rightarrow> u32) {unat i..<unat n}"
  proof (rule inj_onI)
    fix x y assume "x \<in> {unat i..<unat n}" "y \<in> {unat i..<unat n}" "(of_nat x :: u32) = of_nat y"
    moreover from this have "x < 2 ^ 32" "y < 2 ^ 32" using unat_u32_less [of n] by auto
    ultimately show "x = y" using of_nat_u32_eq_iff by blast
  qed
  then show ?thesis by (simp add: word_upt_def distinct_map)
qed

lemma card_word_range [simp]: "card {i..<n :: u32} = unat n - unat i"
  using distinct_card [OF distinct_word_upt [of i n]] unfolding set_word_upt
  by (simp add: word_upt_def)

lemma for_loop_fold: "for_loop f i n s = fold f (word_upt i n) s"
  by (induction f i n s rule: for_loop.induct) (subst for_loop.simps, subst word_upt_rec, auto)

lemma for_find_None: "for_find f i n = None \<longleftrightarrow> (\<forall>k. i \<le> k \<longrightarrow> k < n \<longrightarrow> f k = None)"
proof -
  have "for_find f i n = None \<longleftrightarrow> (\<forall>k \<in> set (word_upt i n). f k = None)"
  proof (induction f i n rule: for_find.induct)
    case (1 f i n)
    then show ?case
      unfolding for_find.simps [of f i n] word_upt_rec [of i n]
      by (auto split: option.splits simp del: set_word_upt)
  qed
  then show ?thesis by auto
qed

lemma word_le_Suc: "(i::u32) < n \<Longrightarrow> i \<le> j \<longleftrightarrow> j = i \<or> i + 1 \<le> j"
  using unat_Suc_less [of i n] by (auto simp: word_le_nat_alt word_unat_eq_iff)

lemma for_find_Some:
  "for_find f i n = Some x \<Longrightarrow> \<exists>k. i \<le> k \<and> k < n \<and> f k = Some x \<and> (\<forall>j. i \<le> j \<longrightarrow> j < k \<longrightarrow> f j = None)"
proof (induction f i n rule: for_find.induct)
  case (1 f i n)
  then have i: "i < n" by (auto simp: for_find.simps [of f i n] split: if_splits)
  show ?case
  proof (cases "f i")
    case (Some y)
    with "1.prems" i have "f i = Some x" by (simp add: for_find.simps [of f i n])
    with i show ?thesis by (intro exI [of _ i]) auto
  next
    case None
    with "1.prems" i have "for_find f (i + 1) n = Some x" by (simp add: for_find.simps [of f i n])
    from "1.IH" [OF i None this] obtain k where "i + 1 \<le> k" "k < n" "f k = Some x"
      "\<forall>j. i + 1 \<le> j \<longrightarrow> j < k \<longrightarrow> f j = None" by blast
    with None show ?thesis by (intro exI [of _ k]) (auto simp: word_le_Suc [OF i])
  qed
qed

lemma for_find_first:
  assumes "i \<le> k" "k < n" "f k = Some x" "\<And>j. i \<le> j \<Longrightarrow> j < k \<Longrightarrow> f j = None"
  shows "for_find f i n = Some x"
proof (cases "for_find f i n")
  case None
  with assms show ?thesis by (auto simp: for_find_None)
next
  case (Some y)
  from for_find_Some [OF this] obtain l where l: "i \<le> l" "l < n" "f l = Some y"
    "\<forall>j. i \<le> j \<longrightarrow> j < l \<longrightarrow> f j = None" by blast
  have "\<not> k < l" using l(4) assms(1,3) by auto
  moreover have "\<not> l < k" using assms(4) [OF l(1)] l(3) by auto
  ultimately have "l = k" by simp
  with Some l(3) assms(3) show ?thesis by simp
qed

end
