(* ===== verification/Heap_Spec.thy ===== *)
theory Heap_Spec
  imports Prelude
begin

text \<open>
  What the kernel heap promises, over an abstract list of blocks in physical order.  A block
  is its payload size and its used flag; every block costs 16 more bytes for its header.
  \<open>alloc_blks\<close> is first fit with splitting, \<open>free_blks\<close> marks one block free and merges all
  free neighbours, \<open>live\<close> is the set of payload regions that are handed out.  The locale
  \<open>allocator\<close> is the contract the rest of the kernel relies on.
\<close>

type_synonym blk = "nat \<times> bool"

definition HDR :: nat where
  "HDR = 16"

fun total :: "blk list \<Rightarrow> nat" where
  "total [] = 0"
| "total ((s, u) # bs) = HDR + s + total bs"

fun used_bytes :: "blk list \<Rightarrow> nat" where
  "used_bytes [] = 0"
| "used_bytes ((s, u) # bs) = (if u then s else 0) + used_bytes bs"

fun free_bytes :: "blk list \<Rightarrow> nat" where
  "free_bytes [] = 0"
| "free_bytes ((s, u) # bs) = (if u then 0 else s) + free_bytes bs"

fun used_count :: "blk list \<Rightarrow> nat" where
  "used_count [] = 0"
| "used_count ((s, u) # bs) = of_bool u + used_count bs"

fun head_free :: "blk list \<Rightarrow> bool" where
  "head_free [] \<longleftrightarrow> False"
| "head_free ((s, u) # bs) \<longleftrightarrow> \<not> u"

fun last_free :: "blk list \<Rightarrow> bool" where
  "last_free [] \<longleftrightarrow> False"
| "last_free ((s, u) # bs) \<longleftrightarrow> (if bs = [] then \<not> u else last_free bs)"

fun no_adj_free :: "blk list \<Rightarrow> bool" where
  "no_adj_free [] \<longleftrightarrow> True"
| "no_adj_free ((s, u) # bs) \<longleftrightarrow> (u \<or> \<not> head_free bs) \<and> no_adj_free bs"

fun aligned8 :: "blk list \<Rightarrow> bool" where
  "aligned8 [] \<longleftrightarrow> True"
| "aligned8 ((s, u) # bs) \<longleftrightarrow> 8 dvd s \<and> aligned8 bs"

section \<open>First fit\<close>

fun split_fit :: "nat \<Rightarrow> blk list \<Rightarrow> (blk list \<times> nat \<times> blk list) option" where
  "split_fit n [] = None"
| "split_fit n ((s, u) # bs) =
     (if \<not> u \<and> n \<le> s then Some ([], s, bs)
      else map_option (\<lambda>(xs, t, ys). ((s, u) # xs, t, ys)) (split_fit n bs))"

definition carve :: "nat \<Rightarrow> nat \<Rightarrow> blk list" where
  "carve n s = (if s - n > HDR + 16 then [(n, True), (s - n - HDR, False)] else [(s, True)])"

text \<open>The result is the new list and the offset of the chosen block's header.\<close>

definition alloc_blks :: "nat \<Rightarrow> blk list \<Rightarrow> (blk list \<times> nat) option" where
  "alloc_blks n bs = (case split_fit n bs of None \<Rightarrow> None
     | Some (xs, s, ys) \<Rightarrow> Some (xs @ carve n s @ ys, total xs))"

lemma split_fit_Some:
  "split_fit n bs = Some (xs, s, ys) \<Longrightarrow> bs = xs @ (s, False) # ys \<and> n \<le> s"
  by (induction n bs arbitrary: xs rule: split_fit.induct) (auto split: if_splits)

lemma split_fit_None:
  "split_fit n bs = None \<longleftrightarrow> (\<forall>(s, u) \<in> set bs. u \<or> s < n)"
  by (induction n bs rule: split_fit.induct) auto

lemma split_fit_first:
  "split_fit n bs = Some (xs, s, ys) \<Longrightarrow> \<forall>(t, u) \<in> set xs. u \<or> t < n"
  by (induction n bs arbitrary: xs rule: split_fit.induct) (auto split: if_splits)

lemma total_append [simp]: "total (xs @ ys) = total xs + total ys"
  by (induction xs rule: total.induct) auto

lemma used_bytes_append [simp]: "used_bytes (xs @ ys) = used_bytes xs + used_bytes ys"
  by (induction xs rule: used_bytes.induct) auto

lemma free_bytes_append [simp]: "free_bytes (xs @ ys) = free_bytes xs + free_bytes ys"
  by (induction xs rule: free_bytes.induct) auto

lemma used_count_append [simp]: "used_count (xs @ ys) = used_count xs + used_count ys"
  by (induction xs rule: used_count.induct) auto

lemma aligned8_append [simp]: "aligned8 (xs @ ys) \<longleftrightarrow> aligned8 xs \<and> aligned8 ys"
  by (induction xs rule: aligned8.induct) auto

lemma total_carve: "n \<le> s \<Longrightarrow> total (carve n s) = HDR + s"
  by (simp add: carve_def)

lemma carve_Nil [simp]: "carve n s \<noteq> []"
  by (simp add: carve_def)

lemma total_dvd8: "aligned8 bs \<Longrightarrow> 8 dvd total bs"
  by (induction bs rule: total.induct) (auto simp: HDR_def)

lemma used_free_total: "used_bytes bs + free_bytes bs + HDR * length bs = total bs"
  by (induction bs rule: total.induct) auto

lemma head_free_append [simp]:
  "head_free (xs @ ys) \<longleftrightarrow> (if xs = [] then head_free ys else head_free xs)"
  by (cases xs) auto

lemma last_free_append [simp]:
  "last_free (xs @ ys) \<longleftrightarrow> (if ys = [] then last_free xs else last_free ys)"
  by (induction xs rule: last_free.induct) auto

lemma no_adj_free_append [simp]:
  "no_adj_free (xs @ ys) \<longleftrightarrow>
     no_adj_free xs \<and> no_adj_free ys \<and> \<not> (last_free xs \<and> head_free ys)"
  by (induction xs rule: no_adj_free.induct) auto

lemma no_adj_free_carve:
  "no_adj_free (xs @ (s, False) # ys) \<Longrightarrow> no_adj_free (xs @ carve n s @ ys)"
  by (auto simp: carve_def)

section \<open>Freeing\<close>

text \<open>
  \<open>coalesce\<close> merges every run of neighbouring free blocks, headers included; \<open>mark_free\<close>
  clears the used flag of the block whose header is at a given offset.
\<close>

fun coalesce :: "blk list \<Rightarrow> blk list" where
  "coalesce ((s, False) # (t, False) # bs) = coalesce ((s + HDR + t, False) # bs)"
| "coalesce (b # bs) = b # coalesce bs"
| "coalesce [] = []"

fun mark_free :: "nat \<Rightarrow> blk list \<Rightarrow> blk list" where
  "mark_free q [] = []"
| "mark_free q ((s, u) # bs) =
     (if q = 0 then (s, False) # bs
      else if q < HDR + s then (s, u) # bs else (s, u) # mark_free (q - (HDR + s)) bs)"

definition free_blks :: "nat \<Rightarrow> blk list \<Rightarrow> blk list" where
  "free_blks q bs = coalesce (mark_free q bs)"

lemma mark_free_append: "mark_free (total xs) (xs @ (s, u) # ys) = xs @ (s, False) # ys"
  by (induction xs rule: total.induct) (auto simp: HDR_def)

lemma total_coalesce [simp]: "total (coalesce bs) = total bs"
  by (induction bs rule: coalesce.induct) auto

lemma used_bytes_coalesce [simp]: "used_bytes (coalesce bs) = used_bytes bs"
  by (induction bs rule: coalesce.induct) auto

lemma used_count_coalesce [simp]: "used_count (coalesce bs) = used_count bs"
  by (induction bs rule: coalesce.induct) auto

lemma aligned8_coalesce [simp]: "aligned8 bs \<Longrightarrow> aligned8 (coalesce bs)"
  by (induction bs rule: coalesce.induct) (auto simp: HDR_def)

lemma head_free_coalesce [simp]: "head_free (coalesce bs) = head_free bs"
  by (induction bs rule: coalesce.induct) auto

lemma no_adj_free_coalesce [simp]: "no_adj_free (coalesce bs)"
proof (induction bs rule: coalesce.induct, goal_cases)
  case (3 b) then show ?case by (cases b) simp
next
  case (4 b t bs) then show ?case by (cases b) simp
qed auto

lemma coalesce_id: "no_adj_free bs \<Longrightarrow> coalesce bs = bs"
  by (induction bs rule: coalesce.induct) auto

text \<open>
  The code merges only with the two direct neighbours; where no two neighbours were free
  before, that is all there is to merge.
\<close>

definition merge_next :: "nat \<Rightarrow> blk list \<Rightarrow> blk list" where
  "merge_next s ys = (case ys of (t, False) # zs \<Rightarrow> (s + (HDR + t), False) # zs
     | _ \<Rightarrow> (s, False) # ys)"

definition merge_prev :: "blk list \<Rightarrow> blk list \<Rightarrow> blk list" where
  "merge_prev xs ys = (case (rev xs, ys) of
     ((t, False) # zs, (s, u) # ys') \<Rightarrow> rev zs @ (t + (HDR + s), False) # ys'
   | _ \<Rightarrow> xs @ ys)"

lemma merge_next_Cons: "\<exists>t zs. merge_next s ys = (t, False) # zs"
  by (auto simp: merge_next_def split: list.split prod.split bool.split)

lemma free_bytes_merge_next:
  "free_bytes (merge_next s ys) = s + free_bytes ys + (if head_free ys then HDR else 0)"
  by (auto simp: merge_next_def split: list.split bool.split)

lemma total_merge_next [simp]: "total (merge_next s ys) = HDR + s + total ys"
  by (auto simp: merge_next_def split: list.split bool.split)

lemma merge_prev_snoc_free: "merge_prev (zs @ [(t, False)]) ((s, u) # ys) = zs @ (t + (HDR + s), False) # ys"
  by (simp add: merge_prev_def)

lemma merge_prev_not_free: "\<not> last_free xs \<Longrightarrow> merge_prev xs ys = xs @ ys"
  by (cases xs rule: rev_cases) (auto simp: merge_prev_def split: bool.split)

lemma free_bytes_merge_prev:
  "free_bytes (merge_prev xs ((s, False) # ys)) =
     free_bytes xs + s + free_bytes ys + (if last_free xs then HDR else 0)"
  by (cases xs rule: rev_cases) (auto simp: merge_prev_def split: bool.split)

lemma coalesce_merge_next:
  "no_adj_free ys \<Longrightarrow> coalesce ((s, False) # ys) = merge_next s ys"
proof (cases ys)
  case (Cons b zs)
  assume "no_adj_free ys"
  with Cons show ?thesis
    by (cases b; cases "snd b"; cases zs) (auto simp: merge_next_def coalesce_id add.assoc)
qed (simp add: merge_next_def)

lemma coalesce_used_append:
  "\<not> last_free xs \<Longrightarrow> coalesce (xs @ ys) = coalesce xs @ coalesce ys"
  by (induction xs rule: coalesce.induct) (auto split: if_splits)

lemma coalesce_free:
  assumes "no_adj_free xs" "no_adj_free ys"
  shows "coalesce (xs @ (s, False) # ys) = merge_prev xs (merge_next s ys)"
proof (cases xs rule: rev_cases)
  case Nil
  with assms show ?thesis
    by (simp add: merge_prev_def coalesce_merge_next)
next
  case (snoc zs b)
  obtain t u where b: "b = (t, u)" by force
  show ?thesis
  proof (cases u)
    case True
    with snoc b have "\<not> last_free xs" by simp
    with assms have "coalesce (xs @ (s, False) # ys) = xs @ merge_next s ys"
      by (simp add: coalesce_used_append coalesce_merge_next coalesce_id)
    with snoc b True show ?thesis by (simp add: merge_prev_def)
  next
    case False
    with assms snoc b have "\<not> last_free zs" "no_adj_free zs" by auto
    with assms snoc b False
    have "coalesce (xs @ (s, False) # ys) = zs @ merge_next (t + HDR + s) ys"
      by (simp add: coalesce_used_append coalesce_merge_next coalesce_id)
    with snoc b False show ?thesis
      by (auto simp: merge_prev_def merge_next_def split: list.split prod.split bool.split)
  qed
qed

section \<open>Handed-out regions\<close>

text \<open>\<open>live a bs\<close> lists (payload address, payload size) of the used blocks from address \<open>a\<close> on.\<close>

fun live :: "nat \<Rightarrow> blk list \<Rightarrow> (nat \<times> nat) list" where
  "live a [] = []"
| "live a ((s, u) # bs) = (if u then [(a + HDR, s)] else []) @ live (a + HDR + s) bs"

lemma live_append [simp]: "live a (xs @ ys) = live a xs @ live (a + total xs) ys"
  by (induction a xs rule: live.induct) (auto simp: add.assoc)

lemma live_coalesce [simp]: "live a (coalesce bs) = live a bs"
proof (induction bs arbitrary: a rule: coalesce.induct, goal_cases)
  case (1 s t bs)
  then show ?case by (simp add: add.assoc)
next
  case (3 b)
  then show ?case by (cases b) simp
next
  case (4 b t bs a)
  from this(1) [of "a + HDR + fst b"] show ?case by (cases b) simp
qed auto

lemma live_bounds:
  "(p, s) \<in> set (live a bs) \<Longrightarrow> a + HDR \<le> p \<and> p + s \<le> a + total bs"
  by (induction a bs rule: live.induct) (fastforce split: if_splits)+

lemma live_decompose:
  "(p, s) \<in> set (live a bs) \<Longrightarrow>
     \<exists>xs ys. bs = xs @ (s, True) # ys \<and> p = a + total xs + HDR"
proof (induction a bs rule: live.induct)
  case (2 a t u bs)
  show ?case
  proof (cases "u \<and> p = a + HDR \<and> s = t")
    case True
    then have "(t, u) # bs = [] @ (s, True) # bs \<and> p = a + total [] + HDR" by simp
    then show ?thesis by blast
  next
    case False
    with "2.prems" have "(p, s) \<in> set (live (a + HDR + t) bs)" by (auto split: if_splits)
    then obtain xs ys where "bs = xs @ (s, True) # ys" "p = a + HDR + t + total xs + HDR"
      using "2.IH" by blast
    then have "(t, u) # bs = ((t, u) # xs) @ (s, True) # ys \<and> p = a + total ((t, u) # xs) + HDR"
      by simp
    then show ?thesis by blast
  qed
qed simp

lemma live_disjoint:
  "(p, s) \<in> set (live a bs) \<Longrightarrow> (q, t) \<in> set (live a bs) \<Longrightarrow>
     p = q \<and> s = t \<or> p + s + HDR \<le> q \<or> q + t + HDR \<le> p"
  by (induction a bs rule: live.induct) (fastforce split: if_splits dest: live_bounds)+

lemma live_alloc:
  assumes "alloc_blks n bs = Some (bs', q)"
  shows "\<exists>s. n \<le> s \<and> set (live a bs') = insert (a + q + HDR, s) (set (live a bs))
    \<and> (\<forall>t. (a + q + HDR, t) \<notin> set (live a bs))"
proof -
  from assms obtain xs s ys where sp: "split_fit n bs = Some (xs, s, ys)"
    and bs': "bs' = xs @ carve n s @ ys" and q: "q = total xs"
    by (auto simp: alloc_blks_def split: option.splits)
  from split_fit_Some [OF sp] have bs: "bs = xs @ (s, False) # ys" and n: "n \<le> s" by auto
  have fresh: "(a + q + HDR, t) \<notin> set (live a bs)" for t
  proof
    assume "(a + q + HDR, t) \<in> set (live a bs)"
    with bs consider "(a + q + HDR, t) \<in> set (live a xs)"
      | "(a + q + HDR, t) \<in> set (live (a + total xs + HDR + s) ys)"
      by (auto simp: add.assoc)
    then show False
      by cases (auto dest!: live_bounds simp: q HDR_def)
  qed
  have "\<exists>s'. n \<le> s' \<and> set (live a bs') = insert (a + q + HDR, s') (set (live a bs))"
  proof (cases "s - n > HDR + 16")
    case True
    then have "a + total xs + HDR + n + HDR + (s - n - HDR) = a + total xs + HDR + s" by simp
    with True have "set (live a bs') = insert (a + q + HDR, n) (set (live a bs))"
      by (auto simp: bs bs' q carve_def add.assoc)
    then show ?thesis by blast
  next
    case False
    then have "set (live a bs') = insert (a + q + HDR, s) (set (live a bs))"
      by (auto simp: bs bs' q carve_def add.assoc)
    with n show ?thesis by blast
  qed
  with fresh show ?thesis by blast
qed

lemma live_free:
  assumes "(p, s) \<in> set (live a bs)"
  shows "set (live a (free_blks (p - HDR - a) bs)) = set (live a bs) - {(p, s)}"
proof -
  from live_decompose [OF assms] obtain xs ys
    where bs: "bs = xs @ (s, True) # ys" and p: "p = a + total xs + HDR" by blast
  have "(p, s) \<notin> set (live a xs)" "(p, s) \<notin> set (live (a + total xs + HDR + s) ys)"
    by (auto dest!: live_bounds simp: p HDR_def)
  then show ?thesis
    by (auto simp: free_blks_def bs p mark_free_append add.assoc)
qed

lemma free_alloc_blks:
  assumes "no_adj_free bs" "alloc_blks n bs = Some (bs', q)"
  shows "free_blks q bs' = bs"
proof -
  from assms obtain xs s ys where sp: "split_fit n bs = Some (xs, s, ys)"
    and bs': "bs' = xs @ carve n s @ ys" and q: "q = total xs"
    by (auto simp: alloc_blks_def split: option.splits)
  from split_fit_Some [OF sp] have bs: "bs = xs @ (s, False) # ys" and n: "n \<le> s" by auto
  have "mark_free q bs' = xs @ (if s - n > HDR + 16
      then [(n, False), (s - n - HDR, False)] else [(s, False)]) @ ys"
    by (simp add: bs' q carve_def mark_free_append)
  moreover from assms(1) bs have "\<not> last_free xs" "no_adj_free xs" "no_adj_free ((s, False) # ys)"
    by auto
  ultimately show ?thesis
    using bs n by (auto simp: free_blks_def coalesce_used_append coalesce_id)
qed

section \<open>The contract\<close>

text \<open>
  What a client of the kernel allocator relies on.  \<open>regions\<close> are the handed-out payloads,
  \<open>contents\<close> is the memory, \<open>put\<close> writes it back.  \<open>0xFFFFFFF8\<close> is the largest request the
  rounding does not wrap.
\<close>

locale allocator =
  fixes inv :: "'s \<Rightarrow> bool"
    and regions :: "'s \<Rightarrow> (nat \<times> nat) set"
    and contents :: "'s \<Rightarrow> mem"
    and put :: "mem \<Rightarrow> 's \<Rightarrow> 's"
    and alloc :: "u32 \<Rightarrow> 's \<Rightarrow> (u32 \<times> 's) option"
    and release :: "u32 \<Rightarrow> 's \<Rightarrow> 's option"
  assumes alloc_returns: "inv s \<Longrightarrow> \<exists>p s'. alloc n s = Some (p, s')"
    and alloc_inv: "inv s \<Longrightarrow> alloc n s = Some (p, s') \<Longrightarrow> inv s'"
    and alloc_null: "inv s \<Longrightarrow> alloc n s = Some (0, s') \<Longrightarrow>
      regions s' = regions s \<and> contents s' = contents s"
    and alloc_new: "inv s \<Longrightarrow> alloc n s = Some (p, s') \<Longrightarrow> p \<noteq> 0 \<Longrightarrow> n \<le> 0xFFFFFFF8 \<Longrightarrow>
      \<exists>k. unat n \<le> k \<and> regions s' = insert (unat p, k) (regions s) \<and> (\<forall>l. (unat p, l) \<notin> regions s)"
    and alloc_frame: "inv s \<Longrightarrow> alloc n s = Some (p, s') \<Longrightarrow> (q, l) \<in> regions s \<Longrightarrow>
      q \<le> x \<Longrightarrow> x < q + l \<Longrightarrow> contents s' (of_nat x) = contents s (of_nat x)"
    and release_ok: "inv s \<Longrightarrow> (unat p, k) \<in> regions s \<Longrightarrow>
      \<exists>s'. release p s = Some s' \<and> inv s' \<and> regions s' = regions s - {(unat p, k)}"
    and release_frame: "inv s \<Longrightarrow> (unat p, k) \<in> regions s \<Longrightarrow> release p s = Some s' \<Longrightarrow>
      (q, l) \<in> regions s \<Longrightarrow> q \<le> x \<Longrightarrow> x < q + l \<Longrightarrow> contents s' (of_nat x) = contents s (of_nat x)"
    and regions_bound: "inv s \<Longrightarrow> (p', k) \<in> regions s \<Longrightarrow> 0 < p' \<and> p' + k < 2 ^ 32"
    and regions_disjoint: "inv s \<Longrightarrow> (p', k) \<in> regions s \<Longrightarrow> (q, l) \<in> regions s \<Longrightarrow>
      p' = q \<and> k = l \<or> p' + k < q \<or> q + l < p'"
    and put_ok: "inv s \<Longrightarrow>
      (\<And>x. m x \<noteq> contents s x \<Longrightarrow> \<exists>(p', k) \<in> regions s. p' \<le> unat x \<and> unat x < p' + k) \<Longrightarrow>
      inv (put m s) \<and> regions (put m s) = regions s \<and> contents (put m s) = m"
begin

lemma alloc_twice_disjoint:
  assumes "inv s" "alloc n s = Some (p, s1)" "alloc n' s1 = Some (p', s2)" "p \<noteq> 0" "p' \<noteq> 0"
    "n \<le> 0xFFFFFFF8" "n' \<le> 0xFFFFFFF8"
  shows "unat p + unat n < unat p' \<or> unat p' + unat n' < unat p"
proof -
  from assms(1,2) have i1: "inv s1" by (rule alloc_inv)
  from i1 assms(3) have i2: "inv s2" by (rule alloc_inv)
  from alloc_new [OF assms(1,2,4,6)] obtain k where k: "unat n \<le> k" "(unat p, k) \<in> regions s1"
    by auto
  from alloc_new [OF i1 assms(3,5,7)] obtain k' where k': "unat n' \<le> k'"
    "regions s2 = insert (unat p', k') (regions s1)" "(unat p', k) \<notin> regions s1"
    by auto
  with k regions_disjoint [OF i2, of "unat p" k "unat p'" k'] show ?thesis by auto
qed

text \<open>A client's data outlives whatever others allocate and release.\<close>

lemma alloc_keeps:
  assumes "inv s" "alloc n s = Some (p, s')" "n \<le> 0xFFFFFFF8" "(q, l) \<in> regions s"
  shows "(q, l) \<in> regions s'"
  using assms alloc_null [OF assms(1)] alloc_new [OF assms(1,2) _ assms(3)] by (cases "p = 0") auto

lemma alloc_release:
  assumes "inv s" "alloc n s = Some (p, s1)" "p \<noteq> 0" "n \<le> 0xFFFFFFF8"
  shows "\<exists>s2. release p s1 = Some s2 \<and> inv s2 \<and> regions s2 = regions s"
proof -
  from assms(1,2) have i1: "inv s1" by (rule alloc_inv)
  from alloc_new [OF assms] obtain k where k: "regions s1 = insert (unat p, k) (regions s)"
    "(unat p, k) \<notin> regions s" by auto
  then have "regions s1 - {(unat p, k)} = regions s" by auto
  with release_ok [OF i1, of p k] k(1) show ?thesis by auto
qed

lemma write_new_region:
  assumes "inv s" "alloc n s = Some (p, s1)" "p \<noteq> 0" "n \<le> 0xFFFFFFF8"
    and m: "\<And>x. m x \<noteq> contents s1 x \<Longrightarrow> unat p \<le> unat x \<and> unat x < unat p + unat n"
  shows "inv (put m s1) \<and> regions (put m s1) = regions s1 \<and> contents (put m s1) = m
    \<and> (\<forall>(q, l) \<in> regions s. \<forall>x. q \<le> x \<and> x < q + l \<longrightarrow> m (of_nat x) = contents s (of_nat x))"
proof -
  from assms(1,2) have i1: "inv s1" by (rule alloc_inv)
  from alloc_new [OF assms(1-4)] obtain k where k: "unat n \<le> k"
    "regions s1 = insert (unat p, k) (regions s)" "\<forall>l. (unat p, l) \<notin> regions s" by auto
  have "inv (put m s1) \<and> regions (put m s1) = regions s1 \<and> contents (put m s1) = m"
    by (rule put_ok [OF i1]) (use m k in fastforce)
  moreover have "m (of_nat x) = contents s (of_nat x)"
    if ql: "(q, l) \<in> regions s" and x: "q \<le> x" "x < q + l" for q l x
  proof -
    have "x < 2 ^ 32" using regions_bound [OF assms(1) ql] x by simp
    then have "unat (of_nat x :: u32) = x" by simp
    moreover have "unat p + k < q \<or> q + l < unat p"
      using regions_disjoint [OF i1, of "unat p" k q l] ql k by auto
    ultimately have "m (of_nat x) = contents s1 (of_nat x)"
      using m [of "of_nat x"] x k(1) by fastforce
    with alloc_frame [OF assms(1,2) ql x] show ?thesis by simp
  qed
  ultimately show ?thesis by blast
qed

end

end
