(* ===== verification/Heap.thy ===== *)
theory Heap
  imports Heap_Spec
begin

text \<open>
  \<open>System::Heap\<close> (src/src/src/classes/heap.class.h): the first-fit free-list allocator.  The
  block headers live in the byte memory of the machine, four 32-bit fields each, and are
  linked by their \<open>next\<close> pointers; the walks over the list are \<open>partial_function\<close>s, so that
  a walk that never meets the null pointer is \<open>None\<close>.  \<open>heap_blocks\<close> reads the list back
  from memory; every operation is shown to implement the operation of \<open>Heap_Spec\<close> on it.
\<close>

unbundle bit_operations_syntax

section \<open>Block headers\<close>

definition hdr_magic :: "mem \<Rightarrow> u32 \<Rightarrow> u32" where "hdr_magic m b = load32 m b"
definition hdr_size :: "mem \<Rightarrow> u32 \<Rightarrow> u32" where "hdr_size m b = load32 m (b + 4)"
definition hdr_used :: "mem \<Rightarrow> u32 \<Rightarrow> u32" where "hdr_used m b = load32 m (b + 8)"
definition hdr_next :: "mem \<Rightarrow> u32 \<Rightarrow> u32" where "hdr_next m b = load32 m (b + 12)"

definition set_magic :: "u32 \<Rightarrow> u32 \<Rightarrow> mem \<Rightarrow> mem" where "set_magic b v m = store32 m b v"
definition set_size :: "u32 \<Rightarrow> u32 \<Rightarrow> mem \<Rightarrow> mem" where "set_size b v m = store32 m (b + 4) v"
definition set_used :: "u32 \<Rightarrow> u32 \<Rightarrow> mem \<Rightarrow> mem" where "set_used b v m = store32 m (b + 8) v"
definition set_next :: "u32 \<Rightarrow> u32 \<Rightarrow> mem \<Rightarrow> mem" where "set_next b v m = store32 m (b + 12) v"

declare hdr_magic_def [defs] hdr_size_def [defs] hdr_used_def [defs] hdr_next_def [defs]
  set_magic_def [defs] set_size_def [defs] set_used_def [defs] set_next_def [defs]

definition HEAP_MAGIC :: u32 where "HEAP_MAGIC = 0x5481B07E"
definition HEAP_SIZE :: u32 where "HEAP_SIZE = 0x00400000"
definition SIZEOF_HEADER :: u32 where "SIZEOF_HEADER = 16"

declare HEAP_MAGIC_def [defs] HEAP_SIZE_def [defs] SIZEOF_HEADER_def [defs]

record heap =
  heap_first :: u32
  heap_base :: u32
  heap_end :: u32
  bytes_used :: u32
  bytes_free :: u32
  alloc_count :: u32
  free_count :: u32
  heap_ready :: bool

text \<open>The static members before \<open>Start\<close>.\<close>

definition heap0 :: heap where
  "heap0 = \<lparr>heap_first = 0, heap_base = 0, heap_end = 0, bytes_used = 0, bytes_free = 0,
     alloc_count = 0, free_count = 0, heap_ready = False\<rparr>"

section \<open>Operations\<close>

text \<open>\<open>kernel_end\<close> is the address of the linker symbol \<open>_kernel_end\<close>.\<close>

definition Heap_Start :: "u32 \<Rightarrow> u32 \<Rightarrow> mach \<Rightarrow> mach \<times> heap" where
  "Heap_Start kernel_end base_hint M =
     (let base0 = (if kernel_end < base_hint then base_hint else kernel_end);
          base = (if base0 AND 0xFFF \<noteq> 0 then (base0 + 0xFFF) AND NOT 0xFFF else base0);
          end = base + HEAP_SIZE;
          sz = HEAP_SIZE - SIZEOF_HEADER;
          m = set_next base 0 (set_used base 0 (set_size base sz
                (set_magic base HEAP_MAGIC (ram M))))
      in (log_line [LStr ''> Heap online: base='', LInt base, LStr '' end='', LInt end,
            LStr '' size(KiB)='', LInt (HEAP_SIZE div 1024)] (M\<lparr>ram := m\<rparr>),
          \<lparr>heap_first = base, heap_base = base, heap_end = end, bytes_used = 0,
            bytes_free = hdr_size m base, alloc_count = 0, free_count = 0, heap_ready = True\<rparr>))"

definition Heap_Round :: "u32 \<Rightarrow> u32" where
  "Heap_Round n = ((if n < 8 then 8 else n) + 7) AND NOT 7"

text \<open>The search loop of \<open>Alloc\<close>: the first free block that is large enough, or null.\<close>

partial_function (option) alloc_scan :: "mem \<Rightarrow> u32 \<Rightarrow> u32 \<Rightarrow> u32 option" where
  "alloc_scan m sz b =
     (if b = 0 then Some 0
      else if hdr_used m b \<noteq> 0 \<or> hdr_size m b < sz then alloc_scan m sz (hdr_next m b)
      else Some b)"

text \<open>The split inside \<open>Alloc\<close>: a tail block is carved out of the slack of block \<open>b\<close>.\<close>

definition split_block :: "u32 \<Rightarrow> u32 \<Rightarrow> u32 \<Rightarrow> mem \<Rightarrow> mem" where
  "split_block b sz leftover m =
     (let tail = b + SIZEOF_HEADER + sz;
          m1 = set_used tail 0 (set_size tail (leftover - SIZEOF_HEADER)
                 (set_magic tail HEAP_MAGIC m));
          m2 = set_next tail (hdr_next m1 b) m1
      in set_next b tail (set_size b sz m2))"

definition Heap_Alloc :: "u32 \<Rightarrow> mach \<Rightarrow> heap \<Rightarrow> (u32 \<times> mach \<times> heap) option" where
  "Heap_Alloc size0 M H =
     (if \<not> heap_ready H then Some (0, M, H)
      else let sz = Heap_Round size0 in
        case alloc_scan (ram M) sz (heap_first H) of
          None \<Rightarrow> None
        | Some b \<Rightarrow>
            if b = 0
            then Some (0, log_line [LStr ''> [HEAP] OOM requesting '', LInt sz,
                             LStr '' bytes''] M, H)
            else let leftover = hdr_size (ram M) b - sz;
                     split = SIZEOF_HEADER + 16 < leftover;
                     m1 = (if split then split_block b sz leftover (ram M) else ram M);
                     H1 = (if split then H\<lparr>bytes_free := bytes_free H - SIZEOF_HEADER\<rparr> else H);
                     m2 = set_used b 1 m1
                 in Some (b + SIZEOF_HEADER, M\<lparr>ram := m2\<rparr>,
                      H1\<lparr>bytes_used := bytes_used H1 + hdr_size m2 b,
                         bytes_free := bytes_free H1 - hdr_size m2 b,
                         alloc_count := alloc_count H1 + 1\<rparr>))"

text \<open>The predecessor walk of \<open>Free\<close>.\<close>

partial_function (option) find_prev :: "mem \<Rightarrow> u32 \<Rightarrow> u32 \<Rightarrow> u32 \<Rightarrow> u32 option" where
  "find_prev m b prev cur =
     (if cur \<noteq> 0 \<and> cur \<noteq> b then find_prev m b cur (hdr_next m cur) else Some prev)"

definition coalesce_next :: "u32 \<Rightarrow> mem \<times> heap \<Rightarrow> mem \<times> heap" where
  "coalesce_next b = (\<lambda>(m, H).
     if hdr_next m b \<noteq> 0 \<and> hdr_used m (hdr_next m b) = 0
     then let n = hdr_next m b;
              m1 = set_size b (hdr_size m b + (SIZEOF_HEADER + hdr_size m n)) m
          in (set_next b (hdr_next m1 n) m1, H\<lparr>bytes_free := bytes_free H + SIZEOF_HEADER\<rparr>)
     else (m, H))"

definition coalesce_prev :: "u32 \<Rightarrow> u32 \<Rightarrow> mem \<times> heap \<Rightarrow> mem \<times> heap" where
  "coalesce_prev prev b = (\<lambda>(m, H).
     if prev \<noteq> 0 \<and> hdr_used m prev = 0
     then let m1 = set_size prev (hdr_size m prev + (SIZEOF_HEADER + hdr_size m b)) m
          in (set_next prev (hdr_next m1 b) m1, H\<lparr>bytes_free := bytes_free H + SIZEOF_HEADER\<rparr>)
     else (m, H))"

definition Heap_Free :: "u32 \<Rightarrow> mach \<Rightarrow> heap \<Rightarrow> (mach \<times> heap) option" where
  "Heap_Free p M H =
     (if \<not> heap_ready H \<or> p = 0 then Some (M, H)
      else let b = p - SIZEOF_HEADER in
        if hdr_magic (ram M) b \<noteq> HEAP_MAGIC
        then Some (log_line [LStr ''> [HEAP] free of bad pointer '', LInt p] M, H)
        else if hdr_used (ram M) b = 0
        then Some (log_line [LStr ''> [HEAP] double free at '', LInt p] M, H)
        else let m1 = set_used b 0 (ram M);
                 H1 = H\<lparr>bytes_used := bytes_used H - hdr_size m1 b,
                        bytes_free := bytes_free H + hdr_size m1 b,
                        free_count := free_count H + 1\<rparr>;
                 (m2, H2) = coalesce_next b (m1, H1)
             in case find_prev m2 b 0 (heap_first H2) of
                  None \<Rightarrow> None
                | Some prev \<Rightarrow>
                    (let (m3, H3) = coalesce_prev prev b (m2, H2)
                     in Some (M\<lparr>ram := m3\<rparr>, H3)))"

section \<open>The list in memory\<close>

fun blocks :: "nat \<Rightarrow> mem \<Rightarrow> u32 \<Rightarrow> blk list" where
  "blocks 0 m b = []"
| "blocks (Suc k) m b =
     (if b = 0 then [] else (unat (hdr_size m b), hdr_used m b \<noteq> 0) # blocks k m (hdr_next m b))"

text \<open>A heap of 4 MiB holds at most 2 ^ 18 blocks, so this fuel reads every list to its end.\<close>

definition heap_blocks :: "mach \<Rightarrow> heap \<Rightarrow> blk list" where
  "heap_blocks M H = blocks (Suc (2 ^ 18)) (ram M) (heap_first H)"

definition hdr_at :: "mem \<Rightarrow> nat \<Rightarrow> nat \<Rightarrow> bool \<Rightarrow> u32 \<Rightarrow> bool" where
  "hdr_at m a s u nx \<longleftrightarrow> hdr_magic m (of_nat a) = HEAP_MAGIC \<and> hdr_size m (of_nat a) = of_nat s
     \<and> hdr_used m (of_nat a) = of_bool u \<and> hdr_next m (of_nat a) = nx"

fun chain :: "mem \<Rightarrow> nat \<Rightarrow> blk list \<Rightarrow> u32 \<Rightarrow> bool" where
  "chain m a [] z \<longleftrightarrow> True"
| "chain m a ((s, u) # bs) z \<longleftrightarrow>
     hdr_at m a s u (if bs = [] then z else of_nat (a + HDR + s)) \<and> chain m (a + HDR + s) bs z"

text \<open>
  \<open>heap_ok M H bs\<close>: the memory holds the list \<open>bs\<close> from \<open>first\<close> to the end of the heap, no
  two neighbours are both free, and every counter agrees with it.
\<close>

definition heap_ok :: "mach \<Rightarrow> heap \<Rightarrow> blk list \<Rightarrow> bool" where
  "heap_ok M H bs \<longleftrightarrow>
     heap_ready H \<and> heap_base H = heap_first H \<and> heap_end H = heap_base H + HEAP_SIZE
     \<and> 0 < unat (heap_first H) \<and> 8 dvd unat (heap_first H)
     \<and> unat (heap_first H) + 2 ^ 22 < 2 ^ 32
     \<and> total bs = 2 ^ 22 \<and> chain (ram M) (unat (heap_first H)) bs 0
     \<and> no_adj_free bs \<and> aligned8 bs
     \<and> bytes_used H = of_nat (used_bytes bs) \<and> bytes_free H = of_nat (free_bytes bs)
     \<and> alloc_count H - free_count H = of_nat (used_count bs)"

definition heap_inv :: "mach \<Rightarrow> heap \<Rightarrow> bool" where
  "heap_inv M H \<longleftrightarrow> heap_ok M H (heap_blocks M H)"

lemma hdr_set [simp]:
  "hdr_magic (set_magic b v m) b = v" "hdr_size (set_magic b v m) b = hdr_size m b"
  "hdr_used (set_magic b v m) b = hdr_used m b" "hdr_next (set_magic b v m) b = hdr_next m b"
  "hdr_magic (set_size b v m) b = hdr_magic m b" "hdr_size (set_size b v m) b = v"
  "hdr_used (set_size b v m) b = hdr_used m b" "hdr_next (set_size b v m) b = hdr_next m b"
  "hdr_magic (set_used b v m) b = hdr_magic m b" "hdr_size (set_used b v m) b = hdr_size m b"
  "hdr_used (set_used b v m) b = v" "hdr_next (set_used b v m) b = hdr_next m b"
  "hdr_magic (set_next b v m) b = hdr_magic m b" "hdr_size (set_next b v m) b = hdr_size m b"
  "hdr_used (set_next b v m) b = hdr_used m b" "hdr_next (set_next b v m) b = v"
  by (simp_all add: hdr_magic_def hdr_size_def hdr_used_def hdr_next_def set_magic_def
      set_size_def set_used_def set_next_def) (simp_all add: load32_def store32_def)

lemma set_frame:
  assumes "x < a \<or> a + 16 \<le> x" "a + 16 \<le> 2 ^ 32" "x < 2 ^ 32"
  shows "set_magic (of_nat a) v m (of_nat x) = m (of_nat x)"
    "set_size (of_nat a) v m (of_nat x) = m (of_nat x)"
    "set_used (of_nat a) v m (of_nat x) = m (of_nat x)"
    "set_next (of_nat a) v m (of_nat x) = m (of_nat x)"
  using assms store32_other [of a x m v] store32_other [of "a + 4" x m v]
    store32_other [of "a + 8" x m v] store32_other [of "a + 12" x m v]
  by (auto simp: set_magic_def set_size_def set_used_def set_next_def ac_simps)

lemma hdr_cong:
  assumes "\<And>x. a \<le> x \<Longrightarrow> x < a + 16 \<Longrightarrow> m' (of_nat x) = m (of_nat x)"
  shows "hdr_magic m' (of_nat a) = hdr_magic m (of_nat a)"
    "hdr_size m' (of_nat a) = hdr_size m (of_nat a)"
    "hdr_used m' (of_nat a) = hdr_used m (of_nat a)"
    "hdr_next m' (of_nat a) = hdr_next m (of_nat a)"
proof -
  have "load32 m' (of_nat (a + k)) = load32 m (of_nat (a + k))" if "k \<le> 12" for k
    using that by (intro load32_cong assms) auto
  from this [of 0] this [of 4] this [of 8] this [of 12]
  show "hdr_magic m' (of_nat a) = hdr_magic m (of_nat a)"
    "hdr_size m' (of_nat a) = hdr_size m (of_nat a)"
    "hdr_used m' (of_nat a) = hdr_used m (of_nat a)"
    "hdr_next m' (of_nat a) = hdr_next m (of_nat a)"
    by (simp_all add: hdr_magic_def hdr_size_def hdr_used_def hdr_next_def add.commute)
qed

lemma hdr_at_cong:
  assumes "\<And>x. a \<le> x \<Longrightarrow> x < a + 16 \<Longrightarrow> m' (of_nat x) = m (of_nat x)"
  shows "hdr_at m' a s u nx = hdr_at m a s u nx"
  using hdr_cong [of a m' m, OF assms] by (simp add: hdr_at_def)

text \<open>The bytes of a list that are headers; the rest is payload, which clients may write.\<close>

fun in_header :: "nat \<Rightarrow> blk list \<Rightarrow> nat \<Rightarrow> bool" where
  "in_header a [] x \<longleftrightarrow> False"
| "in_header a ((s, u) # bs) x \<longleftrightarrow> a \<le> x \<and> x < a + HDR \<or> in_header (a + HDR + s) bs x"

lemma chain_cong:
  "(\<And>x. in_header a bs x \<Longrightarrow> m' (of_nat x) = m (of_nat x)) \<Longrightarrow> chain m' a bs z = chain m a bs z"
proof (induction a bs rule: live.induct)
  case (2 a s u bs)
  have "hdr_at m' a s u nx = hdr_at m a s u nx" for nx
    by (rule hdr_at_cong) (simp add: "2.prems" HDR_def)
  with 2 show ?case by simp
qed simp

lemma in_header_bounds: "in_header a bs x \<Longrightarrow> a \<le> x \<and> x < a + total bs"
  by (induction a bs x rule: in_header.induct) (auto simp: HDR_def)

lemma in_header_live: "in_header a bs x \<Longrightarrow> (p, s) \<in> set (live a bs) \<Longrightarrow> x < p \<or> p + s \<le> x"
proof (induction a bs rule: live.induct)
  case (2 a t u bs)
  from "2.prems" consider "a \<le> x" "x < a + HDR" | "in_header (a + HDR + t) bs x" by auto
  then show ?case
  proof cases
    case 1
    with "2.prems"(2) show ?thesis by (auto split: if_splits dest: live_bounds)
  next
    case 2
    then have "a + HDR + t \<le> x" by (auto dest: in_header_bounds)
    with 2 "2.IH" "2.prems"(2) show ?thesis by (auto split: if_splits)
  qed
qed simp

lemma chain_frame:
  "(\<And>x. a \<le> x \<Longrightarrow> x < a + total bs \<Longrightarrow> m' (of_nat x) = m (of_nat x)) \<Longrightarrow>
     chain m' a bs z = chain m a bs z"
  by (rule chain_cong) (auto dest: in_header_bounds)

lemma chain_append:
  "chain m a (xs @ ys) z \<longleftrightarrow>
     chain m a xs (if ys = [] then z else of_nat (a + total xs)) \<and> chain m (a + total xs) ys z"
  by (induction a xs rule: live.induct) (auto simp: add.assoc)

lemma total_length: "HDR * length bs \<le> total bs"
  using used_free_total [of bs] by simp

lemma blocks_chain:
  assumes "chain m a bs 0" "0 < a" "a + total bs < 2 ^ 32" "length bs < k"
  shows "blocks k m (if bs = [] then 0 else of_nat a) = bs"
  using assms
proof (induction bs arbitrary: a k)
  case Nil
  then show ?case by (cases k) simp_all
next
  case (Cons b bs)
  obtain s u where b: "b = (s, u)" by force
  from Cons.prems obtain k' where k: "k = Suc k'" by (cases k) auto
  from Cons.prems b have "blocks k' m (if bs = [] then 0 else of_nat (a + HDR + s)) = bs"
    by (intro Cons.IH) (auto simp: k)
  moreover from Cons.prems b have "hdr_at m a s u (if bs = [] then 0 else of_nat (a + HDR + s))"
    by simp
  moreover from Cons.prems b have "(of_nat a :: u32) \<noteq> 0" "unat (of_nat s :: u32) = s"
    by auto
  ultimately show ?case by (auto simp: b k hdr_at_def)
qed

lemma heap_ok_nonempty: "heap_ok M H bs \<Longrightarrow> bs \<noteq> []"
  by (auto simp: heap_ok_def)

lemma heap_ok_blocks:
  assumes "heap_ok M H bs"
  shows "heap_blocks M H = bs"
proof -
  from assms total_length [of bs] have "length bs < Suc (2 ^ 18)"
    by (simp add: heap_ok_def HDR_def)
  with assms have "blocks (Suc (2 ^ 18)) (ram M)
      (if bs = [] then 0 else of_nat (unat (heap_first H))) = bs"
    by (intro blocks_chain) (simp_all add: heap_ok_def)
  with heap_ok_nonempty [OF assms] show ?thesis
    by (simp add: heap_blocks_def)
qed

lemma heap_inv_iff: "heap_inv M H \<longleftrightarrow> (\<exists>bs. heap_ok M H bs)"
  by (auto simp: heap_inv_def dest: heap_ok_blocks)

lemma heap_okI: "heap_ok M H bs \<Longrightarrow> heap_inv M H \<and> heap_blocks M H = bs"
  by (simp add: heap_inv_def heap_ok_blocks)

text \<open>The walks return, and find what the abstract operations find.\<close>

lemma alloc_scan_chain:
  assumes "chain m a bs 0" "0 < a" "a + total bs < 2 ^ 32"
  shows "alloc_scan m sz (if bs = [] then 0 else of_nat a) =
     Some (case split_fit (unat sz) bs of None \<Rightarrow> 0 | Some (xs, s, ys) \<Rightarrow> of_nat (a + total xs))"
  using assms
proof (induction bs arbitrary: a)
  case Nil
  then show ?case by (simp add: alloc_scan.simps)
next
  case (Cons b bs)
  obtain s u where b: "b = (s, u)" by force
  from Cons.prems b have nz: "(of_nat a :: u32) \<noteq> 0" and s: "unat (of_nat s :: u32) = s"
    by auto
  from Cons.prems b have h: "hdr_at m a s u (if bs = [] then 0 else of_nat (a + HDR + s))"
    by simp
  have scan: "alloc_scan m sz (of_nat a) =
     (if u \<or> s < unat sz then alloc_scan m sz (if bs = [] then 0 else of_nat (a + HDR + s))
      else Some (of_nat a))"
    using h nz s by (subst alloc_scan.simps) (auto simp: hdr_at_def word_less_nat_alt)
  from Cons.prems b have IH: "alloc_scan m sz (if bs = [] then 0 else of_nat (a + HDR + s)) =
     Some (case split_fit (unat sz) bs of None \<Rightarrow> 0
             | Some (xs, s', ys) \<Rightarrow> of_nat (a + HDR + s + total xs))"
    by (intro Cons.IH) auto
  show ?case
    unfolding b by (simp add: scan IH del: of_nat_add split: option.split) (auto simp: ac_simps)
qed

lemma find_prev_chain:
  assumes "chain m a (xs @ ys) 0" "0 < a" "a + total (xs @ ys) < 2 ^ 32" "ys \<noteq> []"
  shows "find_prev m (of_nat (a + total xs)) prev (of_nat a) =
     Some (if xs = [] then prev else of_nat (a + total (butlast xs)))"
  using assms
proof (induction xs arbitrary: a prev)
  case Nil
  then show ?case by (simp add: find_prev.simps)
next
  case (Cons b xs)
  obtain s u where b: "b = (s, u)" by force
  have "total (xs @ ys) \<ge> HDR"
    using total_length [of "xs @ ys"] Cons.prems(4) by (cases ys) auto
  with Cons.prems b have nz: "(of_nat a :: u32) \<noteq> 0" by auto
  from \<open>HDR \<le> total (xs @ ys)\<close> Cons.prems b
  have ne: "(of_nat a :: u32) \<noteq> of_nat (a + total ((s, u) # xs))"
    by (subst of_nat_u32_eq_iff) (auto simp: HDR_def)
  from Cons.prems b have nx: "hdr_next m (of_nat a) = of_nat (a + HDR + s)"
    by (auto simp: hdr_at_def)
  from Cons.prems b have "find_prev m (of_nat (a + HDR + s + total xs)) (of_nat a)
      (of_nat (a + HDR + s)) =
     Some (if xs = [] then of_nat a else of_nat (a + HDR + s + total (butlast xs)))"
    by (intro Cons.IH) auto
  moreover have "find_prev m (of_nat (a + total ((s, u) # xs))) prev (of_nat a) =
      find_prev m (of_nat (a + total ((s, u) # xs))) (of_nat a) (of_nat (a + HDR + s))"
    using ne nz nx by (subst find_prev.simps) (simp del: of_nat_add total.simps)
  ultimately show ?case
    by (simp add: b add.assoc del: of_nat_add)
qed

section \<open>Replacing one block of the list\<close>

definition frame :: "nat \<Rightarrow> nat \<Rightarrow> mem \<Rightarrow> mem \<Rightarrow> bool" where
  "frame l h m m' \<longleftrightarrow> (\<forall>x < 2 ^ 32. x < l \<or> h \<le> x \<longrightarrow> m' (of_nat x) = m (of_nat x))"

lemma frameD: "frame l h m m' \<Longrightarrow> x < 2 ^ 32 \<Longrightarrow> x < l \<or> h \<le> x \<Longrightarrow> m' (of_nat x) = m (of_nat x)"
  by (auto simp: frame_def)

lemma frame_refl [simp, intro]: "frame l h m m"
  by (simp add: frame_def)

lemma frame_trans: "frame l h m m' \<Longrightarrow> frame l h m' m'' \<Longrightarrow> frame l h m m''"
  by (simp add: frame_def)

lemma frame_mono: "frame l h m m' \<Longrightarrow> l' \<le> l \<Longrightarrow> h \<le> h' \<Longrightarrow> frame l' h' m m'"
  by (auto simp: frame_def)

lemma frame_set:
  assumes "frame l h m m'" "l \<le> a" "a + 16 \<le> h" "h \<le> 2 ^ 32"
  shows "frame l h m (set_magic (of_nat a) v m')" "frame l h m (set_size (of_nat a) v m')"
    "frame l h m (set_used (of_nat a) v m')" "frame l h m (set_next (of_nat a) v m')"
proof -
  have "x < a \<or> a + 16 \<le> x" if "x < l \<or> h \<le> x" for x
    using that assms by auto
  moreover have "a + 16 \<le> 2 ^ 32" using assms by simp
  ultimately show "frame l h m (set_magic (of_nat a) v m')" "frame l h m (set_size (of_nat a) v m')"
    "frame l h m (set_used (of_nat a) v m')" "frame l h m (set_next (of_nat a) v m')"
    using assms(1) by (auto simp: frame_def set_frame simp del: power_numeral)
qed

lemma hdr_frame:
  assumes "frame l h m m'" "a + 16 \<le> l \<or> h \<le> a" "a + 16 \<le> 2 ^ 32"
  shows "hdr_magic m' (of_nat a) = hdr_magic m (of_nat a)"
    "hdr_size m' (of_nat a) = hdr_size m (of_nat a)"
    "hdr_used m' (of_nat a) = hdr_used m (of_nat a)"
    "hdr_next m' (of_nat a) = hdr_next m (of_nat a)"
proof -
  have "m' (of_nat x) = m (of_nat x)" if "a \<le> x" "x < a + 16" for x
    using assms that by (intro frameD [OF assms(1)]) auto
  then show "hdr_magic m' (of_nat a) = hdr_magic m (of_nat a)"
    "hdr_size m' (of_nat a) = hdr_size m (of_nat a)"
    "hdr_used m' (of_nat a) = hdr_used m (of_nat a)"
    "hdr_next m' (of_nat a) = hdr_next m (of_nat a)"
    by (auto intro: hdr_cong)
qed

lemma chain_replace:
  assumes c: "chain m a (xs @ bs @ ys) 0" and f: "frame (a + total xs) (a + total xs + total bs) m m'"
    and cs: "chain m' (a + total xs) cs (if ys = [] then 0 else of_nat (a + total xs + total bs))"
    and t: "total cs = total bs" "cs \<noteq> []" "bs \<noteq> []"
    and b: "a + total (xs @ bs @ ys) < 2 ^ 32"
  shows "chain m' a (xs @ cs @ ys) 0"
proof -
  have "chain m' a xs (of_nat (a + total xs)) = chain m a xs (of_nat (a + total xs))"
    using b by (intro chain_frame frameD [OF f]) auto
  moreover have "chain m' (a + total xs + total bs) ys 0 = chain m (a + total xs + total bs) ys 0"
    using b by (intro chain_frame frameD [OF f]) auto
  ultimately show ?thesis
    using c cs t by (simp add: chain_append add.assoc split: if_splits)
qed

lemma use_block_chain:
  assumes "hdr_at m a s u z" "a + HDR + s < 2 ^ 32"
  shows "chain (set_used (of_nat a) (of_bool v) m) a [(s, v)] z"
    "frame a (a + (HDR + s)) m (set_used (of_nat a) (of_bool v) m)"
  using assms by (auto simp: hdr_at_def HDR_def intro!: frame_set)

lemma split_block_chain:
  assumes h: "hdr_at m a s u z" and n: "n + 32 < s" and b: "a + HDR + s < 2 ^ 32"
  defines "m' \<equiv> set_used (of_nat a) 1 (split_block (of_nat a) (of_nat n) (of_nat (s - n)) m)"
  shows "chain m' a [(n, True), (s - n - HDR, False)] z" "frame a (a + (HDR + s)) m m'"
proof -
  define t where "t = a + HDR + n"
  have tw: "(of_nat a + SIZEOF_HEADER + of_nat n :: u32) = of_nat t"
    by (simp add: t_def SIZEOF_HEADER_def HDR_def)
  define m1 where "m1 = set_used (of_nat t) 0 (set_size (of_nat t)
      (of_nat (s - n) - SIZEOF_HEADER) (set_magic (of_nat t) HEAP_MAGIC m))"
  define m2 where "m2 = set_next (of_nat t) (hdr_next m1 (of_nat a)) m1"
  define m3 where "m3 = set_used (of_nat a) 1 (set_next (of_nat a) (of_nat t)
      (set_size (of_nat a) (of_nat n) m2))"
  have m': "m' = m3"
    unfolding m'_def split_block_def Let_def tw m3_def m2_def m1_def ..
  have bt: "t + 16 \<le> a + (HDR + s)" "a + 16 \<le> t" "a + (HDR + s) \<le> 2 ^ 32"
    using n b by (auto simp: t_def HDR_def)
  have f1: "frame t (a + (HDR + s)) m m1"
    unfolding m1_def using bt by (intro frame_set) auto
  have f2: "frame t (a + (HDR + s)) m m2"
    unfolding m2_def using bt by (intro frame_set f1) auto
  have f3: "frame a t m2 m3"
    unfolding m3_def using bt by (intro frame_set) auto
  have "frame a (a + (HDR + s)) m m2"
    using bt by (intro frame_mono [OF f2]) auto
  moreover have "frame a (a + (HDR + s)) m2 m3"
    using bt by (intro frame_mono [OF f3]) auto
  ultimately show "frame a (a + (HDR + s)) m m'"
    unfolding m' by (rule frame_trans)
  have z: "hdr_next m1 (of_nat a) = z"
    using hdr_frame(4) [OF f1, of a] h bt by (simp add: hdr_at_def)
  have ma: "hdr_magic m2 (of_nat a) = HEAP_MAGIC"
    using hdr_frame(1) [OF f2, of a] h bt by (simp add: hdr_at_def)
  have "hdr_at m2 t (s - n - HDR) False z"
    using n by (simp add: hdr_at_def m2_def z) (simp add: m1_def SIZEOF_HEADER_def HDR_def of_nat_diff)
  then have "hdr_at m3 t (s - n - HDR) False z"
    using hdr_frame [OF f3, of t] bt by (simp add: hdr_at_def)
  moreover have "hdr_at m3 a n True (of_nat t)"
    by (simp add: hdr_at_def m3_def ma)
  ultimately show "chain m' a [(n, True), (s - n - HDR, False)] z"
    by (simp add: m' t_def)
qed

lemma Heap_Round_dvd: "8 dvd unat (Heap_Round n)"
  by (simp only: Heap_Round_def unat_and_not_7 dvd_triv_right)

section \<open>The operations implement the abstract ones\<close>

lemma Heap_Start_ok:
  assumes "0 < max kend hint" "unat (max kend hint) + 4095 + 2 ^ 22 < 2 ^ 32"
    and st: "Heap_Start kend hint M = (M', H')"
  shows "heap_ok M' H' [(2 ^ 22 - 16, False)]" "4096 dvd unat (heap_first H')"
    "max kend hint \<le> heap_first H'"
    "frame (unat (heap_first H')) (unat (heap_first H') + 16) (ram M) (ram M')"
proof -
  define w where "w = max kend hint"
  define b where "b = (if w AND 0xFFF \<noteq> 0 then (w + 0xFFF) AND NOT 0xFFF else w)"
  have w: "(if kend < hint then hint else kend) = w"
    by (auto simp: w_def max_def)
  have s1: "unat (w + 0xFFF) = unat w + 4095"
    using assms(2) by (simp add: unat_word_ariths w_def)
  have ub: "unat b = (unat w + 4095) div 4096 * 4096"
  proof (cases "unat w mod 4096 = 0")
    case True
    with round_up_4096 [OF True] show ?thesis by (simp only: b_def and_0xFFF_eq_0 if_False simp_thms)
  next
    case False
    then show ?thesis by (simp only: b_def and_0xFFF_eq_0 unat_and_not_0xFFF s1 if_True simp_thms)
  qed
  have ge: "unat w \<le> unat b" "unat b \<le> unat w + 4095" "4096 dvd unat b"
    unfolding ub by (simp_all add: round_up_4096_bounds)
  have b: "0 < unat b" "unat b + 2 ^ 22 < 2 ^ 32"
    using assms ge by (auto simp: w_def word_less_nat_alt simp del: unat_gt_0)
  have bw: "of_nat (unat b) = b" by simp
  define m where "m = set_next b 0 (set_used b 0 (set_size b (HEAP_SIZE - SIZEOF_HEADER)
       (set_magic b HEAP_MAGIC (ram M))))"
  have st': "M' = log_line [LStr ''> Heap online: base='', LInt b, LStr '' end='',
       LInt (b + HEAP_SIZE), LStr '' size(KiB)='', LInt (HEAP_SIZE div 1024)] (M\<lparr>ram := m\<rparr>)"
    "H' = \<lparr>heap_first = b, heap_base = b, heap_end = b + HEAP_SIZE, bytes_used = 0,
        bytes_free = HEAP_SIZE - SIZEOF_HEADER, alloc_count = 0, free_count = 0, heap_ready = True\<rparr>"
    using st by (auto simp: Heap_Start_def Let_def w m_def b_def)
  have "8 dvd unat b" using ge(3) by (rule dvd_trans [rotated]) simp
  with b show "heap_ok M' H' [(2 ^ 22 - 16, False)]"
    by (simp add: st' heap_ok_def hdr_at_def m_def HDR_def HEAP_SIZE_def SIZEOF_HEADER_def)
  show "4096 dvd unat (heap_first H')" "max kend hint \<le> heap_first H'"
    using ge by (simp_all add: st' word_le_nat_alt flip: w_def)
  have "frame (unat b) (unat b + 16) (ram M) m"
    unfolding m_def using b by (subst (1 2 3 4) bw [symmetric], intro frame_set) auto
  then show "frame (unat (heap_first H')) (unat (heap_first H') + 16) (ram M) (ram M')"
    by (simp add: st')
qed

lemma Heap_Alloc_fail:
  assumes "heap_ok M H bs" "split_fit (unat (Heap_Round n)) bs = None"
  shows "Heap_Alloc n M H = Some (0, log_line [LStr ''> [HEAP] OOM requesting '',
    LInt (Heap_Round n), LStr '' bytes''] M, H)"
proof -
  have "alloc_scan (ram M) (Heap_Round n) (heap_first H) = Some 0"
    using alloc_scan_chain [of "ram M" "unat (heap_first H)" bs "Heap_Round n"] assms
      heap_ok_nonempty [OF assms(1)] by (simp add: heap_ok_def)
  with assms(1) show ?thesis by (simp add: Heap_Alloc_def heap_ok_def)
qed

lemma Heap_Alloc_ok:
  assumes ok: "heap_ok M H bs" and sp: "split_fit (unat (Heap_Round n)) bs = Some (xs, s, ys)"
  shows "\<exists>M' H'. Heap_Alloc n M H = Some (heap_first H + of_nat (total xs) + 16, M', H')
    \<and> heap_ok M' H' (xs @ carve (unat (Heap_Round n)) s @ ys) \<and> heap_first H' = heap_first H
    \<and> M' = M\<lparr>ram := ram M'\<rparr>
    \<and> frame (unat (heap_first H) + total xs) (unat (heap_first H) + total xs + (HDR + s))
        (ram M) (ram M')"
proof -
  define sz where "sz = Heap_Round n"
  define k where "k = unat sz"
  define a where "a = unat (heap_first H)"
  define a0 where "a0 = a + total xs"
  define z :: u32 where "z = (if ys = [] then 0 else of_nat (a0 + HDR + s))"
  from split_fit_Some [OF sp] have bs: "bs = xs @ (s, False) # ys" and k: "k \<le> s"
    by (auto simp: k_def sz_def)
  from ok bs have a: "0 < a" "a0 + (HDR + s) + total ys < 2 ^ 32" "a + total bs < 2 ^ 32"
    by (auto simp: heap_ok_def a_def a0_def)
  from ok have ch: "chain (ram M) a bs 0" by (simp add: heap_ok_def a_def)
  then have h: "hdr_at (ram M) a0 s False z" by (auto simp: bs chain_append a0_def z_def simp del: of_nat_add)
  have "alloc_scan (ram M) sz (heap_first H) = Some (of_nat a0)"
    using alloc_scan_chain [OF ch a(1,3), of sz] sp heap_ok_nonempty [OF ok]
    by (simp add: a_def a0_def sz_def del: of_nat_add)
  moreover have "0 < a0" "a0 < 2 ^ 32" using a by (simp_all add: a0_def)
  then have "(of_nat a0 :: u32) \<noteq> 0" by simp
  moreover have lo: "hdr_size (ram M) (of_nat a0) - sz = of_nat (s - k)"
    using h k by (simp add: hdr_at_def k_def of_nat_diff)
  moreover have "SIZEOF_HEADER + 16 < (of_nat (s - k) :: u32) \<longleftrightarrow> 32 < s - k"
    using a by (simp add: word_less_nat_alt SIZEOF_HEADER_def)
  ultimately have alloc: "Heap_Alloc n M H =
     (let m1 = (if 32 < s - k then split_block (of_nat a0) sz (of_nat (s - k)) (ram M) else ram M);
          H1 = (if 32 < s - k then H\<lparr>bytes_free := bytes_free H - SIZEOF_HEADER\<rparr> else H);
          m2 = set_used (of_nat a0) 1 m1
      in Some (of_nat a0 + SIZEOF_HEADER, M\<lparr>ram := m2\<rparr>,
           H1\<lparr>bytes_used := bytes_used H1 + hdr_size m2 (of_nat a0),
              bytes_free := bytes_free H1 - hdr_size m2 (of_nat a0),
              alloc_count := alloc_count H1 + 1\<rparr>))"
    using ok by (simp add: Heap_Alloc_def heap_ok_def Let_def flip: sz_def)
  define m2 where "m2 = set_used (of_nat a0) 1
     (if 32 < s - k then split_block (of_nat a0) sz (of_nat (s - k)) (ram M) else ram M)"
  have szk: "sz = of_nat k" by (simp add: k_def)
  have m2: "chain m2 a0 (carve k s) z" "frame a0 (a0 + (HDR + s)) (ram M) m2"
    using split_block_chain [OF h, of k] use_block_chain [OF h, of True] a
    by (auto simp: m2_def szk carve_def HDR_def a0_def)
  have len: "total (carve k s) = HDR + s" using k by (rule total_carve)
  have ch2: "chain m2 a (xs @ carve k s @ ys) 0"
    by (rule chain_replace [of "ram M" a xs "[(s, False)]" ys m2 "carve k s"])
      (use ch m2 a len in \<open>auto simp: bs a0_def z_def add.assoc simp del: of_nat_add\<close>)
  have sz2: "hdr_size m2 (of_nat a0) = of_nat (if 32 < s - k then k else s)"
    using m2(1) by (auto simp: carve_def HDR_def hdr_at_def split: if_splits)
  have al: "aligned8 (carve k s)" "no_adj_free (xs @ carve k s @ ys)"
    using ok no_adj_free_carve [of xs s ys k] Heap_Round_dvd [of n]
    by (auto simp: heap_ok_def bs carve_def HDR_def k_def sz_def simp del: no_adj_free_append
        intro!: dvd_diff_nat)
  have ub: "(of_nat (used_bytes (carve k s)) :: u32) = of_nat (if 32 < s - k then k else s)"
    "used_count (carve k s) = 1"
    "(of_nat (free_bytes (carve k s)) :: u32) =
       (if 32 < s - k then of_nat s - of_nat k - SIZEOF_HEADER else 0)"
    using k by (auto simp: carve_def HDR_def SIZEOF_HEADER_def of_nat_diff)
  define H' where "H' = (if 32 < s - k then H\<lparr>bytes_free := bytes_free H - SIZEOF_HEADER\<rparr> else H)
      \<lparr>bytes_used := bytes_used H + hdr_size m2 (of_nat a0),
       bytes_free := bytes_free (if 32 < s - k then H\<lparr>bytes_free := bytes_free H - SIZEOF_HEADER\<rparr>
           else H) - hdr_size m2 (of_nat a0), alloc_count := alloc_count H + 1\<rparr>"
  have fst': "heap_first H' = heap_first H" by (simp add: H'_def)
  have "alloc_count H - free_count H + 1 = of_nat (used_count bs + 1)"
    using ok by (simp add: heap_ok_def)
  then have cnt: "alloc_count H + 1 - free_count H = of_nat (used_count bs + 1)"
    by (simp add: algebra_simps)
  have "heap_ok (M\<lparr>ram := m2\<rparr>) H' (xs @ carve k s @ ys)"
    using ok ch2 al len cnt
    by (simp add: heap_ok_def fst' flip: a_def)
      (auto simp: H'_def sz2 bs ub algebra_simps)
  moreover have "Heap_Alloc n M H = Some (heap_first H + of_nat (total xs) + 16, M\<lparr>ram := m2\<rparr>, H')"
    by (auto simp: alloc H'_def m2_def Let_def SIZEOF_HEADER_def a0_def a_def)
  ultimately show ?thesis
    using fst' m2(2) by (auto simp: k_def sz_def a0_def a_def)
qed

lemma in_header_append:
  "in_header a (xs @ ys) x \<longleftrightarrow> in_header a xs x \<or> in_header (a + total xs) ys x"
  by (induction a xs x rule: in_header.induct) (auto simp: add.assoc)

lemma coalesce_next_chain:
  assumes ch: "chain m a (xs @ (s, False) # ys) 0" and b: "0 < a"
    "a + total (xs @ (s, False) # ys) < 2 ^ 32"
  shows "\<exists>m'. coalesce_next (of_nat (a + total xs)) (m, H) =
       (m', H\<lparr>bytes_free := bytes_free H + (if head_free ys then SIZEOF_HEADER else 0)\<rparr>)
     \<and> chain m' a (xs @ merge_next s ys) 0
     \<and> frame (a + total xs) (a + total xs + 16) m m'
     \<and> hdr_magic m' (of_nat (a + total xs)) = hdr_magic m (of_nat (a + total xs))
     \<and> hdr_used m' (of_nat (a + total xs)) = hdr_used m (of_nat (a + total xs))"
proof -
  define a0 where "a0 = a + total xs"
  have h: "hdr_at m a0 s False (if ys = [] then 0 else of_nat (a0 + HDR + s))"
    using ch by (auto simp: chain_append a0_def simp del: of_nat_add)
  show ?thesis
  proof (cases "head_free ys")
    case False
    have "coalesce_next (of_nat a0) (m, H) = (m, H)"
    proof (cases ys)
      case Nil
      with h show ?thesis by (simp add: coalesce_next_def hdr_at_def)
    next
      case (Cons c zs)
      then obtain t where c: "c = (t, True)" using False by (cases c) auto
      with Cons ch have "hdr_at m (a0 + HDR + s) t True (if zs = [] then 0 else of_nat (a0 + HDR + s + HDR + t))"
        by (auto simp: chain_append a0_def simp del: of_nat_add)
      with h Cons show ?thesis by (simp add: coalesce_next_def hdr_at_def)
    qed
    moreover have "merge_next s ys = (s, False) # ys"
      using False by (auto simp: merge_next_def split: list.split bool.split)
    ultimately show ?thesis using False ch by (simp add: a0_def)
  next
    case True
    then obtain t zs where ys: "ys = (t, False) # zs" by (cases ys) auto
    define n where "n = a0 + HDR + s"
    define z :: u32 where "z = (if zs = [] then 0 else of_nat (n + HDR + t))"
    from ch ys have hn: "hdr_at m n t False z"
      by (auto simp: chain_append a0_def n_def z_def simp del: of_nat_add)
    have bn: "0 < n" "n + HDR + t < 2 ^ 32" "a0 + 16 \<le> n" "a0 + 16 \<le> 2 ^ 32" "n + 16 \<le> 2 ^ 32"
      using b ys by (auto simp: n_def a0_def HDR_def)
    define m1 where "m1 = set_size (of_nat a0) (of_nat (s + (HDR + t))) m"
    define m2 where "m2 = set_next (of_nat a0) z m1"
    have f1: "frame a0 (a0 + 16) m m1" unfolding m1_def using bn by (intro frame_set) auto
    have f2: "frame a0 (a0 + 16) m m2" unfolding m2_def using bn by (intro frame_set f1) auto
    have z: "hdr_next m1 (of_nat n) = z"
      using hdr_frame(4) [OF f1, of n] hn bn by (simp add: hdr_at_def)
    have nz: "(of_nat n :: u32) \<noteq> 0" using bn by simp
    have hx: "hdr_next m (of_nat a0) = of_nat n"
      using h ys by (simp add: hdr_at_def n_def del: of_nat_add)
    have "coalesce_next (of_nat a0) (m, H) = (m2, H\<lparr>bytes_free := bytes_free H + SIZEOF_HEADER\<rparr>)"
      using nz hn h z by (simp add: coalesce_next_def Let_def hx)
        (simp add: hdr_at_def m1_def m2_def SIZEOF_HEADER_def HDR_def)
    moreover have "chain m2 a0 [(s + (HDR + t), False)] z"
      using h by (simp add: hdr_at_def m2_def m1_def)
    then have "chain m2 a (xs @ [(s + (HDR + t), False)] @ zs) 0"
      by (intro chain_replace [of m a xs "[(s, False), (t, False)]" zs m2])
        (use ch b f2 in \<open>auto simp: ys a0_def z_def n_def add.assoc HDR_def simp del: of_nat_add
           intro: frame_mono\<close>)
    moreover have "hdr_magic m2 (of_nat a0) = hdr_magic m (of_nat a0)"
      "hdr_used m2 (of_nat a0) = hdr_used m (of_nat a0)"
      by (simp_all add: m2_def m1_def)
    ultimately show ?thesis
      using True f2 by (simp add: ys merge_next_def a0_def)
  qed
qed

lemma coalesce_prev_chain:
  assumes ch: "chain m a (xs @ (s, False) # ys) 0" and b: "0 < a"
    "a + total (xs @ (s, False) # ys) < 2 ^ 32"
  shows "\<exists>m'. coalesce_prev (if xs = [] then 0 else of_nat (a + total (butlast xs)))
       (of_nat (a + total xs)) (m, H) =
       (m', H\<lparr>bytes_free := bytes_free H + (if last_free xs then SIZEOF_HEADER else 0)\<rparr>)
     \<and> chain m' a (merge_prev xs ((s, False) # ys)) 0
     \<and> (\<forall>x < 2 ^ 32. m' (of_nat x) \<noteq> m (of_nat x) \<longrightarrow> in_header a xs x)"
proof (cases xs rule: rev_cases)
  case Nil
  with ch show ?thesis by (simp add: coalesce_prev_def merge_prev_def)
next
  case (snoc zs c)
  obtain t u where c: "c = (t, u)" by force
  define p where "p = a + total zs"
  define a0 where "a0 = p + HDR + t"
  define z :: u32 where "z = (if ys = [] then 0 else of_nat (a0 + HDR + s))"
  have xs: "xs = zs @ [(t, u)]" "butlast xs = zs" "a + total xs = a0"
    by (simp_all add: snoc c a0_def p_def)
  from ch have hp: "hdr_at m p t u (of_nat a0)" and h: "hdr_at m a0 s False z"
    by (auto simp: xs(1) chain_append p_def a0_def z_def add.assoc simp del: of_nat_add)
  have bn: "0 < p" "a0 + HDR + s < 2 ^ 32" "p + 16 \<le> a0" "p + 16 \<le> 2 ^ 32" "a0 + 16 \<le> 2 ^ 32"
    "p < 2 ^ 32"
    using b by (auto simp: xs(1) a0_def p_def HDR_def)
  have nz: "(of_nat p :: u32) \<noteq> 0" using bn by simp
  show ?thesis
  proof (cases u)
    case True
    with hp nz have "coalesce_prev (of_nat p) (of_nat a0) (m, H) = (m, H)"
      by (simp add: coalesce_prev_def hdr_at_def)
    with ch True show ?thesis
      by (simp add: xs(2,3) merge_prev_not_free p_def [symmetric] del: of_nat_add) (simp add: xs(1))
  next
    case False
    define m1 where "m1 = set_size (of_nat p) (of_nat (t + (HDR + s))) m"
    define m2 where "m2 = set_next (of_nat p) z m1"
    have f1: "frame p (p + 16) m m1" unfolding m1_def using bn by (intro frame_set) auto
    have f2: "frame p (p + 16) m m2" unfolding m2_def using bn by (intro frame_set f1) auto
    have z: "hdr_next m1 (of_nat a0) = z"
      using hdr_frame(4) [OF f1, of a0] h bn by (simp add: hdr_at_def)
    have "coalesce_prev (of_nat p) (of_nat a0) (m, H) =
        (m2, H\<lparr>bytes_free := bytes_free H + SIZEOF_HEADER\<rparr>)"
      using nz hp h z False by (simp add: coalesce_prev_def Let_def)
        (simp add: hdr_at_def m1_def m2_def SIZEOF_HEADER_def HDR_def)
    moreover have "chain m2 p [(t + (HDR + s), False)] z"
      using hp False by (simp add: hdr_at_def m2_def m1_def)
    then have "chain m2 a (zs @ [(t + (HDR + s), False)] @ ys) 0"
      by (intro chain_replace [of m a zs "[(t, False), (s, False)]" ys m2])
        (use ch b f2 False in \<open>auto simp: xs(1) a0_def p_def z_def add.assoc HDR_def
           simp del: of_nat_add intro: frame_mono\<close>)
    moreover have "in_header a xs x" if "x < 2 ^ 32" "m2 (of_nat x) \<noteq> m (of_nat x)" for x
    proof -
      have "p \<le> x \<and> x < p + 16" using frameD [OF f2 that(1)] that(2) by force
      then show ?thesis by (simp add: xs(1) in_header_append p_def HDR_def)
    qed
    ultimately show ?thesis
      using False by (simp add: xs(2,3) p_def [symmetric] del: of_nat_add)
        (simp add: xs(1) merge_prev_snoc_free)
  qed
qed

lemma Heap_Free_ok:
  assumes ok: "heap_ok M H bs" and lv: "(unat p, s) \<in> set (live (unat (heap_first H)) bs)"
  shows "\<exists>M' H'. Heap_Free p M H = Some (M', H')
    \<and> heap_ok M' H' (free_blks (unat p - HDR - unat (heap_first H)) bs)
    \<and> heap_first H' = heap_first H \<and> M' = M\<lparr>ram := ram M'\<rparr>
    \<and> (\<forall>x < 2 ^ 32. ram M' (of_nat x) \<noteq> ram M (of_nat x)
          \<longrightarrow> in_header (unat (heap_first H)) bs x)
    \<and> hdr_magic (ram M') (p - SIZEOF_HEADER) = HEAP_MAGIC
    \<and> hdr_used (ram M') (p - SIZEOF_HEADER) = 0"
proof -
  define a where "a = unat (heap_first H)"
  from live_decompose [OF lv] obtain xs ys where bs: "bs = xs @ (s, True) # ys"
    and p: "unat p = a + total xs + HDR" by (auto simp: a_def)
  define a0 where "a0 = a + total xs"
  define z :: u32 where "z = (if ys = [] then 0 else of_nat (a0 + HDR + s))"
  from ok bs have bd: "0 < a" "a + total (xs @ (s, True) # ys) < 2 ^ 32" "0 < a0"
    "a0 + HDR + s < 2 ^ 32"
    by (auto simp: heap_ok_def a_def a0_def)
  have "p = of_nat (unat p)" by simp
  then have pw: "p = of_nat (a0 + HDR)" unfolding p a0_def .
  then have pb: "p - SIZEOF_HEADER = of_nat a0" "p \<noteq> 0"
    using p bd(1) by (simp add: pw SIZEOF_HEADER_def HDR_def, force)
  from ok bs have h: "hdr_at (ram M) a0 s True z" and ch: "chain (ram M) a bs 0"
    by (auto simp: heap_ok_def chain_append a0_def a_def z_def simp del: of_nat_add)
  define m1 where "m1 = set_used (of_nat a0) 0 (ram M)"
  define H1 where "H1 = H\<lparr>bytes_used := bytes_used H - of_nat s,
     bytes_free := bytes_free H + of_nat s, free_count := free_count H + 1\<rparr>"
  have m1: "chain m1 a0 [(s, False)] z" "frame a0 (a0 + (HDR + s)) (ram M) m1"
    using use_block_chain [OF h, of False] bd by (auto simp: m1_def)
  have f1: "frame a0 (a0 + 16) (ram M) m1"
    unfolding m1_def using bd by (intro frame_set) (auto simp: HDR_def)
  have "chain m1 a (xs @ [(s, False)] @ ys) 0"
    by (rule chain_replace [of "ram M" a xs "[(s, True)]" ys m1])
      (use ch m1 bd in \<open>auto simp: bs a0_def z_def add.assoc simp del: of_nat_add\<close>)
  then have c1: "chain m1 a (xs @ (s, False) # ys) 0" by simp
  have s1: "hdr_size m1 (of_nat a0) = of_nat s" using m1(1) by (simp add: hdr_at_def)
  obtain m2 where n2: "coalesce_next (of_nat a0) (m1, H1) =
       (m2, H1\<lparr>bytes_free := bytes_free H1 + (if head_free ys then SIZEOF_HEADER else 0)\<rparr>)"
    and c2: "chain m2 a (xs @ merge_next s ys) 0" and f2: "frame a0 (a0 + 16) m1 m2"
    and h2: "hdr_magic m2 (of_nat a0) = hdr_magic m1 (of_nat a0)"
      "hdr_used m2 (of_nat a0) = hdr_used m1 (of_nat a0)"
    using coalesce_next_chain [OF c1, of H1] bd by (auto simp: a0_def)
  define H2 where "H2 = H1\<lparr>bytes_free := bytes_free H1 + (if head_free ys then SIZEOF_HEADER else 0)\<rparr>"
  obtain t zs where mn: "merge_next s ys = (t, False) # zs" using merge_next_Cons by blast
  have tm: "total ((t, False) # zs) = HDR + s + total ys" by (metis mn total_merge_next)
  define pv :: u32 where "pv = (if xs = [] then 0 else of_nat (a + total (butlast xs)))"
  have fp: "find_prev m2 (of_nat a0) 0 (heap_first H) = Some pv"
    using find_prev_chain [of m2 a xs "merge_next s ys" 0] c2 bd tm
    by (simp add: pv_def a0_def a_def mn del: of_nat_add)
  define H3 where "H3 = H2\<lparr>bytes_free := bytes_free H2 + (if last_free xs then SIZEOF_HEADER else 0)\<rparr>"
  have "\<exists>m'. coalesce_prev pv (of_nat (a + total xs)) (m2, H2) = (m', H3)
     \<and> chain m' a (merge_prev xs ((t, False) # zs)) 0
     \<and> (\<forall>x < 2 ^ 32. m' (of_nat x) \<noteq> m2 (of_nat x) \<longrightarrow> in_header a xs x)"
    unfolding H3_def pv_def using c2 bd tm by (intro coalesce_prev_chain) (auto simp: mn)
  then obtain m3 where n3: "coalesce_prev pv (of_nat a0) (m2, H2) = (m3, H3)"
    and c3: "chain m3 a (merge_prev xs (merge_next s ys)) 0"
    and f3: "\<forall>x < 2 ^ 32. m3 (of_nat x) \<noteq> m2 (of_nat x) \<longrightarrow> in_header a xs x"
    by (auto simp: a0_def mn)
  from ok bs have na: "no_adj_free xs" "no_adj_free ys" by (auto simp: heap_ok_def)
  have res: "free_blks (total xs) bs = merge_prev xs (merge_next s ys)"
    using na by (simp add: free_blks_def bs mark_free_append coalesce_free)
  have fst': "heap_first H3 = heap_first H" by (simp add: H3_def H2_def H1_def)
  have tot: "total (free_blks q bs) = total (mark_free q bs)"
    "used_bytes (free_blks q bs) = used_bytes (mark_free q bs)"
    "used_count (free_blks q bs) = used_count (mark_free q bs)"
    "no_adj_free (free_blks q bs)" for q
    by (simp_all add: free_blks_def)
  have mk: "mark_free (total xs) bs = xs @ (s, False) # ys"
    by (simp add: bs mark_free_append)
  have q: "unat p - HDR - a = total xs" by (simp add: p)
  have fb: "free_bytes (free_blks (total xs) bs) = free_bytes xs + s + free_bytes ys
      + (if head_free ys then HDR else 0) + (if last_free xs then HDR else 0)"
    unfolding res mn free_bytes_merge_prev using free_bytes_merge_next [of s ys] by (simp add: mn)
  have al: "aligned8 (free_blks (total xs) bs)"
    unfolding free_blks_def mk by (rule aligned8_coalesce) (use ok in \<open>simp add: heap_ok_def bs\<close>)
  have cnt: "alloc_count H - (free_count H + 1) = of_nat (used_count xs + used_count ys)"
    using ok by (simp add: heap_ok_def bs algebra_simps)
  have "heap_ok (M\<lparr>ram := m3\<rparr>) H3 (free_blks (total xs) bs)"
    using ok c3 al by (simp add: heap_ok_def fst' tot mk flip: a_def res)
      (use cnt fb in \<open>auto simp: H3_def H2_def H1_def bs SIZEOF_HEADER_def HDR_def algebra_simps\<close>)
  moreover have "Heap_Free p M H = Some (M\<lparr>ram := m3\<rparr>, H3)"
  proof -
    have "heap_ready H" using ok by (simp add: heap_ok_def)
    moreover have "hdr_magic (ram M) (of_nat a0) = HEAP_MAGIC" "hdr_used (ram M) (of_nat a0) = 1"
      using h by (simp_all add: hdr_at_def)
    moreover have "heap_first H2 = heap_first H" by (simp add: H2_def H1_def)
    ultimately show ?thesis
      using pb s1 n2 n3 fp
      by (simp add: Heap_Free_def Let_def pb(1) flip: m1_def) (simp add: H1_def H2_def)
  qed
  moreover have "in_header a bs x" if "x < 2 ^ 32" "m3 (of_nat x) \<noteq> ram M (of_nat x)" for x
  proof (rule ccontr)
    assume no: "\<not> in_header a bs x"
    then have "m3 (of_nat x) = m2 (of_nat x)"
      using f3 that(1) by (auto simp: bs in_header_append)
    moreover have "x < a0 \<or> a0 + 16 \<le> x"
      using no by (auto simp: bs in_header_append a0_def HDR_def)
    then have "m2 (of_nat x) = m1 (of_nat x)" "m1 (of_nat x) = ram M (of_nat x)"
      using frameD [OF f2 that(1)] frameD [OF f1 that(1)] by auto
    ultimately show False using that(2) by simp
  qed
  moreover have "m3 (of_nat x) = m2 (of_nat x)" if "a0 \<le> x" "x < a0 + 16" for x
  proof -
    have "x < 2 ^ 32" using that bd by (simp add: HDR_def)
    moreover have "\<not> in_header a xs x"
      using in_header_bounds [of a xs x] that(1) by (auto simp: a0_def)
    ultimately show ?thesis using f3 by blast
  qed
  then have "hdr_magic m3 (of_nat a0) = HEAP_MAGIC" "hdr_used m3 (of_nat a0) = 0"
    using hdr_cong [of a0 m3 m2] h2 h by (simp_all add: m1_def hdr_at_def)
  ultimately show ?thesis
    unfolding a_def [symmetric] q using fst' pb(1) by auto
qed

end
