(* ===== verification/Heap_Contract.thy ===== *)
theory Heap_Contract
  imports Heap
begin

text \<open>
  The kernel heap as an instance of the \<open>allocator\<close> contract, the states the kernel can drive
  it into, and the properties of \<open>System::Heap\<close>.
\<close>

section \<open>The heap as an allocator\<close>

definition heap_regions :: "mach \<Rightarrow> heap \<Rightarrow> (nat \<times> nat) set" where
  "heap_regions M H = set (live (unat (heap_first H)) (heap_blocks M H))"

lemma heap_regions_ok: "heap_ok M H bs \<Longrightarrow> heap_regions M H = set (live (unat (heap_first H)) bs)"
  by (simp add: heap_regions_def heap_ok_blocks)

lemma Heap_Round_unat: "n \<le> 0xFFFFFFF8 \<Longrightarrow> unat n \<le> unat (Heap_Round n)"
proof -
  assume "n \<le> 0xFFFFFFF8"
  then have "unat (n + 7) = unat n + 7"
    by (simp add: word_le_nat_alt unat_word_ariths)
  then have "unat (Heap_Round n) = (if n < 8 then 8 else (unat n + 7) div 8 * 8)"
    by (simp only: Heap_Round_def unat_and_not_7) simp
  moreover have "unat n \<le> 8" if "n < 8" using that by (simp add: word_less_nat_alt)
  moreover have "unat n \<le> (unat n + 7) div 8 * 8"
    using div_mult_mod_eq [of "unat n + 7" 8] mod_less_divisor [of 8 "unat n + 7"] by linarith
  ultimately show ?thesis by auto
qed

lemma Heap_Alloc_cases:
  assumes ok: "heap_ok M H bs"
  obtains (fail) M' where "Heap_Alloc n M H = Some (0, M', H)" "ram M' = ram M" "heap_ok M' H bs"
      "alloc_blks (unat (Heap_Round n)) bs = None"
  | (got) p M' H' bs' q where "Heap_Alloc n M H = Some (p, M', H')" "heap_ok M' H' bs'"
      "alloc_blks (unat (Heap_Round n)) bs = Some (bs', q)" "heap_first H' = heap_first H"
      "unat p = unat (heap_first H) + q + HDR" "p \<noteq> 0"
      "\<And>r l x. (r, l) \<in> set (live (unat (heap_first H)) bs) \<Longrightarrow> r \<le> x \<Longrightarrow> x < r + l \<Longrightarrow>
         ram M' (of_nat x) = ram M (of_nat x)"
proof (cases "split_fit (unat (Heap_Round n)) bs")
  case None
  from ok have "heap_ok (log_line xs M) H bs" for xs by (simp add: heap_ok_def)
  with Heap_Alloc_fail [OF ok None] None fail show thesis by (auto simp: alloc_blks_def)
next
  case (Some r)
  then obtain xs s ys where sp: "split_fit (unat (Heap_Round n)) bs = Some (xs, s, ys)"
    by (cases r) auto
  from Heap_Alloc_ok [OF ok sp] obtain M' H' where
    al: "Heap_Alloc n M H = Some (heap_first H + of_nat (total xs) + 16, M', H')"
    and ok': "heap_ok M' H' (xs @ carve (unat (Heap_Round n)) s @ ys)"
    and f: "heap_first H' = heap_first H"
    and fr: "frame (unat (heap_first H) + total xs) (unat (heap_first H) + total xs + (HDR + s))
        (ram M) (ram M')" by blast
  from split_fit_Some [OF sp] have bs: "bs = xs @ (s, False) # ys" by simp
  define p where "p = heap_first H + of_nat (total xs) + 16"
  have "p = of_nat (unat (heap_first H) + total xs + HDR)" by (simp add: p_def HDR_def)
  moreover have "unat (heap_first H) + total xs + HDR < 2 ^ 32"
    using ok by (auto simp: heap_ok_def bs)
  ultimately have p: "unat p = unat (heap_first H) + total xs + HDR"
    by (simp only: unat_of_nat_u32)
  then have "p \<noteq> 0" by (auto simp: HDR_def)
  have keep: "ram M' (of_nat x) = ram M (of_nat x)"
    if rl: "(r, l) \<in> set (live (unat (heap_first H)) bs)" and x: "r \<le> x" "x < r + l" for r l x
  proof -
    have "x < 2 ^ 32"
      using live_bounds [OF rl] x ok by (simp add: heap_ok_def)
    moreover from rl have "(r, l) \<in> set (live (unat (heap_first H)) xs) \<or>
        (r, l) \<in> set (live (unat (heap_first H) + total xs + HDR + s) ys)"
      by (simp add: bs add.assoc)
    then have "x < unat (heap_first H) + total xs \<or> unat (heap_first H) + total xs + (HDR + s) \<le> x"
      using x by (auto dest!: live_bounds)
    ultimately show ?thesis by (rule frameD [OF fr])
  qed
  show thesis
    by (rule got [OF _ ok' _ f p \<open>p \<noteq> 0\<close> keep]) (use al sp in \<open>auto simp: p_def alloc_blks_def\<close>)
qed

definition heap_alloc :: "u32 \<Rightarrow> mach \<times> heap \<Rightarrow> (u32 \<times> mach \<times> heap) option" where
  "heap_alloc n = (\<lambda>(M, H). Heap_Alloc n M H)"

definition heap_release :: "u32 \<Rightarrow> mach \<times> heap \<Rightarrow> (mach \<times> heap) option" where
  "heap_release p = (\<lambda>(M, H). Heap_Free p M H)"

definition heap_put :: "mem \<Rightarrow> mach \<times> heap \<Rightarrow> mach \<times> heap" where
  "heap_put m = (\<lambda>(M, H). (M\<lparr>ram := m\<rparr>, H))"

lemma heap_put_ok:
  assumes ok: "heap_ok M H bs"
    and m: "\<And>x. m x \<noteq> ram M x \<Longrightarrow> \<exists>(p, k) \<in> heap_regions M H. p \<le> unat x \<and> unat x < p + k"
  shows "heap_ok (M\<lparr>ram := m\<rparr>) H bs"
proof -
  have "chain m (unat (heap_first H)) bs 0 = chain (ram M) (unat (heap_first H)) bs 0"
  proof (rule chain_cong, rule ccontr)
    fix x assume h: "in_header (unat (heap_first H)) bs x" and ne: "m (of_nat x) \<noteq> ram M (of_nat x)"
    have "x < 2 ^ 32" using in_header_bounds [OF h] ok by (simp add: heap_ok_def)
    then have "unat (of_nat x :: u32) = x" by simp
    with m [OF ne] obtain p k where "(p, k) \<in> set (live (unat (heap_first H)) bs)" "p \<le> x" "x < p + k"
      by (auto simp: heap_regions_ok [OF ok])
    with in_header_live [OF h] show False by force
  qed
  with ok show ?thesis by (simp add: heap_ok_def)
qed

text \<open>The laws, one at a time, and the interpretation.\<close>

lemma heap_alloc_new:
  assumes ok: "heap_ok M H bs" and al: "Heap_Alloc n M H = Some (p, M', H')" "p \<noteq> 0"
  shows "\<exists>k. unat (Heap_Round n) \<le> k \<and> heap_regions M' H' = insert (unat p, k) (heap_regions M H)
    \<and> (\<forall>l. (unat p, l) \<notin> heap_regions M H)"
proof (rule Heap_Alloc_cases [OF ok, of n])
  fix M'' assume "Heap_Alloc n M H = Some (0, M'', H)"
  with al show ?thesis by simp
next
  fix p'' M'' H'' bs' q
  assume got: "Heap_Alloc n M H = Some (p'', M'', H'')" "heap_ok M'' H'' bs'"
    "alloc_blks (unat (Heap_Round n)) bs = Some (bs', q)" "heap_first H'' = heap_first H"
    "unat p'' = unat (heap_first H) + q + HDR"
  with al have e: "p'' = p" "M'' = M'" "H'' = H'" by auto
  from live_alloc [OF got(3), of "unat (heap_first H)"] got(2,4,5) show ?thesis
    by (auto simp: heap_regions_ok [OF got(2) [unfolded e]] heap_regions_ok [OF ok] e)
qed

lemma heap_alloc_inv:
  assumes ok: "heap_ok M H bs" and al: "Heap_Alloc n M H = Some (p, M', H')"
  shows "heap_inv M' H'"
  by (rule Heap_Alloc_cases [OF ok, of n]) (use al in \<open>auto simp: heap_inv_iff\<close>)

lemma heap_alloc_null:
  assumes ok: "heap_ok M H bs" and al: "Heap_Alloc n M H = Some (0, M', H')"
  shows "heap_regions M' H' = heap_regions M H \<and> ram M' = ram M \<and> H' = H"
  by (rule Heap_Alloc_cases [OF ok, of n]) (use al ok in \<open>auto simp: heap_regions_ok\<close>)

lemma heap_alloc_frame:
  assumes ok: "heap_ok M H bs" and al: "Heap_Alloc n M H = Some (p, M', H')"
    and q: "(q, l) \<in> heap_regions M H" "q \<le> x" "x < q + l"
  shows "ram M' (of_nat x) = ram M (of_nat x)"
  by (rule Heap_Alloc_cases [OF ok, of n]) (use al q in \<open>auto simp: heap_regions_ok [OF ok]\<close>)

lemma heap_release_ok:
  assumes ok: "heap_ok M H bs" and r: "(unat p, k) \<in> heap_regions M H"
  shows "\<exists>M' H'. Heap_Free p M H = Some (M', H') \<and> heap_inv M' H'
     \<and> heap_regions M' H' = heap_regions M H - {(unat p, k)}
     \<and> (\<forall>q l x. (q, l) \<in> heap_regions M H \<longrightarrow> q \<le> x \<longrightarrow> x < q + l \<longrightarrow>
          ram M' (of_nat x) = ram M (of_nat x))"
proof -
  from r have lv: "(unat p, k) \<in> set (live (unat (heap_first H)) bs)"
    by (simp add: heap_regions_ok [OF ok])
  from Heap_Free_ok [OF ok lv] obtain M' H' where f: "Heap_Free p M H = Some (M', H')"
    and ok': "heap_ok M' H' (free_blks (unat p - HDR - unat (heap_first H)) bs)"
    and first: "heap_first H' = heap_first H"
    and fr: "\<And>x. x < 2 ^ 32 \<Longrightarrow> ram M' (of_nat x) \<noteq> ram M (of_nat x) \<Longrightarrow>
      in_header (unat (heap_first H)) bs x" by blast
  have "heap_regions M' H' = heap_regions M H - {(unat p, k)}"
    using live_free [OF lv] first by (simp add: heap_regions_ok [OF ok'] heap_regions_ok [OF ok])
  moreover have "ram M' (of_nat x) = ram M (of_nat x)"
    if q: "(q, l) \<in> heap_regions M H" and x: "q \<le> x" "x < q + l" for q l x
  proof (rule ccontr)
    assume ne: "ram M' (of_nat x) \<noteq> ram M (of_nat x)"
    from q have q': "(q, l) \<in> set (live (unat (heap_first H)) bs)"
      by (simp add: heap_regions_ok [OF ok])
    have "x < 2 ^ 32" using live_bounds [OF q'] x ok by (simp add: heap_ok_def)
    from fr [OF this ne] in_header_live [OF _ q'] x show False by force
  qed
  ultimately show ?thesis using f ok' by (auto simp: heap_inv_iff)
qed

lemma heap_regions_bound:
  assumes "heap_ok M H bs" "(p, k) \<in> heap_regions M H"
  shows "unat (heap_first H) + HDR \<le> p" "p + k \<le> unat (heap_first H) + 2 ^ 22" "0 < p" "p + k < 2 ^ 32"
  using assms live_bounds [of p k "unat (heap_first H)" bs]
  by (auto simp: heap_regions_ok heap_ok_def HDR_def)

lemma heap_regions_disjoint:
  assumes "heap_ok M H bs" "(p, k) \<in> heap_regions M H" "(q, l) \<in> heap_regions M H"
  shows "p = q \<and> k = l \<or> p + k < q \<or> q + l < p"
  using assms live_disjoint [of p k "unat (heap_first H)" bs q l]
  by (auto simp: heap_regions_ok HDR_def)

interpretation kheap: allocator "\<lambda>(M, H). heap_inv M H" "\<lambda>(M, H). heap_regions M H"
  "\<lambda>(M, H). ram M" heap_put heap_alloc heap_release
proof (unfold_locales, goal_cases)
  case (1 s n)
  then obtain M H bs where s: "s = (M, H)" "heap_ok M H bs" by (cases s) (auto simp: heap_inv_iff)
  then show ?case by (auto simp: heap_alloc_def intro: Heap_Alloc_cases [OF s(2), of n])
next
  case (2 s n p s')
  then show ?case
    by (cases s; cases s') (auto simp: heap_inv_iff heap_alloc_def dest!: heap_alloc_inv)
next
  case (3 s n s')
  then show ?case
    by (cases s; cases s') (auto simp: heap_inv_iff heap_alloc_def dest: heap_alloc_null)
next
  case (4 s n p s')
  then obtain M H bs M' H' where s: "s = (M, H)" "s' = (M', H')" "heap_ok M H bs"
    "Heap_Alloc n M H = Some (p, M', H')"
    by (cases s; cases s') (auto simp: heap_inv_iff heap_alloc_def)
  from heap_alloc_new [OF s(3,4) 4(3)] Heap_Round_unat [OF 4(4)] show ?case
    unfolding s(1,2) prod.case by (meson order_trans)
next
  case (5 s n p s' q l x)
  then show ?case
    by (cases s; cases s') (auto simp: heap_inv_iff heap_alloc_def dest: heap_alloc_frame)
next
  case (6 s p k)
  then show ?case
    by (cases s) (auto simp: heap_inv_iff heap_release_def dest: heap_release_ok)
next
  case (7 s p k s' q l x)
  then obtain M H bs M' H' where s: "s = (M, H)" "s' = (M', H')" "heap_ok M H bs"
    "Heap_Free p M H = Some (M', H')" "(unat p, k) \<in> heap_regions M H"
    by (cases s; cases s') (auto simp: heap_inv_iff heap_release_def)
  from heap_release_ok [OF s(3,5)] s(4) 7 show ?case by (auto simp: s(1,2))
next
  case (8 s p k)
  then show ?case by (cases s) (auto simp: heap_inv_iff dest: heap_regions_bound)
next
  case (9 s p k q l)
  then show ?case by (cases s) (auto simp: heap_inv_iff dest: heap_regions_disjoint)
next
  case (10 s m)
  then obtain M H bs where s: "s = (M, H)" "heap_ok M H bs" by (cases s) (auto simp: heap_inv_iff)
  from 10(2) s have "heap_ok (M\<lparr>ram := m\<rparr>) H bs" by (intro heap_put_ok) auto
  with s show ?case by (auto simp: heap_put_def heap_inv_iff heap_regions_ok)
qed

lemma Heap_Free_rejected:
  assumes "p = 0 \<or> hdr_magic (ram M) (p - SIZEOF_HEADER) \<noteq> HEAP_MAGIC
     \<or> hdr_used (ram M) (p - SIZEOF_HEADER) = 0"
  shows "\<exists>M'. Heap_Free p M H = Some (M', H) \<and> M' = M\<lparr>klog := klog M'\<rparr>"
  using assms by (auto simp: Heap_Free_def Let_def log_line_def)

section \<open>Reachable heap states\<close>

text \<open>
  After \<open>Start\<close>: any allocation, the release of a handed-out block, a release the code
  rejects, and any write of a client into a payload it owns.
\<close>

inductive heap_reach :: "u32 \<Rightarrow> u32 \<Rightarrow> mach \<Rightarrow> heap \<Rightarrow> bool" for kend hint where
  start: "Heap_Start kend hint M = (M', H') \<Longrightarrow> heap_reach kend hint M' H'"
| alloc: "heap_reach kend hint M H \<Longrightarrow> Heap_Alloc n M H = Some (p, M', H') \<Longrightarrow>
    heap_reach kend hint M' H'"
| free: "heap_reach kend hint M H \<Longrightarrow> (unat p, k) \<in> heap_regions M H \<Longrightarrow>
    Heap_Free p M H = Some (M', H') \<Longrightarrow> heap_reach kend hint M' H'"
| free_rejected: "heap_reach kend hint M H \<Longrightarrow>
    p = 0 \<or> hdr_magic (ram M) (p - SIZEOF_HEADER) \<noteq> HEAP_MAGIC
      \<or> hdr_used (ram M) (p - SIZEOF_HEADER) = 0 \<Longrightarrow>
    Heap_Free p M H = Some (M', H') \<Longrightarrow> heap_reach kend hint M' H'"
| client_write: "heap_reach kend hint M H \<Longrightarrow> (p', k) \<in> heap_regions M H \<Longrightarrow>
    p' \<le> unat x \<Longrightarrow> unat x < p' + k \<Longrightarrow> heap_reach kend hint (M\<lparr>ram := (ram M)(x := v)\<rparr>) H"

lemma heap_reach_ok:
  assumes "0 < max kend hint" "unat (max kend hint) + 4095 + 2 ^ 22 < 2 ^ 32"
  shows "heap_reach kend hint M H \<Longrightarrow> heap_inv M H"
proof (induction rule: heap_reach.induct)
  case (start M M' H')
  from Heap_Start_ok(1) [OF assms start] show ?case by (auto simp: heap_inv_iff)
next
  case (alloc M H n p M' H')
  then show ?case by (auto simp: heap_inv_iff dest!: heap_alloc_inv)
next
  case (free M H p k M' H')
  then obtain bs where "heap_ok M H bs" by (auto simp: heap_inv_iff)
  from heap_release_ok [OF this free(2)] free(3) show ?case by auto
next
  case (free_rejected M H p M' H')
  then obtain bs where ok: "heap_ok M H bs" by (auto simp: heap_inv_iff)
  from Heap_Free_rejected [OF free_rejected(2), where H = H] free_rejected(3)
  have "H' = H" "M' = M\<lparr>klog := klog M'\<rparr>" by auto
  then have "H' = H" "ram M' = ram M" by (auto elim: ssubst)
  with ok show ?case by (auto simp: heap_inv_iff heap_ok_def)
next
  case (client_write M H p' k x v)
  then obtain bs where ok: "heap_ok M H bs" by (auto simp: heap_inv_iff)
  have "heap_ok (M\<lparr>ram := (ram M)(x := v)\<rparr>) H bs"
    by (rule heap_put_ok [OF ok]) (use client_write in \<open>auto split: if_splits\<close>)
  then show ?case by (auto simp: heap_inv_iff)
qed

text \<open>A booted heap, for the closed instances: kernel end at 1 MiB, no module.\<close>

definition boot_heap :: "mach \<times> heap" where
  "boot_heap = Heap_Start 0x100000 0 blank"

lemma boot_heap_ok: "heap_ok (fst boot_heap) (snd boot_heap) [(2 ^ 22 - 16, False)]"
  using Heap_Start_ok(1) [where kend = "0x100000" and hint = 0 and M = blank
      and M' = "fst boot_heap" and H' = "snd boot_heap"]
  by (simp add: boot_heap_def max_def)

lemma boot_heap_inv: "heap_inv (fst boot_heap) (snd boot_heap)"
  using boot_heap_ok heap_inv_iff by blast

lemma boot_alloc:
  "\<exists>p M1 H1. Heap_Alloc 100 (fst boot_heap) (snd boot_heap) = Some (p, M1, H1) \<and> p \<noteq> 0
     \<and> heap_ok M1 H1 [(104, True), (2 ^ 22 - 136, False)] \<and> unat p = unat (heap_first H1) + HDR"
proof -
  have r: "Heap_Round 100 = 104" by (simp add: Heap_Round_def)
  show ?thesis
    by (rule Heap_Alloc_cases [OF boot_heap_ok, of 100])
      (auto simp: r alloc_blks_def carve_def HDR_def)
qed

section \<open>Properties\<close>

text \<open>Start turns any memory into a well-formed heap of one free block, page aligned,
  not below the kernel end nor below the hint, and nothing outside the new header is written.\<close>

theorem heap_start_inv:
  assumes "0 < max kend hint" "unat (max kend hint) + 4095 + 2 ^ 22 < 2 ^ 32"
    and "Heap_Start kend hint M = (M', H')"
  shows "heap_inv M' H' \<and> heap_blocks M' H' = [(2 ^ 22 - 16, False)]
    \<and> 4096 dvd unat (heap_first H') \<and> max kend hint \<le> heap_first H'
    \<and> frame (unat (heap_first H')) (unat (heap_first H') + 16) (ram M) (ram M')"
  using Heap_Start_ok [OF assms] by (simp add: heap_okI)

theorem heap_start_inv_witness:
  "heap_inv (fst boot_heap) (snd boot_heap) \<and> heap_first (snd boot_heap) = 0x100000"
proof -
  have "heap_inv (fst boot_heap) (snd boot_heap)"
    using heap_start_inv [where kend = "0x100000" and hint = 0 and M = blank
        and M' = "fst boot_heap" and H' = "snd boot_heap"] by (simp add: boot_heap_def max_def)
  moreover have "heap_first (snd boot_heap) = 0x100000"
    by (simp add: boot_heap_def Heap_Start_def Let_def)
  ultimately show ?thesis by simp
qed

text \<open>C1: Alloc always returns, and implements first fit with splitting on the block list: it
  returns null exactly when no free block is large enough, and otherwise the payload of the
  first one that is, with the list and every counter updated to match.\<close>

theorem heap_alloc_refines:
  assumes "heap_inv M H"
  shows "case alloc_blks (unat (Heap_Round n)) (heap_blocks M H) of
      None \<Rightarrow> \<exists>M'. Heap_Alloc n M H = Some (0, M', H) \<and> ram M' = ram M
    | Some (bs, q) \<Rightarrow> \<exists>p M' H'. Heap_Alloc n M H = Some (p, M', H')
        \<and> unat p = unat (heap_first H) + q + HDR
        \<and> heap_inv M' H' \<and> heap_blocks M' H' = bs"
proof -
  from assms obtain bs where ok: "heap_ok M H bs" by (auto simp: heap_inv_iff)
  show ?thesis
    by (rule Heap_Alloc_cases [OF ok, of n]) (auto simp: heap_ok_blocks [OF ok] heap_okI)
qed

theorem heap_alloc_refines_witness:
  "\<exists>p M' H'. Heap_Alloc 100 (fst boot_heap) (snd boot_heap) = Some (p, M', H')
     \<and> unat p = 0x100010 \<and> heap_blocks M' H' = [(104, True), (2 ^ 22 - 136, False)]"
proof -
  have "heap_first (snd boot_heap) = 0x100000"
    by (simp add: boot_heap_def Heap_Start_def Let_def)
  moreover have "Heap_Round 100 = 104" by (simp add: Heap_Round_def)
  ultimately show ?thesis
    using heap_alloc_refines [OF boot_heap_inv, of 100]
    by (auto simp: heap_ok_blocks [OF boot_heap_ok] alloc_blks_def carve_def HDR_def)
qed

text \<open>C2: releasing a handed-out block always returns, and implements: mark it free, then merge
  every run of free neighbours. The two local merges of the code are all that is needed.\<close>

theorem heap_free_refines:
  assumes "heap_inv M H" "(unat p, k) \<in> heap_regions M H"
  shows "\<exists>M' H'. Heap_Free p M H = Some (M', H') \<and> heap_inv M' H'
    \<and> heap_blocks M' H' = free_blks (unat p - HDR - unat (heap_first H)) (heap_blocks M H)"
proof -
  from assms obtain bs where ok: "heap_ok M H bs" by (auto simp: heap_inv_iff)
  with assms(2) have "(unat p, k) \<in> set (live (unat (heap_first H)) bs)"
    by (simp add: heap_regions_ok)
  from Heap_Free_ok [OF ok this] show ?thesis
    by (auto simp: heap_ok_blocks [OF ok] heap_okI)
qed

theorem heap_free_refines_witness:
  "\<exists>p M H M' H'. heap_inv M H \<and> (unat p, 104) \<in> heap_regions M H \<and> Heap_Free p M H = Some (M', H')
     \<and> heap_blocks M H = [(104, True), (2 ^ 22 - 136, False)]
     \<and> heap_blocks M' H' = [(2 ^ 22 - 16, False)]"
proof -
  from boot_alloc obtain p M H where al: "heap_ok M H [(104, True), (2 ^ 22 - 136, False)]"
    "unat (p :: u32) = unat (heap_first H) + HDR" by blast
  then have inv: "heap_inv M H" and reg: "(unat p, 104) \<in> heap_regions M H"
    by (auto simp: heap_okI heap_regions_ok)
  from heap_free_refines [OF inv reg] al inv reg show ?thesis
    by (fastforce simp: heap_ok_blocks [OF al(1)] free_blks_def HDR_def)
qed

text \<open>An allocation followed by the release of its result restores the block list and the
  byte counters exactly: no fragmentation is left behind.\<close>

theorem heap_alloc_free_roundtrip:
  assumes "heap_inv M H" "Heap_Alloc n M H = Some (p, M1, H1)" "p \<noteq> 0"
  shows "\<exists>M2 H2. Heap_Free p M1 H1 = Some (M2, H2) \<and> heap_blocks M2 H2 = heap_blocks M H
    \<and> bytes_used H2 = bytes_used H \<and> bytes_free H2 = bytes_free H"
proof -
  from assms obtain bs where ok: "heap_ok M H bs" by (auto simp: heap_inv_iff)
  obtain bs' q where ok1: "heap_ok M1 H1 bs'" and al: "alloc_blks (unat (Heap_Round n)) bs = Some (bs', q)"
    and f: "heap_first H1 = heap_first H" "unat p = unat (heap_first H) + q + HDR"
    by (rule Heap_Alloc_cases [OF ok, of n]) (use assms in auto)
  from live_alloc [OF al, of "unat (heap_first H1)"]
  obtain k where "(unat p, k) \<in> set (live (unat (heap_first H1)) bs')" by (auto simp: f)
  from Heap_Free_ok [OF ok1 this] obtain M2 H2 where fr: "Heap_Free p M1 H1 = Some (M2, H2)"
    and ok2: "heap_ok M2 H2 (free_blks q bs')" by (auto simp: f)
  from free_alloc_blks [OF _ al] ok have "free_blks q bs' = bs" by (simp add: heap_ok_def)
  with fr ok ok2 show ?thesis
    by (auto simp: heap_ok_blocks [OF ok] heap_ok_blocks [OF ok2]) (auto simp: heap_ok_def)
qed

theorem heap_alloc_free_roundtrip_witness:
  "\<exists>p M1 H1 M2 H2. Heap_Alloc 100 (fst boot_heap) (snd boot_heap) = Some (p, M1, H1)
     \<and> Heap_Free p M1 H1 = Some (M2, H2) \<and> heap_blocks M2 H2 = [(2 ^ 22 - 16, False)]"
proof -
  obtain p M1 H1 where al: "Heap_Alloc 100 (fst boot_heap) (snd boot_heap) = Some (p, M1, H1)" "p \<noteq> 0"
    using boot_alloc by blast
  with heap_alloc_free_roundtrip [OF boot_heap_inv al] show ?thesis
    by (auto simp: heap_ok_blocks [OF boot_heap_ok])
qed

text \<open>C11: two successful allocations return disjoint regions of at least the requested sizes
  (here 7 bytes below the end of the address space are the only excluded requests).\<close>

theorem heap_allocs_disjoint:
  assumes "heap_inv M H" "Heap_Alloc n M H = Some (p, M1, H1)" "p \<noteq> 0"
    and "Heap_Alloc n' M1 H1 = Some (p', M2, H2)" "p' \<noteq> 0" "n \<le> 0xFFFFFFF8" "n' \<le> 0xFFFFFFF8"
  shows "unat p + unat n < unat p' \<or> unat p' + unat n' < unat p"
  using assms kheap.alloc_twice_disjoint [of "(M, H)" n p "(M1, H1)" n' p' "(M2, H2)"]
  by (simp add: heap_alloc_def)

theorem heap_allocs_disjoint_witness:
  "\<exists>p p' M1 H1 M2 H2. Heap_Alloc 100 (fst boot_heap) (snd boot_heap) = Some (p, M1, H1)
     \<and> Heap_Alloc 4096 M1 H1 = Some (p', M2, H2)
     \<and> (unat p + 100 < unat p' \<or> unat p' + 4096 < unat p)"
proof -
  have r: "Heap_Round 4096 = 4096" by (simp add: Heap_Round_def)
  obtain p M1 H1 where al: "Heap_Alloc 100 (fst boot_heap) (snd boot_heap) = Some (p, M1, H1)" "p \<noteq> 0"
    "heap_ok M1 H1 [(104, True), (2 ^ 22 - 136, False)]" using boot_alloc by blast
  obtain p' M2 H2 where al': "Heap_Alloc 4096 M1 H1 = Some (p', M2, H2)" "p' \<noteq> 0"
    by (rule Heap_Alloc_cases [OF al(3), of 4096]) (auto simp: r alloc_blks_def)
  have "(100::u32) \<le> 0xFFFFFFF8" "(4096::u32) \<le> 0xFFFFFFF8" by simp_all
  from heap_allocs_disjoint [OF boot_heap_inv al(1,2) al' this] al al' show ?thesis by auto
qed

text \<open>C3: in every state the kernel can drive the heap into, the block list is well formed, no two
  neighbouring blocks are both free, and the two byte counters with the headers account for
  all 4 MiB.\<close>

theorem heap_reach_accounting:
  assumes "0 < max kend hint" "unat (max kend hint) + 4095 + 2 ^ 22 < 2 ^ 32"
    and "heap_reach kend hint M H"
  shows "heap_inv M H \<and> no_adj_free (heap_blocks M H)
    \<and> unat (bytes_used H) + unat (bytes_free H) + HDR * length (heap_blocks M H) = 2 ^ 22"
proof -
  from heap_reach_ok [OF assms] obtain bs where ok: "heap_ok M H bs" by (auto simp: heap_inv_iff)
  have t: "used_bytes bs + free_bytes bs + HDR * length bs = 2 ^ 22"
    using used_free_total [of bs] ok by (simp add: heap_ok_def)
  then have "used_bytes bs < 2 ^ 32" "free_bytes bs < 2 ^ 32" by simp_all
  then have "unat (bytes_used H) = used_bytes bs" "unat (bytes_free H) = free_bytes bs"
    using ok by (simp_all add: heap_ok_def)
  with t ok show ?thesis by (auto simp: heap_ok_blocks [OF ok] heap_okI heap_ok_def)
qed

theorem heap_reach_accounting_witness:
  "\<exists>(p :: u32) M H. heap_reach 0x100000 0 M H \<and> (unat p, 104) \<in> heap_regions M H
     \<and> unat (bytes_used H) + unat (bytes_free H) + HDR * length (heap_blocks M H) = 2 ^ 22"
proof -
  obtain p M1 H1 where al: "Heap_Alloc 100 (fst boot_heap) (snd boot_heap) = Some (p, M1, H1)"
    "heap_ok M1 H1 [(104, True), (2 ^ 22 - 136, False)]" "unat p = unat (heap_first H1) + HDR"
    using boot_alloc by blast
  have "heap_reach 0x100000 0 (fst boot_heap) (snd boot_heap)"
    by (rule heap_reach.start [where M = blank]) (simp add: boot_heap_def)
  then have "heap_reach 0x100000 0 M1 H1" using al(1) by (rule heap_reach.alloc)
  moreover have "0 < max 0x100000 (0::u32)" "unat (max 0x100000 (0::u32)) + 4095 + 2 ^ 22 < 2 ^ 32"
    by (simp_all add: max_def)
  moreover have "(unat p, 104) \<in> heap_regions M1 H1"
    using al(2,3) by (simp add: heap_regions_ok)
  ultimately show ?thesis using heap_reach_accounting [of "0x100000" 0 M1 H1] by blast
qed

text \<open>The two rejections of Free. A second release of the same block is detected, also after
  the block was merged into its neighbours, and changes nothing but the log.\<close>

theorem heap_double_free_detected:
  assumes "heap_inv M H" "(unat p, k) \<in> heap_regions M H" "Heap_Free p M H = Some (M1, H1)"
  shows "Heap_Free p M1 H1 = Some (log_line [LStr ''> [HEAP] double free at '', LInt p] M1, H1)"
proof -
  from assms obtain bs where ok: "heap_ok M H bs" by (auto simp: heap_inv_iff)
  with assms(2) have "(unat p, k) \<in> set (live (unat (heap_first H)) bs)"
    by (simp add: heap_regions_ok)
  from Heap_Free_ok [OF ok this] assms(3)
  have "heap_ready H1" "hdr_magic (ram M1) (p - SIZEOF_HEADER) = HEAP_MAGIC"
    "hdr_used (ram M1) (p - SIZEOF_HEADER) = 0" by (auto simp: heap_ok_def)
  moreover have "p \<noteq> 0"
    using heap_regions_bound(3) [OF ok assms(2)] by auto
  ultimately show ?thesis by (simp add: Heap_Free_def Let_def)
qed

theorem heap_double_free_detected_witness:
  "\<exists>p M H M1 H1. heap_inv M H \<and> Heap_Free p M H = Some (M1, H1)
     \<and> Heap_Free p M1 H1 = Some (log_line [LStr ''> [HEAP] double free at '', LInt p] M1, H1)"
proof -
  from boot_alloc obtain p M H where al: "heap_ok M H [(104, True), (2 ^ 22 - 136, False)]"
    "unat (p :: u32) = unat (heap_first H) + HDR" by blast
  then have inv: "heap_inv M H" and reg: "(unat p, 104) \<in> heap_regions M H"
    by (auto simp: heap_okI heap_regions_ok)
  from heap_release_ok [OF al(1) reg] obtain M1 H1 where "Heap_Free p M H = Some (M1, H1)" by blast
  with heap_double_free_detected [OF inv reg] inv show ?thesis by blast
qed

text \<open>C40: the seven largest requests wrap in Round: Alloc then hands out a block of at most 32
  bytes for a request of almost 4 GiB, as long as any block is free, instead of failing.\<close>

theorem heap_alloc_wraps:
  assumes "heap_inv M H" "0xFFFFFFF8 < n" "(s, False) \<in> set (heap_blocks M H)"
  shows "\<exists>p M' H' k. Heap_Alloc n M H = Some (p, M', H') \<and> p \<noteq> 0
    \<and> (unat p, k) \<in> heap_regions M' H' \<and> k \<le> 32"
proof -
  from assms obtain bs where ok: "heap_ok M H bs" by (auto simp: heap_inv_iff)
  have "unat n < 2 ^ 32" "0xFFFFFFF8 < unat n"
    using assms(2) unsigned_less [of n] by (simp_all add: word_less_nat_alt)
  then have "unat (n + 7) = unat n + 7 - 2 ^ 32" "\<not> n < 8"
    by (simp_all add: unat_word_ariths word_less_nat_alt le_mod_geq)
  with \<open>unat n < 2 ^ 32\<close> have "unat (n + 7) < 8" "\<not> n < 8" by auto
  then have "unat (Heap_Round n) = 0"
    by (simp only: Heap_Round_def unat_and_not_7) simp
  moreover from assms(3) have "split_fit 0 bs \<noteq> None"
    by (auto simp: split_fit_None heap_ok_blocks [OF ok])
  then obtain xs t ys where sp: "split_fit 0 bs = Some (xs, t, ys)" by (cases "split_fit 0 bs") auto
  ultimately obtain p M' H' where al: "Heap_Alloc n M H = Some (p, M', H')" "p \<noteq> 0"
    "heap_ok M' H' (xs @ carve 0 t @ ys)" "heap_first H' = heap_first H"
    "unat p = unat (heap_first H) + total xs + HDR"
    by (rule_tac Heap_Alloc_cases [OF ok, of n]) (auto simp: alloc_blks_def)
  obtain k u cs where "carve 0 t = (k, True) # cs" "k \<le> 32"
    by (cases "t > HDR + 16") (auto simp: carve_def HDR_def)
  with al show ?thesis
    by (intro exI [of _ p] exI [of _ M'] exI [of _ H'] exI [of _ k])
      (simp add: heap_regions_ok [OF al(3)])
qed

theorem heap_alloc_wraps_witness:
  "\<exists>p M' H' k. Heap_Alloc 0xFFFFFFFF (fst boot_heap) (snd boot_heap) = Some (p, M', H') \<and> p \<noteq> 0
    \<and> (unat p, k) \<in> heap_regions M' H' \<and> k \<le> 32"
  by (rule heap_alloc_wraps [OF boot_heap_inv, of "0xFFFFFFFF" "2 ^ 22 - 16"])
    (simp_all add: heap_ok_blocks [OF boot_heap_ok])

end
