(* ===== verification/Boot_Info.thy ===== *)
theory Boot_Info
  imports Prelude
begin

text \<open>
  The multiboot2 information block (src/src/src/libs/multiboot2.h) and the tag walk that the
  kernel repeats in four places (\<open>PMM::Start\<close>, \<open>Initrd::Start\<close>, \<open>Multiboot::Start\<close>,
  \<open>shiro_main\<close>): start 8 bytes in, look at the type, act, advance by the size rounded up to 8,
  stop at the END tag.  The walk is a \<open>partial_function\<close> over the action of one tag; \<open>None\<close>
  says that it does not return, which is the case for a chain that cycles and for an
  action that faults.  The theory shows when it returns, and what it then computes.
\<close>

section \<open>Layout\<close>

definition MULTIBOOT2_BOOTLOADER_MAGIC :: u32 where "MULTIBOOT2_BOOTLOADER_MAGIC = 0x36d76289"

definition MB2_TAG_END :: u32 where "MB2_TAG_END = 0"
definition MB2_TAG_CMDLINE :: u32 where "MB2_TAG_CMDLINE = 1"
definition MB2_TAG_MODULE :: u32 where "MB2_TAG_MODULE = 3"
definition MB2_TAG_BASIC_MEMINFO :: u32 where "MB2_TAG_BASIC_MEMINFO = 4"
definition MB2_TAG_MMAP :: u32 where "MB2_TAG_MMAP = 6"
definition MB2_TAG_FRAMEBUFFER :: u32 where "MB2_TAG_FRAMEBUFFER = 8"
definition MB2_MEMORY_AVAILABLE :: u32 where "MB2_MEMORY_AVAILABLE = 1"

lemmas tag_codes = MB2_TAG_END_def MB2_TAG_CMDLINE_def MB2_TAG_MODULE_def
  MB2_TAG_BASIC_MEMINFO_def MB2_TAG_MMAP_def MB2_TAG_FRAMEBUFFER_def MB2_MEMORY_AVAILABLE_def

declare tag_codes [defs] MULTIBOOT2_BOOTLOADER_MAGIC_def [defs]

definition tag_type :: "mem \<Rightarrow> u32 \<Rightarrow> u32" where "tag_type m a = load32 m a"
definition tag_size :: "mem \<Rightarrow> u32 \<Rightarrow> u32" where "tag_size m a = load32 m (a + 4)"

definition mod_start :: "mem \<Rightarrow> u32 \<Rightarrow> u32" where "mod_start m a = load32 m (a + 8)"
definition mod_end :: "mem \<Rightarrow> u32 \<Rightarrow> u32" where "mod_end m a = load32 m (a + 12)"

definition mmap_entry_size :: "mem \<Rightarrow> u32 \<Rightarrow> u32" where "mmap_entry_size m a = load32 m (a + 8)"
definition mmap_count_of :: "mem \<Rightarrow> u32 \<Rightarrow> u32" where
  "mmap_count_of m a = (tag_size m a - 16) div mmap_entry_size m a"

definition entry_base :: "mem \<Rightarrow> u32 \<Rightarrow> u64" where "entry_base m e = load64 m e"
definition entry_length :: "mem \<Rightarrow> u32 \<Rightarrow> u64" where "entry_length m e = load64 m (e + 8)"
definition entry_type :: "mem \<Rightarrow> u32 \<Rightarrow> u32" where "entry_type m e = load32 m (e + 16)"

declare tag_type_def [defs] tag_size_def [defs] mod_start_def [defs] mod_end_def [defs]
  mmap_entry_size_def [defs] mmap_count_of_def [defs] entry_base_def [defs]
  entry_length_def [defs] entry_type_def [defs]

section \<open>The walk\<close>

definition next_tag :: "mem \<Rightarrow> u32 \<Rightarrow> u32" where
  "next_tag m cursor = cursor + ((tag_size m cursor + 7) AND NOT 7)"

text \<open>The action of a tag gives the new state, and whether it leaves the walk.\<close>

partial_function (option) mb2_walk ::
    "mem \<Rightarrow> (u32 \<Rightarrow> 's \<Rightarrow> ('s \<times> bool) option) \<Rightarrow> u32 \<Rightarrow> 's \<Rightarrow> ('s \<times> bool) option" where
  "mb2_walk m body cursor s =
     (if tag_type m cursor = MB2_TAG_END then Some (s, False)
      else case body cursor s of
          None \<Rightarrow> None
        | Some (s', stop) \<Rightarrow>
            (if stop then Some (s', True) else mb2_walk m body (next_tag m cursor) s'))"

text \<open>\<open>tag_chain m a ts\<close>: the tags before the END tag of the chain from \<open>a\<close> are those at \<open>ts\<close>.\<close>

fun tag_chain :: "mem \<Rightarrow> u32 \<Rightarrow> u32 list \<Rightarrow> bool" where
  "tag_chain m a [] \<longleftrightarrow> tag_type m a = MB2_TAG_END"
| "tag_chain m a (t # ts) \<longleftrightarrow>
     t = a \<and> tag_type m a \<noteq> MB2_TAG_END \<and> tag_chain m (next_tag m a) ts"

fun run_tags :: "(u32 \<Rightarrow> 's \<Rightarrow> ('s \<times> bool) option) \<Rightarrow> u32 list \<Rightarrow> 's \<Rightarrow> ('s \<times> bool) option" where
  "run_tags body [] s = Some (s, False)"
| "run_tags body (t # ts) s =
     (case body t s of None \<Rightarrow> None
      | Some (s', stop) \<Rightarrow> if stop then Some (s', True) else run_tags body ts s')"

lemma mb2_walk_chain:
  "tag_chain m a ts \<Longrightarrow> mb2_walk m body a s = run_tags body ts s"
proof (induction ts arbitrary: a s)
  case Nil
  then show ?case by (simp add: mb2_walk.simps)
next
  case (Cons t ts)
  then show ?case
    by (subst mb2_walk.simps) (auto split: option.splits prod.splits)
qed

lemma run_tags_total:
  assumes "\<And>t s. t \<in> set ts \<Longrightarrow> body t s = Some (f t s, False)"
  shows "run_tags body ts s = Some (fold f ts s, False)"
  using assms by (induction ts arbitrary: s) auto

lemma tag_chain_unique:
  "tag_chain m a ts \<Longrightarrow> tag_chain m a us \<Longrightarrow> ts = us"
proof (induction ts arbitrary: a us)
  case Nil
  then show ?case by (cases us) auto
next
  case (Cons t ts)
  then show ?case by (cases us) auto
qed

lemma mb2_walk_run:
  "mb2_walk m body a s = Some r \<Longrightarrow>
     \<exists>ts. run_tags body ts s = Some r \<and> (\<not> snd r \<longrightarrow> tag_chain m a ts)"
proof (erule mb2_walk.raw_induct [where
      P = "\<lambda>m body a s r. \<exists>ts. run_tags body ts s = Some r \<and> (\<not> snd r \<longrightarrow> tag_chain m a ts)", rotated])
  fix walk m body a s r
  assume IH: "\<And>m body a s r. walk m body a s = Some r \<Longrightarrow>
      \<exists>ts. run_tags body ts s = Some r \<and> (\<not> snd r \<longrightarrow> tag_chain m a ts)"
    and step: "(if tag_type m a = MB2_TAG_END then Some (s, False)
      else case body a s of None \<Rightarrow> None
        | Some (s', stop) \<Rightarrow>
            (if stop then Some (s', True) else walk m body (next_tag m a) s')) = Some r"
  show "\<exists>ts. run_tags body ts s = Some r \<and> (\<not> snd r \<longrightarrow> tag_chain m a ts)"
  proof (cases "tag_type m a = MB2_TAG_END")
    case True
    with step show ?thesis by (intro exI [of _ "[]"]) auto
  next
    case False
    with step obtain s' stop where b: "body a s = Some (s', stop)"
      by (auto split: option.splits)
    show ?thesis
    proof (cases stop)
      case True
      with False b step show ?thesis by (intro exI [of _ "[a]"]) auto
    next
      case F: False
      with False b step have "walk m body (next_tag m a) s' = Some r" by simp
      from IH [OF this] obtain ts where "run_tags body ts s' = Some r"
        "\<not> snd r \<longrightarrow> tag_chain m (next_tag m a) ts" by blast
      with False F b show ?thesis by (intro exI [of _ "a # ts"]) simp
    qed
  qed
qed

lemma run_tags_invariant:
  assumes "run_tags body ts s = Some r" "I s"
    and "\<And>t s s' b. body t s = Some (s', b) \<Longrightarrow> I s \<Longrightarrow> I s'"
  shows "I (fst r)"
  using assms(1,2)
proof (induction ts arbitrary: s)
  case (Cons t ts)
  then show ?case using assms(3) [of t s] by (auto split: option.splits if_splits)
qed auto

lemma mb2_walk_invariant:
  assumes "mb2_walk m body a s = Some r" "I s"
    and "\<And>t s s' b. body t s = Some (s', b) \<Longrightarrow> I s \<Longrightarrow> I s'"
  shows "I (fst r)"
proof -
  from mb2_walk_run [OF assms(1)] obtain ts where "run_tags body ts s = Some r" by blast
  then show ?thesis by (rule run_tags_invariant [where I = I]) (fact assms(2), fact assms(3))
qed

text \<open>When no action leaves the walk early, it returns exactly on a chain whose actions all do.\<close>

lemma run_tags_no_stop:
  assumes "\<And>t s s' b. body t s = Some (s', b) \<Longrightarrow> \<not> b"
  shows "run_tags body ts s = Some r \<Longrightarrow> \<not> snd r"
proof (induction ts arbitrary: s)
  case (Cons t ts)
  then obtain s' b where b: "body t s = Some (s', b)" by (auto split: option.splits)
  from assms [OF this] b Cons show ?case by auto
qed auto

lemma run_tags_None:
  assumes "\<And>t s. (body t s = None) = bad t" "\<And>t s s' b. body t s = Some (s', b) \<Longrightarrow> \<not> b"
  shows "run_tags body ts s = None \<longleftrightarrow> (\<exists>t \<in> set ts. bad t)"
proof (induction ts arbitrary: s)
  case (Cons t ts)
  show ?case
  proof (cases "body t s")
    case None
    with assms(1) [of t s] show ?thesis by simp
  next
    case (Some r)
    with assms(1) [of t s] assms(2) [of t s "fst r" "snd r"] Cons show ?thesis by (cases r) simp
  qed
qed simp

lemma mb2_walk_returns_iff:
  assumes bad: "\<And>t s. (body t s = None) = bad t" and stop: "\<And>t s s' b. body t s = Some (s', b) \<Longrightarrow> \<not> b"
  shows "mb2_walk m body a s \<noteq> None \<longleftrightarrow> (\<exists>ts. tag_chain m a ts \<and> (\<forall>t \<in> set ts. \<not> bad t))"
proof -
  have eq: "run_tags body ts s = None \<longleftrightarrow> (\<exists>t \<in> set ts. bad t)" for ts s
    by (rule run_tags_None) (fact bad, fact stop)
  show ?thesis
  proof
    assume "mb2_walk m body a s \<noteq> None"
    then obtain r0 where "mb2_walk m body a s = Some r0" by (auto simp: not_None_eq)
    from mb2_walk_run [OF this] obtain r ts where
      r: "run_tags body ts s = Some r" "\<not> snd r \<longrightarrow> tag_chain m a ts" by blast
    have "\<not> snd r" by (rule run_tags_no_stop [OF _ r(1)]) (fact stop)
    with r(2) have "tag_chain m a ts" by blast
    moreover have "\<forall>t \<in> set ts. \<not> bad t"
      using r(1) eq [of ts s] by (metis option.distinct(1))
    ultimately show "\<exists>ts. tag_chain m a ts \<and> (\<forall>t \<in> set ts. \<not> bad t)" by blast
  next
    assume "\<exists>ts. tag_chain m a ts \<and> (\<forall>t \<in> set ts. \<not> bad t)"
    then obtain ts where ts: "tag_chain m a ts" "\<forall>t \<in> set ts. \<not> bad t" by blast
    then have "run_tags body ts s \<noteq> None"
      using eq [of ts s] by blast
    with ts(1) show "mb2_walk m body a s \<noteq> None" by (simp add: mb2_walk_chain)
  qed
qed

text \<open>A tag whose size rounds to 0 (size 0, or above 0xFFFFFFF8) leads back to itself.\<close>

lemma no_chain_self: "next_tag m a = a \<Longrightarrow> tag_type m a \<noteq> MB2_TAG_END \<Longrightarrow> \<not> tag_chain m a ts"
proof
  assume "next_tag m a = a" "tag_type m a \<noteq> MB2_TAG_END" "tag_chain m a ts"
  moreover from this obtain us where "ts = a # us" "tag_chain m a us" by (cases ts) auto
  ultimately show False using tag_chain_unique [of m a ts us] by simp
qed

section \<open>The memory map\<close>

text \<open>
  The entry loop of the two walks that read the memory map.  The count is a division by the
  size field of the tag: a zero there is a divide error, whose handler never returns.
\<close>

definition entry_at :: "mem \<Rightarrow> u32 \<Rightarrow> u32 \<Rightarrow> u32" where
  "entry_at m tag i = tag + 16 + i * mmap_entry_size m tag"

definition mmap_each :: "mem \<Rightarrow> u32 \<Rightarrow> (u64 \<Rightarrow> u64 \<Rightarrow> 's \<Rightarrow> 's) \<Rightarrow> 's \<Rightarrow> 's option" where
  "mmap_each m tag f s =
     (if mmap_entry_size m tag = 0 then None
      else Some (for_loop (\<lambda>i s. let e = entry_at m tag i in
             if entry_type m e = MB2_MEMORY_AVAILABLE
             then f (entry_base m e) (entry_length m e) s else s)
           0 (mmap_count_of m tag) s))"

text \<open>What the map says: the (base, length) of its available entries, in order.\<close>

definition available :: "mem \<Rightarrow> u32 \<Rightarrow> (u64 \<times> u64) list" where
  "available m tag =
     map (\<lambda>e. (entry_base m e, entry_length m e))
       (filter (\<lambda>e. entry_type m e = MB2_MEMORY_AVAILABLE)
         (map (entry_at m tag) (word_upt 0 (mmap_count_of m tag))))"

lemma mmap_each_available:
  "mmap_entry_size m tag \<noteq> 0 \<Longrightarrow>
     mmap_each m tag f s = Some (fold (\<lambda>(b, l). f b l) (available m tag) s)"
proof -
  have "fold (\<lambda>i s. let e = entry_at m tag i in
             if entry_type m e = MB2_MEMORY_AVAILABLE
             then f (entry_base m e) (entry_length m e) s else s) is s
      = fold (\<lambda>(b, l). f b l) (map (\<lambda>e. (entry_base m e, entry_length m e))
       (filter (\<lambda>e. entry_type m e = MB2_MEMORY_AVAILABLE) (map (entry_at m tag) is))) s" for "is"
    by (induction "is" arbitrary: s) (auto simp: Let_def)
  then show "mmap_entry_size m tag \<noteq> 0 \<Longrightarrow> ?thesis"
    by (simp add: mmap_each_def available_def for_loop_fold)
qed

section \<open>The module scan of shiro_main\<close>

text \<open>The heap starts past the end of every module, which this walk computes.\<close>

definition module_action :: "mem \<Rightarrow> u32 \<Rightarrow> u32 \<Rightarrow> (u32 \<times> bool) option" where
  "module_action m tag initrd_end =
     Some (if tag_type m tag = MB2_TAG_MODULE \<and> initrd_end < mod_end m tag
           then mod_end m tag else initrd_end, False)"

definition modules_end :: "mem \<Rightarrow> u32 \<Rightarrow> u32 option" where
  "modules_end m mbi =
     (if mbi = 0 then Some 0
      else map_option fst (mb2_walk m (module_action m) (mbi + 8) 0))"

section \<open>A concrete information block\<close>

text \<open>
  The block of a machine with 128 MiB, for the closed instances of this and of later
  theories: a command line, the basic memory sizes, a map of two available ranges, one
  module at [0x200000, 0x200100), a 1024x768 frame buffer, the END tag.
\<close>

definition sample_words :: "u32 list" where
  "sample_words = [168, 0,  1, 11, 0x6968, 0,  4, 16, 639, 130048,
     6, 64, 24, 0,  0, 0, 0x9FC00, 0, 1, 0,  0x100000, 0, 0x7F00000, 0, 1, 0,
     3, 24, 0x200000, 0x200100, 0x78, 0,  8, 32, 0xFD000000, 0, 4096, 1024, 768, 0x120,
     0, 8]"

definition sample_mbi :: u32 where "sample_mbi = 0x9000"

definition sample_on :: "mem \<Rightarrow> mem" where "sample_on m = poke sample_mbi sample_words m"

abbreviation sample_ram :: mem where "sample_ram \<equiv> sample_on (\<lambda>_. 0)"

definition sample_tags :: "u32 list" where
  "sample_tags = [0x9008, 0x9018, 0x9028, 0x9068, 0x9080]"

lemma sample_load: "k < 42 \<Longrightarrow> load32 (sample_on m) (of_nat (0x9000 + 4 * k)) = sample_words ! k"
  using load32_poke [of k sample_words "0x9000" m]
  by (simp add: sample_on_def sample_mbi_def sample_words_def)

lemmas sample_loads [simp] = 
  sample_load [of 2, simplified] sample_load [of 3, simplified]
  sample_load [of 6, simplified] sample_load [of 7, simplified] sample_load [of 8, simplified]
  sample_load [of 9, simplified] sample_load [of 10, simplified] sample_load [of 11, simplified]
  sample_load [of 12, simplified] sample_load [of 14, simplified] sample_load [of 15, simplified]
  sample_load [of 16, simplified] sample_load [of 17, simplified] sample_load [of 18, simplified]
  sample_load [of 20, simplified] sample_load [of 21, simplified] sample_load [of 22, simplified]
  sample_load [of 23, simplified] sample_load [of 24, simplified] sample_load [of 26, simplified]
  sample_load [of 27, simplified] sample_load [of 28, simplified] sample_load [of 29, simplified]
  sample_load [of 32, simplified] sample_load [of 33, simplified] sample_load [of 34, simplified]
  sample_load [of 35, simplified] sample_load [of 36, simplified] sample_load [of 37, simplified]
  sample_load [of 38, simplified] sample_load [of 39, simplified] sample_load [of 40, simplified]

lemma sample_chain: "tag_chain (sample_on m) (sample_mbi + 8) sample_tags"
  by (simp add: sample_tags_def sample_mbi_def tag_type_def tag_size_def next_tag_def tag_codes
      sample_words_def)

lemma sample_available: "available (sample_on m) 0x9028 = [(0, 0x9FC00), (0x100000, 0x7F00000)]"
  by (simp add: available_def word_upt_rec [of 0] word_upt_rec [of 1] word_upt_rec [of 2] mmap_count_of_def
      tag_size_def mmap_entry_size_def entry_at_def entry_type_def entry_base_def entry_length_def
      load64_def tag_codes sample_words_def)

end
