(* ===== verification/PMM.thy ===== *)
theory PMM
  imports Boot_Info
begin

text \<open>
  \<open>System::PMM\<close> (src/src/src/classes/pmm.class.h): the physical page allocator.  The bitmap is
  a static array of the kernel image, kept as a field of its own: a function from the byte
  index, so that a write past \<open>BITMAP_BYTES\<close> would show.  Its abstraction is \<open>free_set\<close>, the
  set of free page numbers; the counters are the C variables, modulo 2 ^ 32.
\<close>

section \<open>State and operations\<close>

definition PAGE_SIZE :: u32 where "PAGE_SIZE = 4096"
definition MAX_PAGES :: u32 where "MAX_PAGES = push_bit 20 1"
definition BITMAP_BYTES :: u32 where "BITMAP_BYTES = MAX_PAGES div 8"

record pmm =
  pmm_bitmap :: "u32 \<Rightarrow> u8"
  total_pages :: u32
  free_pages :: u32
  used_pages :: u32
  reserved_pages :: u32
  pmm_ready :: bool

definition pmm0 :: pmm where
  "pmm0 = \<lparr>pmm_bitmap = (\<lambda>_. 0), total_pages = 0, free_pages = 0, used_pages = 0,
     reserved_pages = 0, pmm_ready = False\<rparr>"

definition SetUsed :: "u32 \<Rightarrow> pmm \<Rightarrow> pmm" where
  "SetUsed page P = P\<lparr>pmm_bitmap := (pmm_bitmap P)(drop_bit 3 page :=
     pmm_bitmap P (drop_bit 3 page) OR ucast (push_bit (unat (page AND 7)) (1 :: u32)))\<rparr>"

definition SetFree :: "u32 \<Rightarrow> pmm \<Rightarrow> pmm" where
  "SetFree page P = P\<lparr>pmm_bitmap := (pmm_bitmap P)(drop_bit 3 page :=
     pmm_bitmap P (drop_bit 3 page) AND ucast (NOT (push_bit (unat (page AND 7)) (1 :: u32))))\<rparr>"

definition IsUsed :: "pmm \<Rightarrow> u32 \<Rightarrow> bool" where
  "IsUsed P page \<longleftrightarrow>
     drop_bit (unat (page AND 7)) (ucast (pmm_bitmap P (drop_bit 3 page)) :: u32) AND 1 \<noteq> 0"

definition mark_free_page :: "u32 \<Rightarrow> pmm \<Rightarrow> pmm" where
  "mark_free_page p P =
     (if IsUsed P p
      then let P1 = SetFree p P; P2 = P1\<lparr>free_pages := free_pages P1 + 1\<rparr>
           in if 0 < reserved_pages P2
              then P2\<lparr>reserved_pages := reserved_pages P2 - 1\<rparr> else P2
      else P)"

definition MarkRangeFree :: "u64 \<Rightarrow> u64 \<Rightarrow> pmm \<Rightarrow> pmm" where
  "MarkRangeFree addr sz P =
     (let start = (addr + 4096 - 1) AND NOT (4096 - 1);
          end = (addr + sz) AND NOT (4096 - 1)
      in if end \<le> start then P
         else let first = (ucast (start div 4096) :: u32);
                  last0 = (ucast (end div 4096) :: u32);
                  last = (if MAX_PAGES < last0 then MAX_PAGES else last0)
              in for_loop mark_free_page first last P)"

definition mark_used_page :: "u32 \<Rightarrow> pmm \<Rightarrow> pmm" where
  "mark_used_page p P =
     (if \<not> IsUsed P p
      then let P1 = SetUsed p P;
               P2 = (if 0 < free_pages P1 then P1\<lparr>free_pages := free_pages P1 - 1\<rparr> else P1)
           in P2\<lparr>used_pages := used_pages P2 + 1\<rparr>
      else P)"

definition MarkRangeUsed :: "u64 \<Rightarrow> u64 \<Rightarrow> pmm \<Rightarrow> pmm" where
  "MarkRangeUsed addr sz P =
     (let start = addr AND NOT (4096 - 1);
          end = (addr + sz + 4096 - 1) AND NOT (4096 - 1)
      in if end \<le> start then P
         else let first = (ucast (start div 4096) :: u32);
                  last0 = (ucast (end div 4096) :: u32);
                  last = (if MAX_PAGES < last0 then MAX_PAGES else last0)
              in for_loop mark_used_page first last P)"

text \<open>The action of \<open>Start\<close> on one tag of the boot information.\<close>

definition pmm_tag :: "mem \<Rightarrow> u32 \<Rightarrow> pmm \<Rightarrow> (pmm \<times> bool) option" where
  "pmm_tag m tag P =
     (if tag_type m tag = MB2_TAG_MMAP
      then map_option (\<lambda>P'. (P', False)) (mmap_each m tag MarkRangeFree P)
      else Some (P, False))"

definition reserve_all :: "pmm \<Rightarrow> pmm" where
  "reserve_all P =
     (for_loop (\<lambda>i P. P\<lparr>pmm_bitmap := (pmm_bitmap P)(i := 0xFF)\<rparr>) 0 BITMAP_BYTES P)
       \<lparr>total_pages := MAX_PAGES, used_pages := 0, free_pages := 0, reserved_pages := MAX_PAGES\<rparr>"

definition PMM_Start :: "u32 \<Rightarrow> u32 \<Rightarrow> u32 \<Rightarrow> mach \<times> pmm \<Rightarrow> (mach \<times> pmm) option" where
  "PMM_Start mbi kernel_start kernel_end_plus_heap = (\<lambda>(M, P).
     let P1 = reserve_all P
     in if mbi = 0
        then Some (log_line [LStr (''> [PMM] no multiboot info '' @ em_dash @ '' pmm disabled'')] M, P1)
        else case mb2_walk (ram M) (pmm_tag (ram M)) (mbi + 8) P1 of
            None \<Rightarrow> None
          | Some (P2, _) \<Rightarrow>
              (let P3 = MarkRangeUsed (ucast kernel_start)
                          (ucast (kernel_end_plus_heap - kernel_start)) P2;
                   P4 = (MarkRangeUsed 0 0x100000 P3)\<lparr>pmm_ready := True\<rparr>
               in Some (log_line [LStr ''> PMM online: total_pages='', LInt (total_pages P4),
                          LStr '' free='', LInt (free_pages P4), LStr '' used='',
                          LInt (used_pages P4)] M, P4)))"

definition scan_byte :: "pmm \<Rightarrow> u32 \<Rightarrow> u32 option" where
  "scan_byte P byte_i =
     (if pmm_bitmap P byte_i = 0xFF then None
      else for_find (\<lambda>b. if (ucast (pmm_bitmap P byte_i) :: u32) AND push_bit (unat b) 1 = 0
                         then Some (byte_i * 8 + b) else None) 0 8)"

definition AllocPage :: "pmm \<Rightarrow> u32 \<times> pmm" where
  "AllocPage P =
     (if \<not> pmm_ready P then (0, P)
      else case for_find (scan_byte P) 0 BITMAP_BYTES of
          None \<Rightarrow> (0, P)
        | Some page \<Rightarrow>
            (let P1 = SetUsed page P
             in (page * PAGE_SIZE, P1\<lparr>free_pages := free_pages P1 - 1,
                                     used_pages := used_pages P1 + 1\<rparr>)))"

definition FreePage :: "u32 \<Rightarrow> pmm \<Rightarrow> pmm" where
  "FreePage physical_addr P =
     (if \<not> pmm_ready P then P
      else let page = physical_addr div PAGE_SIZE
           in if MAX_PAGES \<le> page then P
              else if \<not> IsUsed P page then P
              else let P1 = SetFree page P
                   in P1\<lparr>free_pages := free_pages P1 + 1, used_pages := used_pages P1 - 1\<rparr>)"

section \<open>The bitmap\<close>

definition free_set :: "pmm \<Rightarrow> u32 set" where
  "free_set P = {p. p < MAX_PAGES \<and> \<not> IsUsed P p}"

lemma unat_and_7: "unat (p AND 7 :: u32) = unat p mod 8"
proof -
  have "p AND 7 = take_bit 3 p" by (simp add: take_bit_eq_mask mask_eq_exp_minus_1)
  then show ?thesis by (simp only: unsigned_take_bit_eq) (simp add: take_bit_eq_mod)
qed

lemma unat_drop_3: "unat (drop_bit 3 p :: u32) = unat p div 8"
  by (simp add: drop_bit_eq_div unat_div)

lemma page_split: "drop_bit 3 p = drop_bit 3 q \<and> p AND 7 = q AND 7 \<longleftrightarrow> p = (q :: u32)"
proof
  assume "drop_bit 3 p = drop_bit 3 q \<and> p AND 7 = q AND 7"
  then have "unat p div 8 = unat q div 8" "unat p mod 8 = unat q mod 8"
    using unat_drop_3 [of p] unat_drop_3 [of q] unat_and_7 [of p] unat_and_7 [of q] by simp_all
  then have "unat p = unat q" by (metis div_mult_mod_eq)
  then show "p = q" by (simp add: word_unat_eq_iff)
qed simp

lemma IsUsed_bit: "IsUsed P p \<longleftrightarrow> bit (pmm_bitmap P (drop_bit 3 p)) (unat p mod 8)"
proof -
  have k: "unat p mod 8 < 8" by simp
  have "drop_bit k (ucast b :: u32) AND 1 \<noteq> 0 \<longleftrightarrow> bit b k" if "k < 8" for k and b :: u8
    using that by (simp add: and_one_eq odd_iff_mod_2_eq_one [symmetric] bit_simps
        bit_0 [symmetric] del: bit_0)
  from this [OF k] show ?thesis by (simp add: IsUsed_def unat_and_7)
qed

lemma page_bits: "unat p mod 8 = unat q mod 8 \<longleftrightarrow> p AND 7 = (q AND 7 :: u32)"
  by (simp add: word_unat_eq_iff unat_and_7)

lemma IsUsed_SetUsed [simp]: "IsUsed (SetUsed q P) p \<longleftrightarrow> p = q \<or> IsUsed P p"
proof (cases "drop_bit 3 p = drop_bit 3 q")
  case True
  have "bit (ucast (push_bit (unat q mod 8) (1 :: u32)) :: u8) (unat p mod 8)
      \<longleftrightarrow> unat p mod 8 = unat q mod 8"
    by (auto simp: bit_simps)
  then show ?thesis
    using True page_split [of p q]
    by (auto simp: IsUsed_bit SetUsed_def unat_and_7 page_bits bit_or_iff)
qed (auto simp: IsUsed_bit SetUsed_def)

lemma IsUsed_SetFree [simp]: "IsUsed (SetFree q P) p \<longleftrightarrow> p \<noteq> q \<and> IsUsed P p"
proof (cases "drop_bit 3 p = drop_bit 3 q")
  case True
  have "bit (ucast (NOT (push_bit (unat q mod 8) (1 :: u32))) :: u8) (unat p mod 8)
      \<longleftrightarrow> unat p mod 8 \<noteq> unat q mod 8"
    by (auto simp: bit_simps)
  then show ?thesis
    using True page_split [of p q]
    by (auto simp: IsUsed_bit SetFree_def unat_and_7 page_bits bit_and_iff)
qed (auto simp: IsUsed_bit SetFree_def)

lemma SetUsed_sel [simp]:
  "free_pages (SetUsed p P) = free_pages P" "used_pages (SetUsed p P) = used_pages P"
  "reserved_pages (SetUsed p P) = reserved_pages P" "total_pages (SetUsed p P) = total_pages P"
  "pmm_ready (SetUsed p P) = pmm_ready P"
  "free_pages (SetFree p P) = free_pages P" "used_pages (SetFree p P) = used_pages P"
  "reserved_pages (SetFree p P) = reserved_pages P" "total_pages (SetFree p P) = total_pages P"
  "pmm_ready (SetFree p P) = pmm_ready P"
  by (simp_all add: SetUsed_def SetFree_def)

lemma IsUsed_upd [simp]:
  "IsUsed (P\<lparr>free_pages := a\<rparr>) p = IsUsed P p" "IsUsed (P\<lparr>used_pages := a\<rparr>) p = IsUsed P p"
  "IsUsed (P\<lparr>reserved_pages := a\<rparr>) p = IsUsed P p" "IsUsed (P\<lparr>total_pages := a\<rparr>) p = IsUsed P p"
  "IsUsed (P\<lparr>pmm_ready := b\<rparr>) p = IsUsed P p"
  by (simp_all add: IsUsed_def)

lemma free_set_upd [simp]:
  "free_set (P\<lparr>free_pages := a\<rparr>) = free_set P" "free_set (P\<lparr>used_pages := a\<rparr>) = free_set P"
  "free_set (P\<lparr>reserved_pages := a\<rparr>) = free_set P" "free_set (P\<lparr>total_pages := a\<rparr>) = free_set P"
  "free_set (P\<lparr>pmm_ready := b\<rparr>) = free_set P"
  "free_set (SetUsed p P) = free_set P - {p}"
  "p < MAX_PAGES \<Longrightarrow> free_set (SetFree p P) = insert p (free_set P)"
  by (auto simp: free_set_def)

lemma unat_MAX [simp]: "unat MAX_PAGES = 2 ^ 20" "unat BITMAP_BYTES = 2 ^ 17"
  by (simp_all add: MAX_PAGES_def BITMAP_BYTES_def)

lemma free_set_finite [simp]: "finite (free_set P)" "card (free_set P) \<le> 2 ^ 20"
proof -
  have sub: "free_set P \<subseteq> {0..<MAX_PAGES}" by (auto simp: free_set_def)
  show "finite (free_set P)" by simp
  from card_mono [OF _ sub] show "card (free_set P) \<le> 2 ^ 20" by simp
qed

lemma card_insert_free: "p < MAX_PAGES \<Longrightarrow> p \<notin> free_set P \<Longrightarrow> card (free_set P) < 2 ^ 20"
  using free_set_finite(2) [of "SetFree p P"] by simp

section \<open>Counters\<close>

text \<open>
  \<open>boot_ok\<close> holds while \<open>Start\<close> reads the memory map; \<open>pmm_ok\<close> from then on: the counters
  agree with the bitmap, and they account for every page.
\<close>

definition pmm_ok :: "pmm \<Rightarrow> bool" where
  "pmm_ok P \<longleftrightarrow> unat (free_pages P) = card (free_set P) \<and> total_pages P = MAX_PAGES
     \<and> unat (used_pages P) + unat (free_pages P) + unat (reserved_pages P) = 2 ^ 20"

definition boot_ok :: "pmm \<Rightarrow> bool" where
  "boot_ok P \<longleftrightarrow> pmm_ok P \<and> used_pages P = 0"

lemma mark_free_page_step:
  assumes "p < MAX_PAGES" "boot_ok P"
  shows "boot_ok (mark_free_page p P) \<and> free_set (mark_free_page p P) = insert p (free_set P)"
proof (cases "IsUsed P p")
  case True
  then have nf: "p \<notin> free_set P" by (simp add: free_set_def)
  from card_insert_free [OF assms(1) this] assms(2)
  have "unat (free_pages P) < 2 ^ 20" "0 < unat (reserved_pages P)"
    by (auto simp: boot_ok_def pmm_ok_def)
  moreover from this have "0 < reserved_pages P" by (simp add: word_less_nat_alt)
  ultimately show ?thesis
    using assms True nf
    by (auto simp: mark_free_page_def Let_def boot_ok_def pmm_ok_def unat_minus_one_u32
        unat_plus_one_u32)
next
  case False
  with assms show ?thesis by (auto simp: mark_free_page_def free_set_def)
qed

lemma mark_used_page_step:
  assumes "p < MAX_PAGES" "pmm_ok P"
  shows "pmm_ok (mark_used_page p P) \<and> free_set (mark_used_page p P) = free_set P - {p}"
proof (cases "IsUsed P p")
  case True
  then have "p \<notin> free_set P" by (simp add: free_set_def)
  with assms True show ?thesis by (auto simp: mark_used_page_def)
next
  case False
  with assms(1) have pf: "p \<in> free_set P" by (simp add: free_set_def)
  then have "0 < card (free_set P)" by (auto simp: card_gt_0_iff)
  with assms(2) have "0 < unat (free_pages P)" "unat (used_pages P) < 2 ^ 20"
    by (auto simp: pmm_ok_def)
  moreover from this have "0 < free_pages P" by (simp add: word_less_nat_alt)
  ultimately show ?thesis
    using assms False pf
    by (auto simp: mark_used_page_def Let_def pmm_ok_def unat_minus_one_u32 unat_plus_one_u32)
qed

section \<open>Ranges\<close>

definition pages_inside :: "nat \<Rightarrow> nat \<Rightarrow> u32 set" where
  "pages_inside a n = {p. p < MAX_PAGES \<and> a \<le> 4096 * unat p \<and> 4096 * unat p + 4096 \<le> a + n}"

definition pages_touching :: "nat \<Rightarrow> nat \<Rightarrow> u32 set" where
  "pages_touching a n = {p. p < MAX_PAGES \<and> a < 4096 * unat p + 4096 \<and> 4096 * unat p < a + n}"

lemma unat_u64_add:
  "unat (a::u64) + unat b < 2 ^ 64 \<Longrightarrow> unat (a + b) = unat a + unat b"
  by (simp add: unat_word_ariths)

lemma unat_page_of:
  "unat (x::u64) < 2 ^ 44 \<Longrightarrow> unat (ucast (x div 4096) :: u32) = unat x div 4096"
  by (simp add: unat_div unsigned_ucast_eq take_bit_eq_mod)

lemma floor_page: "unat (x AND NOT (4096 - 1) :: u64) = unat x div 4096 * 4096"
  using unat_and_not_0xFFF [of x] by simp

text \<open>The pages both loops run over, clipped to the bitmap.\<close>

definition page_run :: "u64 \<Rightarrow> u64 \<Rightarrow> u32 list" where
  "page_run s e = (if e \<le> s then []
     else word_upt (ucast (s div 4096))
       (if MAX_PAGES < ucast (e div 4096) then MAX_PAGES else ucast (e div 4096)))"

lemma MarkRangeFree_run:
  "MarkRangeFree addr sz P = fold mark_free_page
     (page_run ((addr + 4096 - 1) AND NOT (4096 - 1)) ((addr + sz) AND NOT (4096 - 1))) P"
  unfolding MarkRangeFree_def page_run_def Let_def for_loop_fold by simp

lemma MarkRangeUsed_run:
  "MarkRangeUsed addr sz P = fold mark_used_page
     (page_run (addr AND NOT (4096 - 1)) ((addr + sz + 4096 - 1) AND NOT (4096 - 1))) P"
  unfolding MarkRangeUsed_def page_run_def Let_def for_loop_fold by simp

lemma page_run_bound: "p \<in> set (page_run s e) \<Longrightarrow> p < MAX_PAGES"
  by (auto simp: page_run_def split: if_splits)

lemma page_run_sub: "set (page_run s e) \<subseteq> {p. p < MAX_PAGES}"
  by (auto dest: page_run_bound)

lemma set_page_run:
  assumes "unat s = a * 4096" "unat e = b * 4096" "b * 4096 < 2 ^ 44" "a * 4096 < 2 ^ 44"
  shows "set (page_run s e) = {p. p < MAX_PAGES \<and> a \<le> unat p \<and> unat p < b}"
proof -
  have f: "unat (ucast (s div 4096) :: u32) = a" "unat (ucast (e div 4096) :: u32) = b"
    using assms by (simp_all add: unat_page_of)
  have "e \<le> s \<longleftrightarrow> b \<le> a" using assms by (simp add: word_le_nat_alt)
  with f show ?thesis
    by (auto simp: page_run_def word_le_nat_alt word_less_nat_alt)
qed

lemma fold_mark_free:
  assumes "set ps \<subseteq> {p. p < MAX_PAGES}" "boot_ok P"
  shows "boot_ok (fold mark_free_page ps P) \<and> free_set (fold mark_free_page ps P) = free_set P \<union> set ps"
  using assms by (induction ps arbitrary: P) (auto simp: mark_free_page_step)

lemma fold_mark_used:
  assumes "set ps \<subseteq> {p. p < MAX_PAGES}" "pmm_ok P"
  shows "pmm_ok (fold mark_used_page ps P) \<and> free_set (fold mark_used_page ps P) = free_set P - set ps"
  using assms by (induction ps arbitrary: P) (auto simp: mark_used_page_step)

lemma MarkRangeFree_boot: "boot_ok P \<Longrightarrow> boot_ok (MarkRangeFree addr sz P)"
  using fold_mark_free [OF page_run_sub] by (simp add: MarkRangeFree_run)

lemma page_round:
  "((a::nat) + 4095) div 4096 \<le> k \<longleftrightarrow> a \<le> 4096 * k" "k < a div 4096 \<longleftrightarrow> 4096 * k + 4096 \<le> a"
  "a div 4096 \<le> k \<longleftrightarrow> a < 4096 * k + 4096" "k < (a + 4095) div 4096 \<longleftrightarrow> 4096 * k < a"
  using div_mult_mod_eq [of a 4096] mod_less_divisor [of 4096 a]
    div_mult_mod_eq [of "a + 4095" 4096] mod_less_divisor [of 4096 "a + 4095"]
  by (auto simp: less_Suc_eq_le)

lemma MarkRangeFree_set:
  assumes "boot_ok P" "unat addr + unat sz < 2 ^ 44 - 4096"
  shows "free_set (MarkRangeFree addr sz P) = free_set P \<union> pages_inside (unat addr) (unat sz)"
proof -
  have s: "unat ((addr + 4096 - 1) AND NOT (4096 - 1)) = (unat addr + 4095) div 4096 * 4096"
    using assms(2) unfolding floor_page by (simp add: unat_u64_add add.commute [of addr])
  have e: "unat ((addr + sz) AND NOT (4096 - 1)) = (unat addr + unat sz) div 4096 * 4096"
    using assms(2) unfolding floor_page by (simp add: unat_u64_add)
  have "set (page_run ((addr + 4096 - 1) AND NOT (4096 - 1)) ((addr + sz) AND NOT (4096 - 1)))
      = pages_inside (unat addr) (unat sz)"
    by (subst set_page_run [OF s e]) (use assms(2) div_times_less_eq_dividend [of "unat addr + 4095" 4096]
        div_times_less_eq_dividend [of "unat addr + unat sz" 4096] in
      \<open>auto simp: pages_inside_def page_round\<close>)
  then show ?thesis
    using fold_mark_free [OF page_run_sub assms(1)] by (simp only: MarkRangeFree_run)
qed

lemma MarkRangeUsed_set:
  assumes "pmm_ok P" "unat addr + unat sz < 2 ^ 44 - 4096"
  shows "pmm_ok (MarkRangeUsed addr sz P)
    \<and> free_set (MarkRangeUsed addr sz P) = free_set P - pages_touching (unat addr) (unat sz)"
proof -
  have s: "unat (addr AND NOT (4096 - 1)) = unat addr div 4096 * 4096"
    unfolding floor_page by simp
  have "unat (addr + sz + 4096 - 1) = unat addr + unat sz + 4095"
    using assms(2) by (simp add: unat_word_ariths)
  then have e: "unat ((addr + sz + 4096 - 1) AND NOT (4096 - 1))
      = (unat addr + unat sz + 4095) div 4096 * 4096"
    unfolding floor_page by simp
  have "set (page_run (addr AND NOT (4096 - 1)) ((addr + sz + 4096 - 1) AND NOT (4096 - 1)))
      = pages_touching (unat addr) (unat sz)"
    by (subst set_page_run [OF s e]) (use assms(2) div_times_less_eq_dividend [of "unat addr" 4096]
        div_times_less_eq_dividend [of "unat addr + unat sz + 4095" 4096] in
      \<open>auto simp: pages_touching_def page_round\<close>)
  then show ?thesis
    using fold_mark_used [OF page_run_sub assms(1)] by (simp only: MarkRangeUsed_run)
qed

section \<open>AllocPage and FreePage\<close>

lemma byte_full: "(b :: u8) = 0xFF \<longleftrightarrow> (\<forall>k < 8. bit b k)"
proof -
  have "(0xFF :: u8) = mask 8" by (simp add: mask_eq_exp_minus_1)
  then show ?thesis by (auto simp: bit_eq_iff bit_mask_iff)
qed

lemma bit_test: "b < 8 \<Longrightarrow> (ucast (w :: u8) :: u32) AND push_bit (unat (b :: u32)) 1 = 0 \<longleftrightarrow> \<not> bit w (unat b)"
proof -
  assume "b < 8"
  then have b: "unat b < 8" by (simp add: word_less_nat_alt)
  have "push_bit k (1 :: u32) = 2 ^ k" for k by (simp add: push_bit_eq_mult)
  moreover have "(ucast w :: u32) AND 2 ^ k = 0 \<longleftrightarrow> \<not> bit w k" if "k < 8" for k
    using that by (simp add: and_exp_eq_0_iff_not_bit bit_simps)
  ultimately show ?thesis using b by simp
qed

lemma byte_page:
  assumes "i < BITMAP_BYTES" "b < 8"
  shows "unat (i * 8 + b) = unat i * 8 + unat b" "IsUsed P (i * 8 + b) \<longleftrightarrow> bit (pmm_bitmap P i) (unat b)"
    "i * 8 + b < MAX_PAGES"
proof -
  have "unat i < 2 ^ 17" "unat b < 8" using assms by (simp_all add: word_less_nat_alt)
  then show u: "unat (i * 8 + b) = unat i * 8 + unat b" by (simp add: unat_word_ariths)
  then have "drop_bit 3 (i * 8 + b) = i" "unat (i * 8 + b) mod 8 = unat b"
    using \<open>unat b < 8\<close> by (simp_all only: word_unat_eq_iff unat_drop_3) auto
  then show "IsUsed P (i * 8 + b) \<longleftrightarrow> bit (pmm_bitmap P i) (unat b)" by (simp add: IsUsed_bit)
  show "i * 8 + b < MAX_PAGES"
    using u \<open>unat i < 2 ^ 17\<close> \<open>unat b < 8\<close> by (simp add: word_less_nat_alt)
qed

lemma page_byte:
  assumes "p < MAX_PAGES"
  obtains i b where "i < BITMAP_BYTES" "b < 8" "p = i * 8 + b"
proof
  have p: "unat p < 2 ^ 20" using assms by (simp add: word_less_nat_alt)
  then show "drop_bit 3 p < BITMAP_BYTES" by (simp only: word_less_nat_alt unat_drop_3) simp
  show "p AND 7 < 8" by (simp add: word_less_nat_alt unat_and_7)
  have "unat (drop_bit 3 p * 8 + (p AND 7)) = unat p"
    using p by (simp only: unat_word_ariths unat_drop_3 unat_and_7) simp
  then show "p = drop_bit 3 p * 8 + (p AND 7)" by (simp only: word_unat_eq_iff)
qed

lemma scan_byte_None:
  "i < BITMAP_BYTES \<Longrightarrow> scan_byte P i = None \<longleftrightarrow> (\<forall>b < 8. IsUsed P (i * 8 + b))"
proof -
  assume i: "i < BITMAP_BYTES"
  have e: "(\<forall>b < 8. IsUsed P (i * 8 + b)) \<longleftrightarrow> (\<forall>b :: u32. b < 8 \<longrightarrow> bit (pmm_bitmap P i) (unat b))"
    using byte_page(2) [OF i] by auto
  show ?thesis
  proof (cases "pmm_bitmap P i = 0xFF")
    case True
    then have "bit (pmm_bitmap P i) (unat b)" if "b < 8" for b :: u32
      using that unfolding byte_full by (simp add: word_less_nat_alt)
    with e True show ?thesis by (simp add: scan_byte_def)
  next
    case False
    then show ?thesis using bit_test [of _ "pmm_bitmap P i"] unfolding e
      by (auto simp: scan_byte_def for_find_None)
  qed
qed

lemma scan_byte_Some:
  assumes "i < BITMAP_BYTES" "scan_byte P i = Some p"
  shows "\<exists>b < 8. p = i * 8 + b \<and> \<not> IsUsed P p \<and> (\<forall>c < b. IsUsed P (i * 8 + c))"
proof -
  let ?f = "\<lambda>b :: u32. if (ucast (pmm_bitmap P i) :: u32) AND push_bit (unat b) 1 = 0
    then Some (i * 8 + b) else None"
  from assms(2) have "for_find ?f 0 8 = Some p" by (simp add: scan_byte_def split: if_splits)
  from for_find_Some [OF this] obtain b where b: "b < 8" "?f b = Some p" "\<forall>c < b. ?f c = None"
    by auto
  have "bit (pmm_bitmap P i) (unat c)" if c: "c < b" for c
  proof -
    from c b(1) have "c < 8" by (rule less_trans)
    with b(3) c show ?thesis using bit_test [of c "pmm_bitmap P i"] by (auto split: if_splits)
  qed
  then have "\<forall>c < b. IsUsed P (i * 8 + c)"
    using byte_page(2) [OF assms(1)] b(1) by (metis less_trans)
  moreover have "p = i * 8 + b" "\<not> IsUsed P p"
    using b(1,2) bit_test [OF b(1)] byte_page(2) [OF assms(1) b(1)] by (auto split: if_splits)
  ultimately show ?thesis using b(1) by blast
qed

lemma page_scan_None: "for_find (scan_byte P) 0 BITMAP_BYTES = None \<longleftrightarrow> free_set P = {}"
proof -
  have "(\<forall>i < BITMAP_BYTES. \<forall>b < 8. IsUsed P (i * 8 + b)) \<longleftrightarrow> (\<forall>p < MAX_PAGES. IsUsed P p)"
    by (metis page_byte byte_page(3))
  then show ?thesis by (auto simp: for_find_None scan_byte_None free_set_def)
qed

lemma page_scan_Some:
  assumes "for_find (scan_byte P) 0 BITMAP_BYTES = Some p"
  shows "p \<in> free_set P \<and> (\<forall>q \<in> free_set P. p \<le> q)"
proof -
  from for_find_Some [OF assms] obtain i where i: "i < BITMAP_BYTES" "scan_byte P i = Some p"
    "\<forall>j < i. scan_byte P j = None" by auto
  from scan_byte_Some [OF i(1,2)] obtain b where b: "b < 8" "p = i * 8 + b" "\<not> IsUsed P p"
    "\<forall>c < b. IsUsed P (i * 8 + c)" by blast
  have "p \<le> q" if q: "q \<in> free_set P" for q
  proof (rule ccontr)
    assume lt: "\<not> p \<le> q"
    from q obtain j c where j: "j < BITMAP_BYTES" "c < 8" "q = j * 8 + c"
      by (auto simp: free_set_def elim: page_byte)
    have "unat j * 8 + unat c < unat i * 8 + unat b"
      using lt byte_page(1) [OF i(1) b(1)] byte_page(1) [OF j(1,2)] by (simp add: b(2) j(3) word_le_nat_alt)
    with b(1) j(2) have "unat j < unat i \<or> j = i \<and> unat c < unat b"
      by (auto simp: word_less_nat_alt word_unat_eq_iff)
    then have "IsUsed P q"
      using i(3) j b(4) scan_byte_None [OF j(1)] by (auto simp: word_less_nat_alt)
    with q show False by (simp add: free_set_def)
  qed
  with b byte_page(3) [OF i(1) b(1)] show ?thesis by (auto simp: free_set_def)
qed

definition page_addr :: "u32 \<Rightarrow> u32" where "page_addr p = p * PAGE_SIZE"

lemma unat_page_addr: "p < MAX_PAGES \<Longrightarrow> unat (page_addr p) = 4096 * unat p"
  by (simp add: page_addr_def PAGE_SIZE_def unat_word_ariths word_less_nat_alt)

lemma page_addr_div: "p < MAX_PAGES \<Longrightarrow> page_addr p div PAGE_SIZE = p"
  using unat_page_addr [of p] by (simp add: word_unat_eq_iff unat_div PAGE_SIZE_def)

lemma AllocPage_empty: "pmm_ready P \<Longrightarrow> free_set P = {} \<Longrightarrow> AllocPage P = (0, P)"
  using page_scan_None [of P] by (simp add: AllocPage_def)

lemma AllocPage_free:
  assumes "pmm_ready P" "pmm_ok P" "free_set P \<noteq> {}"
  obtains p P' where "AllocPage P = (page_addr p, P')" "p \<in> free_set P" "\<forall>q \<in> free_set P. p \<le> q"
    "free_set P' = free_set P - {p}" "pmm_ok P'" "pmm_ready P'"
    "unat (used_pages P') = unat (used_pages P) + 1" "reserved_pages P' = reserved_pages P"
proof -
  from assms(3) obtain p where f: "for_find (scan_byte P) 0 BITMAP_BYTES = Some p"
    using page_scan_None by (cases "for_find (scan_byte P) 0 BITMAP_BYTES") auto
  from page_scan_Some [OF f] have p: "p \<in> free_set P" "\<forall>q \<in> free_set P. p \<le> q" by auto
  define P' where "P' = (SetUsed p P)\<lparr>free_pages := free_pages P - 1, used_pages := used_pages P + 1\<rparr>"
  from p(1) have "0 < card (free_set P)" by (auto simp: card_gt_0_iff)
  with assms(2) have c: "0 < unat (free_pages P)" "unat (used_pages P) < 2 ^ 20"
    "unat (free_pages P) = card (free_set P)" by (auto simp: pmm_ok_def)
  moreover from this have "0 < free_pages P" by (simp add: word_less_nat_alt)
  ultimately have u: "unat (free_pages P - 1) = unat (free_pages P) - 1"
    "unat (used_pages P + 1) = unat (used_pages P) + 1"
    by (simp_all add: unat_minus_one_u32 unat_plus_one_u32)
  have "AllocPage P = (page_addr p, P')"
    using assms(1) f by (simp add: AllocPage_def Let_def page_addr_def P'_def)
  then show thesis
    by (rule that [OF _ p]) (use assms c u p in \<open>auto simp: P'_def pmm_ok_def\<close>)
qed

lemma FreePage_used:
  assumes "pmm_ready P" "pmm_ok P" "p < MAX_PAGES" "p \<notin> free_set P" "0 < used_pages P"
  shows "pmm_ok (FreePage (page_addr p) P)" "free_set (FreePage (page_addr p) P) = insert p (free_set P)"
    "pmm_ready (FreePage (page_addr p) P)"
    "unat (used_pages (FreePage (page_addr p) P)) = unat (used_pages P) - 1"
proof -
  from card_insert_free [OF assms(3,4)] assms(2) have "unat (free_pages P) < 2 ^ 20"
    by (simp add: pmm_ok_def)
  moreover have "IsUsed P p" using assms(3,4) by (simp add: free_set_def)
  moreover have "0 < unat (used_pages P)" using assms(5) by (simp add: word_less_nat_alt)
  ultimately show "pmm_ok (FreePage (page_addr p) P)"
    "free_set (FreePage (page_addr p) P) = insert p (free_set P)" "pmm_ready (FreePage (page_addr p) P)"
    "unat (used_pages (FreePage (page_addr p) P)) = unat (used_pages P) - 1"
    using assms by (auto simp: FreePage_def Let_def page_addr_div pmm_ok_def unat_minus_one_u32
        unat_plus_one_u32)
qed

section \<open>Start\<close>

lemma reserve_all_bitmap:
  "pmm_bitmap (reserve_all P) i = (if i < BITMAP_BYTES then 0xFF else pmm_bitmap P i)"
proof -
  have "pmm_bitmap (fold (\<lambda>i P. P\<lparr>pmm_bitmap := (pmm_bitmap P)(i := 0xFF)\<rparr>) is P) i
      = (if i \<in> set is then 0xFF else pmm_bitmap P i)" for "is"
    by (induction "is" arbitrary: P) auto
  then show ?thesis by (simp add: reserve_all_def for_loop_fold)
qed

lemma reserve_all_ok: "boot_ok (reserve_all P)" "free_set (reserve_all P) = {}"
proof -
  have "IsUsed (reserve_all P) p" if p: "p < MAX_PAGES" for p
  proof -
    from p have "drop_bit 3 p < BITMAP_BYTES" by (simp only: word_less_nat_alt unat_drop_3) auto
    then show ?thesis
      using byte_full [of 255] by (simp add: IsUsed_bit reserve_all_bitmap)
  qed
  then show "free_set (reserve_all P) = {}" by (auto simp: free_set_def)
  then show "boot_ok (reserve_all P)" by (simp add: boot_ok_def pmm_ok_def) (simp add: reserve_all_def)
qed

text \<open>The available ranges of a chain of tags, and the pages that lie fully in one of them.\<close>

definition mmap_regions :: "mem \<Rightarrow> u32 list \<Rightarrow> (u64 \<times> u64) list" where
  "mmap_regions m ts = concat (map (available m) (filter (\<lambda>t. tag_type m t = MB2_TAG_MMAP) ts))"

definition ram_pages :: "(u64 \<times> u64) list \<Rightarrow> u32 set" where
  "ram_pages rs = (\<Union>(b, l) \<in> set rs. pages_inside (unat b) (unat l))"

definition boot_pages :: "mem \<Rightarrow> u32 list \<Rightarrow> u32 \<Rightarrow> u32 \<Rightarrow> u32 set" where
  "boot_pages m ts ks ke = ram_pages (mmap_regions m ts)
     - pages_touching (unat ks) (unat ke - unat ks) - pages_touching 0 0x100000"

definition mmap_wf :: "mem \<Rightarrow> u32 \<Rightarrow> u32 list \<Rightarrow> bool" where
  "mmap_wf m mbi ts \<longleftrightarrow> mbi \<noteq> 0 \<and> tag_chain m (mbi + 8) ts
     \<and> (\<forall>t \<in> set ts. tag_type m t = MB2_TAG_MMAP \<longrightarrow> mmap_entry_size m t \<noteq> 0)
     \<and> (\<forall>(b, l) \<in> set (mmap_regions m ts). unat b + unat l < 2 ^ 44 - 4096)"

lemma ram_pages_simps [simp]:
  "ram_pages [] = {}" "ram_pages ((b, l) # rs) = pages_inside (unat b) (unat l) \<union> ram_pages rs"
  by (simp_all add: ram_pages_def)

lemma fold_regions:
  assumes "boot_ok P" "\<forall>(b, l) \<in> set rs. unat b + unat l < 2 ^ 44 - 4096"
  shows "boot_ok (fold (\<lambda>(b, l). MarkRangeFree b l) rs P)
    \<and> free_set (fold (\<lambda>(b, l). MarkRangeFree b l) rs P) = free_set P \<union> ram_pages rs"
  using assms
  by (induction rs arbitrary: P) (auto simp: MarkRangeFree_boot MarkRangeFree_set)

lemma pmm_walk:
  assumes "mmap_wf m mbi ts" "boot_ok P"
  shows "\<exists>P'. mb2_walk m (pmm_tag m) (mbi + 8) P = Some (P', False) \<and> boot_ok P'
    \<and> free_set P' = free_set P \<union> ram_pages (mmap_regions m ts)"
proof -
  let ?f = "\<lambda>t P. if tag_type m t = MB2_TAG_MMAP
    then fold (\<lambda>(b, l). MarkRangeFree b l) (available m t) P else P"
  have "pmm_tag m t P = Some (?f t P, False)" if "t \<in> set ts" for t P
    using that assms(1) by (auto simp: pmm_tag_def mmap_wf_def mmap_each_available)
  then have "run_tags (pmm_tag m) ts P = Some (fold ?f ts P, False)" by (rule run_tags_total)
  moreover have "fold ?f ts P = fold (\<lambda>(b, l). MarkRangeFree b l) (mmap_regions m ts) P" for P
    by (induction ts arbitrary: P) (auto simp: mmap_regions_def)
  ultimately show ?thesis
    using assms fold_regions [OF assms(2), of "mmap_regions m ts"]
    by (auto simp: mmap_wf_def mb2_walk_chain)
qed

lemma PMM_Start_ok:
  assumes "mmap_wf (ram M) mbi ts" "ks \<le> ke"
  shows "\<exists>M' P'. PMM_Start mbi ks ke (M, P) = Some (M', P') \<and> pmm_ok P' \<and> pmm_ready P'
    \<and> free_set P' = boot_pages (ram M) ts ks ke \<and> ram M' = ram M"
proof -
  from pmm_walk [OF assms(1) reserve_all_ok(1) [of P]] obtain P2 where
    w: "mb2_walk (ram M) (pmm_tag (ram M)) (mbi + 8) (reserve_all P) = Some (P2, False)"
    and P2: "boot_ok P2" "free_set P2 = ram_pages (mmap_regions (ram M) ts)"
    by (auto simp: reserve_all_ok(2))
  have u: "unat (ke - ks) = unat ke - unat ks" using assms(2) by (simp add: unat_sub)
  have u64: "unat (ucast (x :: u32) :: u64) = unat x" for x
    using unat_u32_less [of x] by (simp add: unsigned_ucast_eq take_bit_eq_mod)
  define P3 where "P3 = MarkRangeUsed (ucast ks) (ucast (ke - ks)) P2"
  have "unat ks + (unat ke - unat ks) < 2 ^ 44 - 4096"
    using assms(2) unat_u32_less [of ke] by (simp add: word_le_nat_alt)
  then have P3: "pmm_ok P3" "free_set P3 = free_set P2 - pages_touching (unat ks) (unat ke - unat ks)"
    using MarkRangeUsed_set [of P2 "ucast ks" "ucast (ke - ks)"] P2(1)
    by (simp_all add: P3_def u64 u boot_ok_def)
  have "pmm_ok (MarkRangeUsed 0 0x100000 P3)"
    "free_set (MarkRangeUsed 0 0x100000 P3) = free_set P3 - pages_touching 0 0x100000"
    using MarkRangeUsed_set [OF P3(1), of 0 "0x100000"] by simp_all
  then show ?thesis
    using assms(1) w P3 P2
    by (auto simp: PMM_Start_def Let_def mmap_wf_def boot_pages_def P3_def pmm_ok_def)
qed

end
