(* ===== verification/PMM_Contract.thy ===== *)
theory PMM_Contract
  imports PMM
begin

text \<open>
  What \<open>System::PMM\<close> promises: the states a kernel that frees only pages it was given can reach,
  the safety of every page handed out, and the two places where the code breaks the promise.
\<close>

section \<open>Reachable states\<close>

text \<open>\<open>owned\<close> is the set of pages handed out and not given back.\<close>

inductive pmm_reach :: "mach \<Rightarrow> u32 \<Rightarrow> u32 \<Rightarrow> u32 \<Rightarrow> pmm \<Rightarrow> u32 set \<Rightarrow> bool" for M mbi ks ke where
  start: "PMM_Start mbi ks ke (M, P0) = Some (M', P) \<Longrightarrow> pmm_reach M mbi ks ke P {}"
| alloc: "pmm_reach M mbi ks ke P owned \<Longrightarrow> AllocPage P = (a, P') \<Longrightarrow> a \<noteq> 0 \<Longrightarrow>
    pmm_reach M mbi ks ke P' (insert a owned)"
| alloc_fail: "pmm_reach M mbi ks ke P owned \<Longrightarrow> AllocPage P = (0, P') \<Longrightarrow>
    pmm_reach M mbi ks ke P' owned"
| free: "pmm_reach M mbi ks ke P owned \<Longrightarrow> a \<in> owned \<Longrightarrow>
    pmm_reach M mbi ks ke (FreePage a P) (owned - {a})"

definition pool_ok :: "u32 set \<Rightarrow> pmm \<Rightarrow> u32 set \<Rightarrow> bool" where
  "pool_ok R P owned \<longleftrightarrow> pmm_ok P \<and> pmm_ready P
     \<and> (\<exists>pages. owned = page_addr ` pages \<and> pages \<inter> free_set P = {} \<and> pages \<union> free_set P = R
          \<and> card pages \<le> unat (used_pages P))"

lemma page_addr_inj: "p < MAX_PAGES \<Longrightarrow> q < MAX_PAGES \<Longrightarrow> page_addr p = page_addr q \<longleftrightarrow> p = q"
  by (metis page_addr_div)

lemma boot_pages_bounds:
  assumes "p \<in> boot_pages m ts ks ke"
  shows "p < MAX_PAGES" "256 \<le> unat p" "page_addr p \<noteq> 0"
proof -
  from assms show p: "p < MAX_PAGES" "256 \<le> unat p"
    by (auto simp: boot_pages_def ram_pages_def pages_inside_def pages_touching_def)
  then show "page_addr p \<noteq> 0" using unat_page_addr [of p] by auto
qed

lemma pool_alloc:
  assumes "pool_ok R P owned" "AllocPage P = (a, P')" "\<And>p. p \<in> R \<Longrightarrow> p < MAX_PAGES \<and> page_addr p \<noteq> 0"
  shows "if a = 0 then pool_ok R P' owned \<and> free_set P = {}
    else pool_ok R P' (insert a owned) \<and> a \<notin> owned \<and> a \<in> page_addr ` R"
proof (cases "free_set P = {}")
  case True
  with assms show ?thesis by (auto simp: pool_ok_def AllocPage_empty)
next
  case False
  from assms(1) obtain pages where o: "owned = page_addr ` pages" "pages \<inter> free_set P = {}"
    "pages \<union> free_set P = R" "card pages \<le> unat (used_pages P)" "pmm_ok P" "pmm_ready P"
    by (auto simp: pool_ok_def)
  obtain p P'' where al: "AllocPage P = (page_addr p, P'')" "p \<in> free_set P" "free_set P'' = free_set P - {p}"
    "pmm_ok P''" "pmm_ready P''" "unat (used_pages P'') = unat (used_pages P) + 1"
    by (rule AllocPage_free [OF o(6,5) False]) auto
  from al assms(2) have e: "a = page_addr p" "P' = P''" by auto
  have pR: "p \<in> R" and pn: "p \<notin> pages" using al(2) o(2,3) by auto
  then have "page_addr p \<notin> owned"
    using assms(3) o(1,3) by (auto simp: page_addr_inj)
  moreover have "pool_ok R P'' (insert (page_addr p) owned)"
    unfolding pool_ok_def
    by (intro conjI exI [of _ "insert p pages"])
      (use o al pn in \<open>auto intro: le_trans [OF card_insert_le_m1]\<close>)
  ultimately show ?thesis using assms(3) [OF pR] pR by (auto simp: e)
qed

lemma pool_free:
  assumes "pool_ok R P owned" "a \<in> owned" "\<And>p. p \<in> R \<Longrightarrow> p < MAX_PAGES \<and> page_addr p \<noteq> 0"
  shows "pool_ok R (FreePage a P) (owned - {a})"
proof -
  from assms(1,2) obtain pages p where o: "owned = page_addr ` pages" "pages \<inter> free_set P = {}"
    "pages \<union> free_set P = R" "card pages \<le> unat (used_pages P)" "pmm_ok P" "pmm_ready P"
    and p: "a = page_addr p" "p \<in> pages" by (auto simp: pool_ok_def)
  have pm: "p < MAX_PAGES" "p \<notin> free_set P" using o p assms(3) by auto
  have "0 < card pages" using p(2) by (auto simp: card_gt_0_iff)
  with o(4) have "0 < used_pages P" by (simp add: word_less_nat_alt)
  note fr = FreePage_used [OF o(6,5) pm this]
  have "page_addr ` pages - {page_addr p} = page_addr ` (pages - {p})"
    using p o(3) assms(3) by (auto simp: page_addr_inj)
  then show ?thesis
    unfolding pool_ok_def
    by (intro conjI exI [of _ "pages - {p}"]) (use fr o p in auto)
qed

lemma pmm_reach_pool:
  assumes "mmap_wf (ram M) mbi ts" "ks \<le> ke"
  shows "pmm_reach M mbi ks ke P owned \<Longrightarrow> pool_ok (boot_pages (ram M) ts ks ke) P owned"
proof (induction rule: pmm_reach.induct)
  case (start P0 M' P)
  with PMM_Start_ok [OF assms, of P0] show ?case by (auto simp: pool_ok_def)
next
  case (alloc P owned a P')
  from pool_alloc [OF alloc(4,2)] alloc(3) boot_pages_bounds show ?case by fastforce
next
  case (alloc_fail P owned P')
  from pool_alloc [OF alloc_fail(3,2)] boot_pages_bounds show ?case by fastforce
next
  case (free P owned a)
  from pool_free [OF free(3,2)] boot_pages_bounds show ?case by fastforce
qed

text \<open>The closed instances: the sample block, kernel at 1 MiB, heap end at 6 MiB.\<close>

definition sample_mach :: mach where "sample_mach = blank\<lparr>ram := sample_ram\<rparr>"

lemma sample_ram [simp]: "ram sample_mach = sample_ram"
  by (simp add: sample_mach_def)

lemma sample_mmap_wf: "mmap_wf sample_ram sample_mbi sample_tags"
proof -
  have "\<forall>t \<in> set sample_tags. tag_type sample_ram t = MB2_TAG_MMAP \<longrightarrow> t = 0x9028"
    "mmap_entry_size sample_ram 0x9028 \<noteq> 0"
    by (simp_all add: sample_tags_def tag_type_def mmap_entry_size_def tag_codes sample_words_def)
  moreover have "mmap_regions sample_ram sample_tags = available sample_ram 0x9028"
    by (simp add: mmap_regions_def sample_tags_def tag_type_def tag_codes sample_words_def)
  moreover have "sample_mbi \<noteq> 0" by (simp add: sample_mbi_def)
  ultimately show ?thesis
    using sample_chain unfolding mmap_wf_def by (auto simp: sample_available)
qed

lemma sample_boot_pages:
  "boot_pages sample_ram sample_tags 0x100000 0x600000 = {p. 0x600 \<le> unat p \<and> unat p < 0x8000}"
  by (auto simp: boot_pages_def mmap_regions_def sample_tags_def tag_type_def tag_codes
      sample_words_def sample_available pages_inside_def pages_touching_def word_less_nat_alt)

section \<open>Properties\<close>

text \<open>C5: Start on a well-formed memory map returns; afterwards the free pages are exactly the pages
  that lie fully inside an available range, less those that touch the kernel image or the heap
  and those of the first MiB, and the counters agree with the bitmap and cover 4 GiB.\<close>

theorem pmm_start_pages:
  assumes "mmap_wf (ram M) mbi ts" "ks \<le> ke"
  shows "\<exists>M' P'. PMM_Start mbi ks ke (M, P) = Some (M', P') \<and> pmm_ready P'
    \<and> free_set P' = boot_pages (ram M) ts ks ke
    \<and> unat (free_pages P') = card (free_set P')
    \<and> unat (used_pages P') + unat (free_pages P') + unat (reserved_pages P') = 2 ^ 20"
  using PMM_Start_ok [OF assms, of P] by (auto simp: pmm_ok_def)

theorem pmm_start_pages_witness:
  "\<exists>M' P'. PMM_Start sample_mbi 0x100000 0x600000 (sample_mach, pmm0) = Some (M', P')
     \<and> free_set P' = {p. 0x600 \<le> unat p \<and> unat p < 0x8000}"
  using pmm_start_pages [of sample_mach sample_mbi sample_tags "0x100000" "0x600000" pmm0]
    sample_mmap_wf by (auto simp: sample_boot_pages)

text \<open>C12: AllocPage takes the lowest free page, marks exactly that page and moves one unit between
  the counters; it returns 0 and changes nothing exactly when no page is free.\<close>

theorem pmm_alloc_lowest:
  assumes "pmm_ready P" "pmm_ok P"
  shows "if free_set P = {} then AllocPage P = (0, P)
    else \<exists>p P'. AllocPage P = (p * PAGE_SIZE, P') \<and> p \<in> free_set P \<and> (\<forall>q \<in> free_set P. p \<le> q)
      \<and> free_set P' = free_set P - {p} \<and> pmm_ok P'
      \<and> unat (free_pages P') + 1 = unat (free_pages P) \<and> unat (used_pages P') = unat (used_pages P) + 1"
proof (cases "free_set P = {}")
  case True
  with assms show ?thesis by (simp add: AllocPage_empty)
next
  case False
  obtain p P' where al: "AllocPage P = (page_addr p, P')" "p \<in> free_set P" "\<forall>q \<in> free_set P. p \<le> q"
    "free_set P' = free_set P - {p}" "pmm_ok P'" "unat (used_pages P') = unat (used_pages P) + 1"
    by (rule AllocPage_free [OF assms False]) auto
  have "0 < card (free_set P)" using al(2) by (auto simp: card_gt_0_iff)
  with al assms(2) have "unat (free_pages P') + 1 = unat (free_pages P)"
    by (simp add: pmm_ok_def)
  with False al show ?thesis by (auto simp: page_addr_def)
qed

lemma sample_started:
  obtains M' P' where "PMM_Start sample_mbi 0x100000 0x600000 (sample_mach, pmm0) = Some (M', P')"
    "pmm_ok P'" "pmm_ready P'" "free_set P' = {p. 0x600 \<le> unat p \<and> unat p < 0x8000}"
  using PMM_Start_ok [of sample_mach sample_mbi sample_tags "0x100000" "0x600000" pmm0]
    sample_mmap_wf by (auto simp: sample_boot_pages)

theorem pmm_alloc_lowest_witness:
  "\<exists>P P'. pmm_ready P \<and> pmm_ok P \<and> free_set P = {p. 0x600 \<le> unat p \<and> unat p < 0x8000}
     \<and> AllocPage P = (0x600000, P')"
proof -
  obtain M' P where P: "pmm_ok P" "pmm_ready P" "free_set P = {p. 0x600 \<le> unat p \<and> unat p < 0x8000}"
    by (rule sample_started)
  have "(0x600 :: u32) \<in> free_set P" by (simp add: P(3))
  moreover from this have "free_set P \<noteq> {}" by blast
  ultimately obtain p P' where al: "AllocPage P = (p * PAGE_SIZE, P')" "p \<in> free_set P" "p \<le> 0x600"
    using pmm_alloc_lowest [OF P(2,1)] by auto
  then have "p = 0x600" by (simp add: P(3) word_le_nat_alt word_unat_eq_iff)
  with al P show ?thesis by (auto simp: PAGE_SIZE_def)
qed

text \<open>C14: as long as only pages that were handed out are given back, every page the kernel holds is
  page aligned, lies above 1 MiB, fully inside an available range of the memory map and
  outside the kernel image and the heap; no page is handed out twice, and none is lost.\<close>

theorem pmm_pages_safe:
  assumes "mmap_wf (ram M) mbi ts" "ks \<le> ke" "pmm_reach M mbi ks ke P owned"
  shows "(\<forall>a \<in> owned. 4096 dvd unat a \<and> 0x100000 \<le> unat a
      \<and> (unat a + 4096 \<le> unat ks \<or> unat ke \<le> unat a)
      \<and> (\<exists>(b, l) \<in> set (mmap_regions (ram M) ts). unat b \<le> unat a \<and> unat a + 4096 \<le> unat b + unat l))
    \<and> fst (AllocPage P) \<notin> owned
    \<and> card owned + unat (free_pages P) = card (boot_pages (ram M) ts ks ke)"
proof -
  let ?R = "boot_pages (ram M) ts ks ke"
  note pool = pmm_reach_pool [OF assms]
  have R: "p < MAX_PAGES \<and> page_addr p \<noteq> 0" if "p \<in> ?R" for p
    using boot_pages_bounds [OF that] by simp
  from pool obtain pages where o: "owned = page_addr ` pages" "pages \<inter> free_set P = {}"
    "pages \<union> free_set P = ?R" "pmm_ok P" by (auto simp: pool_ok_def)
  have "4096 dvd unat a \<and> 0x100000 \<le> unat a \<and> (unat a + 4096 \<le> unat ks \<or> unat ke \<le> unat a)
      \<and> (\<exists>(b, l) \<in> set (mmap_regions (ram M) ts). unat b \<le> unat a \<and> unat a + 4096 \<le> unat b + unat l)"
    if "a \<in> owned" for a
  proof -
    from that o obtain p where p: "a = page_addr p" "p \<in> ?R" by auto
    from boot_pages_bounds [OF p(2)] have u: "unat a = 4096 * unat p" "256 \<le> unat p" "p < MAX_PAGES"
      by (simp_all add: p(1) unat_page_addr)
    with p(2) assms(2) show ?thesis
      unfolding boot_pages_def ram_pages_def pages_inside_def pages_touching_def
      by (auto simp: word_le_nat_alt)
  qed
  moreover have "fst (AllocPage P) \<notin> owned"
    using pool_alloc [OF pool, of "fst (AllocPage P)" "snd (AllocPage P)"] R o
    by (auto split: if_splits)
  moreover have "card owned = card pages"
    unfolding o(1)
  proof (rule card_image, rule inj_onI)
    fix x y assume "x \<in> pages" "y \<in> pages" "page_addr x = page_addr y"
    moreover from this have "x \<in> ?R" "y \<in> ?R" using o(3) by auto
    ultimately show "x = y" using R page_addr_inj by blast
  qed
  moreover have "card ?R = card pages + card (free_set P)"
    using o(2,3) by (metis card_Un_disjoint finite)
  ultimately show ?thesis using o(4) by (simp add: pmm_ok_def)
qed

theorem pmm_pages_safe_witness:
  "\<exists>P. pmm_reach sample_mach sample_mbi 0x100000 0x600000 P {0x600000}
     \<and> card {0x600000 :: u32} + unat (free_pages P) = 0x7A00"
proof -
  obtain M' P where P: "PMM_Start sample_mbi 0x100000 0x600000 (sample_mach, pmm0) = Some (M', P)"
    "pmm_ok P" "pmm_ready P" "free_set P = {p. 0x600 \<le> unat p \<and> unat p < 0x8000}"
    by (rule sample_started)
  have m: "(0x600 :: u32) \<in> free_set P" by (simp add: P(4))
  then have ne: "free_set P \<noteq> {}" by blast
  obtain p P' where al: "AllocPage P = (page_addr p, P')" "p \<in> free_set P" "\<forall>q \<in> free_set P. p \<le> q"
    by (rule AllocPage_free [OF P(3,2) ne]) auto
  have "p \<le> 0x600" using al(3) m by blast
  with al(2) have "p = 0x600" by (simp add: P(4) word_le_nat_alt word_unat_eq_iff)
  with al have al: "AllocPage P = (0x600000, P')" by (simp add: page_addr_def PAGE_SIZE_def)
  have "pmm_reach sample_mach sample_mbi 0x100000 0x600000 P' (insert 0x600000 {})"
    by (rule pmm_reach.alloc [OF pmm_reach.start [OF P(1)] al]) simp
  moreover have "{p :: u32. 0x600 \<le> unat p \<and> unat p < 0x8000} = {0x600..<0x8000}"
    by (auto simp: word_le_nat_alt word_less_nat_alt)
  then have "card {p :: u32. 0x600 \<le> unat p \<and> unat p < 0x8000} = 0x7A00" by simp
  ultimately show ?thesis
    using pmm_pages_safe [of sample_mach sample_mbi sample_tags "0x100000" "0x600000" P' "{0x600000}"]
      sample_mmap_wf by (auto simp: sample_boot_pages)
qed

section \<open>Array bounds\<close>

definition bitmap_kept :: "pmm \<Rightarrow> pmm \<Rightarrow> bool" where
  "bitmap_kept P P' \<longleftrightarrow> (\<forall>i \<ge> BITMAP_BYTES. pmm_bitmap P' i = pmm_bitmap P i)"

lemma bitmap_kept_simps [simp]:
  "bitmap_kept P P" "bitmap_kept P (P'\<lparr>free_pages := a\<rparr>) = bitmap_kept P P'"
  "bitmap_kept P (P'\<lparr>used_pages := a\<rparr>) = bitmap_kept P P'"
  "bitmap_kept P (P'\<lparr>reserved_pages := a\<rparr>) = bitmap_kept P P'"
  "bitmap_kept P (P'\<lparr>pmm_ready := b\<rparr>) = bitmap_kept P P'"
  "p < MAX_PAGES \<Longrightarrow> bitmap_kept P (SetUsed p P') = bitmap_kept P P'"
  "p < MAX_PAGES \<Longrightarrow> bitmap_kept P (SetFree p P') = bitmap_kept P P'"
proof -
  assume p: "p < MAX_PAGES"
  have "drop_bit 3 p < BITMAP_BYTES"
    using p by (simp only: word_less_nat_alt unat_drop_3) auto
  then have "pmm_bitmap (SetUsed p P') i = pmm_bitmap P' i \<and> pmm_bitmap (SetFree p P') i = pmm_bitmap P' i"
    if "BITMAP_BYTES \<le> i" for i
    using that leD by (auto simp: SetUsed_def SetFree_def simp del: drop_bit_eq_div)
  then show "bitmap_kept P (SetUsed p P') = bitmap_kept P P'"
    "bitmap_kept P (SetFree p P') = bitmap_kept P P'"
    by (simp_all add: bitmap_kept_def)
qed (simp_all add: bitmap_kept_def)

lemma bitmap_kept_fold:
  assumes "set ps \<subseteq> {p. p < MAX_PAGES}" "bitmap_kept P P'"
  shows "bitmap_kept P (fold mark_free_page ps P')" "bitmap_kept P (fold mark_used_page ps P')"
  using assms
  by (induction ps arbitrary: P') (auto simp: mark_free_page_def mark_used_page_def Let_def)

lemma bitmap_kept_ranges:
  "bitmap_kept P P' \<Longrightarrow> bitmap_kept P (MarkRangeFree addr sz P')"
  "bitmap_kept P P' \<Longrightarrow> bitmap_kept P (MarkRangeUsed addr sz P')"
  by (simp_all only: MarkRangeFree_run MarkRangeUsed_run bitmap_kept_fold [OF page_run_sub])

lemma bitmap_kept_walk:
  assumes "mb2_walk m (pmm_tag m) a P1 = Some r" "bitmap_kept P P1"
  shows "bitmap_kept P (fst r)"
proof -
  have mm: "bitmap_kept P Q'" if "mmap_each m t MarkRangeFree Q = Some Q'" "bitmap_kept P Q" for t Q Q'
  proof -
    have "bitmap_kept P (fold (\<lambda>(b, l). MarkRangeFree b l) rs Q)" for rs
      using that(2) by (induction rs arbitrary: Q) (auto simp: bitmap_kept_ranges)
    moreover have "mmap_entry_size m t \<noteq> 0" using that(1) by (auto simp: mmap_each_def split: if_splits)
    ultimately show ?thesis using that(1) by (simp add: mmap_each_available) metis
  qed
  show ?thesis
    by (rule mb2_walk_invariant [OF assms(1), where I = "bitmap_kept P"])
      (auto simp: pmm_tag_def assms(2) split: if_splits option.splits dest: mm)
qed

text \<open>No operation writes outside the bitmap array, whatever ranges the memory map claims and
  whatever address is given to FreePage.\<close>

theorem pmm_bitmap_in_bounds:
  "bitmap_kept P (MarkRangeFree addr sz P) \<and> bitmap_kept P (MarkRangeUsed addr sz P)
   \<and> bitmap_kept P (snd (AllocPage P)) \<and> bitmap_kept P (FreePage a P)
   \<and> (case PMM_Start mbi ks ke (M, P) of None \<Rightarrow> True | Some (_, P') \<Rightarrow> bitmap_kept P P')"
proof -
  have "bitmap_kept P (snd (AllocPage P))"
  proof (cases "for_find (scan_byte P) 0 BITMAP_BYTES")
    case (Some p)
    from page_scan_Some [OF this] have "p < MAX_PAGES" by (auto simp: free_set_def)
    with Some show ?thesis by (simp add: AllocPage_def Let_def)
  qed (simp add: AllocPage_def)
  moreover have "bitmap_kept P (FreePage a P)"
    by (auto simp: FreePage_def Let_def not_le)
  moreover have "bitmap_kept P (reserve_all P)"
    by (auto simp: bitmap_kept_def reserve_all_bitmap dest: leD)
  ultimately show ?thesis
    by (auto simp: bitmap_kept_ranges PMM_Start_def Let_def split: option.splits
        dest: bitmap_kept_walk)
qed

section \<open>Where the promise breaks\<close>

text \<open>The page numbers of a range are cut to 32 bits before they are clipped: an available
  range of one page at 16 TiB frees page 0 of a fully reserved machine.\<close>

theorem pmm_range_truncates:
  "free_set (MarkRangeFree 0x100000000000 4096 (reserve_all P)) = {0}"
proof -
  have overflow: "(0x100000000 :: u32) = 0" "(0x100000001 :: u32) = 1" by simp_all
  have "page_run ((0x100000000000 + 4096 - 1) AND NOT (4096 - 1)) ((0x100000000000 + 4096) AND NOT (4096 - 1)) = [0]"
    using word_upt_rec [of 0 1] word_upt_rec [of 1 1] by (simp add: page_run_def MAX_PAGES_def overflow)
  then show ?thesis
    using fold_mark_free [of "[0]" "reserve_all P"] reserve_all_ok [of P]
    by (simp add: MarkRangeFree_run MAX_PAGES_def)
qed

text \<open>FreePage only checks that the bit is set, so a page that was reserved at start and never
  handed out is freed too: freeing address 0x1000 of any reachable state makes the next
  AllocPage hand out that page of the BIOS area.\<close>

theorem pmm_free_reserved_page:
  assumes "mmap_wf (ram M) mbi ts" "ks \<le> ke" "pmm_reach M mbi ks ke P owned"
  shows "fst (AllocPage (FreePage 0x1000 P)) = 0x1000 \<and> 0x1000 \<notin> owned"
proof -
  note pool = pmm_reach_pool [OF assms]
  then have P: "pmm_ready P" and sub: "free_set P \<subseteq> boot_pages (ram M) ts ks ke"
    by (auto simp: pool_ok_def)
  have low: "256 \<le> unat p" if "p \<in> free_set P" for p
    using sub that boot_pages_bounds(2) by blast
  have "1 \<notin> free_set P" using low by fastforce
  then have u: "IsUsed P 1" by (simp add: free_set_def MAX_PAGES_def)
  let ?P = "FreePage 0x1000 P"
  have fs: "free_set ?P = insert 1 (free_set P)" "pmm_ready ?P"
    using P u by (simp_all add: FreePage_def Let_def PAGE_SIZE_def MAX_PAGES_def word_le_nat_alt)
  then obtain p where p: "for_find (scan_byte ?P) 0 BITMAP_BYTES = Some p"
    using page_scan_None [of ?P] by (cases "for_find (scan_byte ?P) 0 BITMAP_BYTES") auto
  from page_scan_Some [OF p] fs(1) low have "p = 1 \<or> 256 \<le> unat p" "p \<le> 1" by auto
  then have "p = 1" by (auto simp: word_le_nat_alt)
  with p fs(2) have "fst (AllocPage ?P) = 0x1000"
    by (simp add: AllocPage_def Let_def PAGE_SIZE_def)
  moreover have "0x1000 \<notin> owned"
  proof
    assume "0x1000 \<in> owned"
    with pool obtain pages q where "q \<in> pages" "pages \<union> free_set P = boot_pages (ram M) ts ks ke"
      and q1: "0x1000 = page_addr q" unfolding pool_ok_def by blast
    then have q: "0x1000 = page_addr q" "q \<in> boot_pages (ram M) ts ks ke" by auto
    from q(1) have "unat (page_addr q) = unat (0x1000 :: u32)" by (rule arg_cong [OF sym])
    with boot_pages_bounds [OF q(2)] unat_page_addr [of q] show False by simp
  qed
  ultimately show ?thesis by simp
qed

theorem pmm_free_reserved_page_witness:
  "\<exists>P. pmm_reach sample_mach sample_mbi 0x100000 0x600000 P {}
     \<and> fst (AllocPage (FreePage 0x1000 P)) = 0x1000"
proof -
  obtain M' P where P: "PMM_Start sample_mbi 0x100000 0x600000 (sample_mach, pmm0) = Some (M', P)"
    by (rule sample_started)
  then have r: "pmm_reach sample_mach sample_mbi 0x100000 0x600000 P {}" by (rule pmm_reach.start)
  with pmm_free_reserved_page [OF _ _ r, of sample_tags] sample_mmap_wf show ?thesis by auto
qed

end
