(* ===== verification/Multiboot.thy ===== *)
theory Multiboot
  imports Boot_Info
begin

text \<open>
  \<open>System::Multiboot\<close> (src/src/src/classes/multiboot.class.h): what the kernel keeps of the boot
  information.  The parser is the tag walk of \<open>Boot_Info\<close> with one action per tag type; its
  specification says of every field which tags of the chain it is made of.
\<close>

record multiboot =
  mb_valid :: bool
  mem_lower :: u32
  mem_upper :: u32
  cmdline :: u32
  mmap_count :: u32
  mmap_total_available :: u64
  fb_addr :: u64
  fb_width :: u32
  fb_height :: u32
  fb_bpp :: u8
  fb_type :: u8

definition Multiboot_Reset :: "multiboot \<Rightarrow> multiboot" where
  "Multiboot_Reset B = B\<lparr>mb_valid := False, mem_lower := 0, mem_upper := 0, cmdline := 0,
     mmap_count := 0, mmap_total_available := 0, fb_addr := 0, fb_width := 0, fb_height := 0,
     fb_bpp := 0, fb_type := 0\<rparr>"

definition multiboot_tag :: "mem \<Rightarrow> u32 \<Rightarrow> multiboot \<Rightarrow> (multiboot \<times> bool) option" where
  "multiboot_tag m tag B =
     (let ty = tag_type m tag in
      if ty = MB2_TAG_CMDLINE then Some (B\<lparr>cmdline := tag + 8\<rparr>, False)
      else if ty = MB2_TAG_BASIC_MEMINFO
      then Some (B\<lparr>mem_lower := load32 m (tag + 8), mem_upper := load32 m (tag + 12)\<rparr>, False)
      else if ty = MB2_TAG_MMAP
      then map_option (\<lambda>B'. (B', False))
             (mmap_each m tag
               (\<lambda>_ len B. B\<lparr>mmap_total_available := mmap_total_available B + len\<rparr>)
               (B\<lparr>mmap_count := mmap_count_of m tag\<rparr>))
      else if ty = MB2_TAG_FRAMEBUFFER
      then Some (B\<lparr>fb_addr := load64 m (tag + 8), fb_width := load32 m (tag + 20),
             fb_height := load32 m (tag + 24), fb_bpp := m (tag + 28), fb_type := m (tag + 29)\<rparr>,
             False)
      else Some (B, False))"

text \<open>The report lines at the end.\<close>

definition multiboot_log :: "multiboot \<Rightarrow> mach \<Rightarrow> mach" where
  "multiboot_log B M =
     (let M1 = log_line [LStr ''> Multiboot: mem_lower(KiB)='', LInt (mem_lower B),
                 LStr '' mem_upper(KiB)='', LInt (mem_upper B)] M;
          M2 = log_line [LStr ''> Multiboot: mmap entries='', LInt (mmap_count B),
                 LStr '' available(MiB)~'',
                 LInt (ucast (mmap_total_available B div (1024 * 1024)))] M1;
          M3 = (if cmdline B \<noteq> 0
                then log_line [LStr ''> Multiboot: cmdline='', LPtr (cmdline B)] M2 else M2)
      in if fb_addr B \<noteq> 0
         then log_line [LStr ''> Multiboot: framebuffer '', LInt (fb_width B), LStr ''x'',
                LInt (fb_height B), LStr '' bpp='', LInt (ucast (fb_bpp B)),
                LStr '' type='', LInt (ucast (fb_type B))] M3
         else M3)"

definition Multiboot_Start :: "u32 \<Rightarrow> u32 \<Rightarrow> mach \<times> multiboot \<Rightarrow> (mach \<times> multiboot) option" where
  "Multiboot_Start magic mbi = (\<lambda>(M0, B0).
     let M = log_line [LStr ''> Parsing multiboot2 info''] M0;
         B = Multiboot_Reset B0
     in if magic \<noteq> MULTIBOOT2_BOOTLOADER_MAGIC
        then Some (log_line [LStr (''> [WARN] Multiboot2 magic mismatch '' @ em_dash
                     @ '' boot info unavailable'')] M, B)
        else if mbi = 0
        then Some (log_line [LStr ''> [WARN] Multiboot2 info pointer is null''] M, B)
        else case mb2_walk (ram M) (multiboot_tag (ram M)) (mbi + 8) (B\<lparr>mb_valid := True\<rparr>) of
            None \<Rightarrow> None
          | Some (B1, _) \<Rightarrow> Some (multiboot_log B1 M, B1))"

section \<open>What the fields are made of\<close>

definition tags_of :: "mem \<Rightarrow> u32 \<Rightarrow> u32 list \<Rightarrow> u32 list" where
  "tags_of m ty ts = filter (\<lambda>t. tag_type m t = ty) ts"

text \<open>The value of the last tag of a type, or a default.\<close>

definition last_of :: "mem \<Rightarrow> u32 \<Rightarrow> (u32 \<Rightarrow> 'a) \<Rightarrow> 'a \<Rightarrow> u32 list \<Rightarrow> 'a" where
  "last_of m ty f d ts = (if tags_of m ty ts = [] then d else f (last (tags_of m ty ts)))"

definition mmap_lengths :: "mem \<Rightarrow> u32 list \<Rightarrow> u64 list" where
  "mmap_lengths m ts = concat (map (\<lambda>t. map snd (available m t)) (tags_of m MB2_TAG_MMAP ts))"

definition multiboot_spec :: "mem \<Rightarrow> u32 list \<Rightarrow> multiboot \<Rightarrow> multiboot" where
  "multiboot_spec m ts B = B\<lparr>
     mem_lower := last_of m MB2_TAG_BASIC_MEMINFO (\<lambda>t. load32 m (t + 8)) (mem_lower B) ts,
     mem_upper := last_of m MB2_TAG_BASIC_MEMINFO (\<lambda>t. load32 m (t + 12)) (mem_upper B) ts,
     cmdline := last_of m MB2_TAG_CMDLINE (\<lambda>t. t + 8) (cmdline B) ts,
     mmap_count := last_of m MB2_TAG_MMAP (mmap_count_of m) (mmap_count B) ts,
     mmap_total_available := mmap_total_available B + sum_list (mmap_lengths m ts),
     fb_addr := last_of m MB2_TAG_FRAMEBUFFER (\<lambda>t. load64 m (t + 8)) (fb_addr B) ts,
     fb_width := last_of m MB2_TAG_FRAMEBUFFER (\<lambda>t. load32 m (t + 20)) (fb_width B) ts,
     fb_height := last_of m MB2_TAG_FRAMEBUFFER (\<lambda>t. load32 m (t + 24)) (fb_height B) ts,
     fb_bpp := last_of m MB2_TAG_FRAMEBUFFER (\<lambda>t. m (t + 28)) (fb_bpp B) ts,
     fb_type := last_of m MB2_TAG_FRAMEBUFFER (\<lambda>t. m (t + 29)) (fb_type B) ts\<rparr>"

lemma last_of_Nil [simp]: "last_of m ty f d [] = d"
  by (simp add: last_of_def tags_of_def)

lemma last_of_Cons [simp]:
  "last_of m ty f d (t # ts) = last_of m ty f (if tag_type m t = ty then f t else d) ts"
  by (simp add: last_of_def tags_of_def)

lemma mmap_lengths_simps [simp]:
  "mmap_lengths m [] = []"
  "mmap_lengths m (t # ts) = (if tag_type m t = MB2_TAG_MMAP then map snd (available m t) else [])
     @ mmap_lengths m ts"
  by (simp_all add: mmap_lengths_def tags_of_def)

lemma fold_total:
  "fold (\<lambda>(b, l) B. B\<lparr>mmap_total_available := mmap_total_available B + l\<rparr>) rs B
   = B\<lparr>mmap_total_available := mmap_total_available B + sum_list (map snd rs)\<rparr>"
  by (induction rs arbitrary: B) (auto simp: add.assoc)

definition faulty_mmap :: "mem \<Rightarrow> u32 \<Rightarrow> bool" where
  "faulty_mmap m t \<longleftrightarrow> tag_type m t = MB2_TAG_MMAP \<and> mmap_entry_size m t = 0"

lemma multiboot_tag_step:
  "multiboot_tag m t B = (if faulty_mmap m t then None else Some (multiboot_spec m [t] B, False))"
proof (cases "tag_type m t = MB2_TAG_MMAP \<and> mmap_entry_size m t \<noteq> 0")
  case True
  then show ?thesis
    by (auto simp: multiboot_tag_def Let_def faulty_mmap_def multiboot_spec_def mmap_each_available
        fold_total tag_codes)
next
  case False
  then show ?thesis
    by (auto simp: multiboot_tag_def Let_def faulty_mmap_def multiboot_spec_def mmap_each_def
        tag_codes)
qed

lemma multiboot_spec_Cons:
  "multiboot_spec m (t # ts) B = multiboot_spec m ts (multiboot_spec m [t] B)"
  by (auto simp: multiboot_spec_def add.assoc)

lemma multiboot_run:
  assumes "\<forall>t \<in> set ts. \<not> faulty_mmap m t"
  shows "run_tags (multiboot_tag m) ts B = Some (multiboot_spec m ts B, False)"
  using assms
proof (induction ts arbitrary: B)
  case Nil
  show ?case by (simp add: multiboot_spec_def)
next
  case (Cons t ts)
  then show ?case by (simp add: multiboot_tag_step multiboot_spec_Cons [of m t ts])
qed

section \<open>Properties\<close>

text \<open>C18: on a chain of tags whose memory maps have a non-zero entry size, Start returns with every
  field as the specification says: the sizes, the command line, the entry count and the frame
  buffer of the last tag of their type, and the available bytes summed over all maps.\<close>

theorem multiboot_start_fields:
  assumes "mbi \<noteq> 0" "tag_chain (ram M) (mbi + 8) ts" "\<forall>t \<in> set ts. \<not> faulty_mmap (ram M) t"
  shows "\<exists>M'. Multiboot_Start MULTIBOOT2_BOOTLOADER_MAGIC mbi (M, B)
    = Some (M', multiboot_spec (ram M) ts ((Multiboot_Reset B)\<lparr>mb_valid := True\<rparr>))"
  using assms by (simp add: Multiboot_Start_def Let_def mb2_walk_chain multiboot_run)

theorem multiboot_start_fields_witness:
  "\<forall>B. \<exists>M' B'. Multiboot_Start MULTIBOOT2_BOOTLOADER_MAGIC sample_mbi (blank\<lparr>ram := sample_ram\<rparr>, B)
     = Some (M', B') \<and> mb_valid B' \<and> mem_lower B' = 639 \<and> mem_upper B' = 130048
     \<and> cmdline B' = 0x9010 \<and> mmap_count B' = 2 \<and> mmap_total_available B' = 0x7F9FC00
     \<and> fb_width B' = 1024 \<and> fb_height B' = 768"
proof
  fix B
  have "\<forall>t \<in> set sample_tags. \<not> faulty_mmap sample_ram t"
    by (simp add: sample_tags_def faulty_mmap_def tag_type_def mmap_entry_size_def tag_codes
        sample_words_def)
  then show "\<exists>M' B'. Multiboot_Start MULTIBOOT2_BOOTLOADER_MAGIC sample_mbi (blank\<lparr>ram := sample_ram\<rparr>, B)
     = Some (M', B') \<and> mb_valid B' \<and> mem_lower B' = 639 \<and> mem_upper B' = 130048
     \<and> cmdline B' = 0x9010 \<and> mmap_count B' = 2 \<and> mmap_total_available B' = 0x7F9FC00
     \<and> fb_width B' = 1024 \<and> fb_height B' = 768"
    using multiboot_start_fields [of sample_mbi "blank\<lparr>ram := sample_ram\<rparr>" sample_tags B] sample_chain
    by (simp add: sample_mbi_def)
      (auto simp: multiboot_spec_def sample_tags_def tag_type_def tag_codes sample_words_def
        sample_available tag_size_def mmap_entry_size_def mmap_count_of_def Multiboot_Reset_def)
qed

text \<open>C39: with a valid magic and pointer, Start returns exactly when the tags form a chain that ends
  and no memory map has entry size 0: a cycle of tags hangs it, a zero entry size is a
  divide error.\<close>

theorem multiboot_start_returns_iff:
  "Multiboot_Start MULTIBOOT2_BOOTLOADER_MAGIC mbi (M, B) \<noteq> None \<longleftrightarrow>
     mbi = 0 \<or> (\<exists>ts. tag_chain (ram M) (mbi + 8) ts \<and> (\<forall>t \<in> set ts. \<not> faulty_mmap (ram M) t))"
proof -
  have "mb2_walk (ram M) (multiboot_tag (ram M)) (mbi + 8) B' \<noteq> None \<longleftrightarrow>
      (\<exists>ts. tag_chain (ram M) (mbi + 8) ts \<and> (\<forall>t \<in> set ts. \<not> faulty_mmap (ram M) t))" for B'
    by (rule mb2_walk_returns_iff) (auto simp: multiboot_tag_step split: if_splits)
  note walk = this [of "(Multiboot_Reset B)\<lparr>mb_valid := True\<rparr>"]
  have "Multiboot_Start MULTIBOOT2_BOOTLOADER_MAGIC mbi (M, B) \<noteq> None \<longleftrightarrow> mbi = 0
      \<or> mb2_walk (ram M) (multiboot_tag (ram M)) (mbi + 8) ((Multiboot_Reset B)\<lparr>mb_valid := True\<rparr>) \<noteq> None"
    by (simp add: Multiboot_Start_def Let_def split: option.split)
  then show ?thesis unfolding walk .
qed

theorem multiboot_start_returns_iff_witness:
  "\<forall>B. Multiboot_Start MULTIBOOT2_BOOTLOADER_MAGIC sample_mbi (blank\<lparr>ram := sample_ram\<rparr>, B) \<noteq> None"
proof -
  have "\<forall>t \<in> set sample_tags. \<not> faulty_mmap sample_ram t"
    by (simp add: sample_tags_def faulty_mmap_def tag_type_def mmap_entry_size_def tag_codes
        sample_words_def)
  with sample_chain show ?thesis
    using multiboot_start_returns_iff [of sample_mbi "blank\<lparr>ram := sample_ram\<rparr>"] by auto
qed

text \<open>A boot with the wrong magic, or without information, is survived: Start returns with
  \<open>valid\<close> false and every field 0, whatever the pointer is, and only logs.\<close>

theorem multiboot_start_rejects:
  assumes "magic \<noteq> MULTIBOOT2_BOOTLOADER_MAGIC \<or> mbi = 0"
  shows "\<exists>l. Multiboot_Start magic mbi (M, B) = Some (M\<lparr>klog := klog M @ l\<rparr>,
     \<lparr>mb_valid = False, mem_lower = 0, mem_upper = 0, cmdline = 0, mmap_count = 0,
      mmap_total_available = 0, fb_addr = 0, fb_width = 0, fb_height = 0, fb_bpp = 0, fb_type = 0\<rparr>)"
  using assms
  by (auto simp: Multiboot_Start_def Let_def Multiboot_Reset_def log_line_def)

theorem multiboot_start_rejects_witness:
  "\<exists>l. Multiboot_Start 0x1BADB002 0x9000 (blank, B) = Some (blank\<lparr>klog := klog blank @ l\<rparr>,
     \<lparr>mb_valid = False, mem_lower = 0, mem_upper = 0, cmdline = 0, mmap_count = 0,
      mmap_total_available = 0, fb_addr = 0, fb_width = 0, fb_height = 0, fb_bpp = 0, fb_type = 0\<rparr>)"
  by (rule multiboot_start_rejects) (simp add: MULTIBOOT2_BOOTLOADER_MAGIC_def)

text \<open>A tag whose size field is 0 (or above 0xFFFFFFF8) and that is not the END tag makes every
  walk over the tags run for ever once it is reached, Start among them.\<close>

theorem multiboot_zero_size_hangs:
  assumes "mbi \<noteq> 0" "tag_type (ram M) (mbi + 8) \<noteq> MB2_TAG_END"
    and "tag_size (ram M) (mbi + 8) = 0 \<or> 0xFFFFFFF8 < tag_size (ram M) (mbi + 8)"
  shows "Multiboot_Start MULTIBOOT2_BOOTLOADER_MAGIC mbi (M, B) = None"
proof -
  let ?s = "tag_size (ram M) (mbi + 8)"
  have "unat (?s + 7) < 8"
  proof (cases "?s = 0")
    case False
    with assms(3) have "0xFFFFFFF8 < unat ?s" "unat ?s < 2 ^ 32"
      using unat_u32_less [of ?s] by (simp_all add: word_less_nat_alt)
    moreover from this have "unat (?s + 7) = unat ?s + 7 - 2 ^ 32"
      by (simp add: unat_word_ariths le_mod_geq)
    ultimately show ?thesis by simp
  qed simp
  then have "unat ((?s + 7) AND NOT 7) = 0" by (simp only: unat_and_not_7) simp
  then have "(?s + 7) AND NOT 7 = 0" by (simp only: unat_eq_zero)
  then have "next_tag (ram M) (mbi + 8) = mbi + 8" unfolding next_tag_def by simp
  from no_chain_self [OF this assms(2)]
  have "mb2_walk (ram M) (multiboot_tag (ram M)) (mbi + 8) B' \<noteq> None \<longleftrightarrow> False" for B'
    by (subst mb2_walk_returns_iff [where bad = "faulty_mmap (ram M)"])
      (auto simp: multiboot_tag_step split: if_splits)
  then have "mb2_walk (ram M) (multiboot_tag (ram M)) (mbi + 8) B' = None" for B' by blast
  with assms(1) show ?thesis by (simp add: Multiboot_Start_def Let_def)
qed

theorem multiboot_zero_size_hangs_witness:
  "Multiboot_Start MULTIBOOT2_BOOTLOADER_MAGIC 0x9000 (blank\<lparr>ram := poke 0x9008 [2] (\<lambda>_. 0)\<rparr>, B) = None"
proof (rule multiboot_zero_size_hangs)
  show "tag_size (ram (blank\<lparr>ram := poke 0x9008 [2] (\<lambda>_. 0)\<rparr>)) (0x9000 + 8) = 0
      \<or> 0xFFFFFFF8 < tag_size (ram (blank\<lparr>ram := poke 0x9008 [2] (\<lambda>_. 0)\<rparr>)) (0x9000 + 8)"
    by (simp add: tag_size_def load32_def store32_def)
qed (simp_all add: tag_type_def tag_codes)

end
