(* ===== verification/Initrd.thy ===== *)
theory Initrd
  imports Boot_Info
begin

text \<open>
  \<open>System::Initrd\<close> (src/src/src/classes/initrd.class.h), the read-only ram disk, and the packer
  of its format (src/src/tools/mkinitrd.py).  The reader works on the bytes of the machine
  memory; the packer is a function on byte lists.  The main result is the round trip: what
  the packer wrote is what the kernel finds.
\<close>

section \<open>The reader\<close>

definition INITRD_MAGIC :: u32 where "INITRD_MAGIC = 0x53484952"
definition NAME_LEN :: u32 where "NAME_LEN = 32"
definition SIZEOF_ENTRY :: u32 where "SIZEOF_ENTRY = 40"

record initrd =
  ird_base :: u32
  ird_length :: u32
  file_count :: u32
  ird_entries :: u32
  ird_ready :: bool

definition initrd0 :: initrd where
  "initrd0 = \<lparr>ird_base = 0, ird_length = 0, file_count = 0, ird_entries = 0, ird_ready = False\<rparr>"

definition entry_size :: "mem \<Rightarrow> u32 \<Rightarrow> u32" where "entry_size m e = load32 m (e + 32)"
definition entry_offset :: "mem \<Rightarrow> u32 \<Rightarrow> u32" where "entry_offset m e = load32 m (e + 36)"

text \<open>The action on a tag: the first module with the right magic ends the walk.\<close>

definition initrd_tag :: "u32 \<Rightarrow> mach \<times> initrd \<Rightarrow> ((mach \<times> initrd) \<times> bool) option" where
  "initrd_tag tag = (\<lambda>(M, I).
     let m = ram M in
     if tag_type m tag = MB2_TAG_MODULE
     then let ms = mod_start m tag; me = mod_end m tag in
       if load32 m ms \<noteq> INITRD_MAGIC
       then Some ((log_line [LStr ''> [Initrd] module at '', LInt ms, LStr '' has bad magic''] M, I),
              False)
       else let I' = \<lparr>ird_base = ms, ird_length = me - ms, file_count = load32 m (ms + 4),
                       ird_entries = ms + 8, ird_ready = True\<rparr>
            in Some ((log_line [LStr ''> Initrd online: base='', LInt (ird_base I'), LStr '' files='',
                        LInt (file_count I'), LStr '' size='', LInt (ird_length I')] M, I'), True)
     else Some ((M, I), False))"

definition Initrd_Start :: "u32 \<Rightarrow> mach \<Rightarrow> (mach \<times> initrd) option" where
  "Initrd_Start mbi M =
     (if mbi = 0
      then Some (log_line [LStr (''> [Initrd] no multiboot info '' @ em_dash
             @ '' initrd disabled'')] M, initrd0)
      else case mb2_walk (ram M) initrd_tag (mbi + 8) (M, initrd0) of
          None \<Rightarrow> None
        | Some ((M', I), stop) \<Rightarrow>
            Some (if stop then M'
                  else if \<not> ird_ready I
                  then log_line [LStr ''> [Initrd] no MODULE tag found''] M' else M', I))"

definition Initrd_strncmp :: "mem \<Rightarrow> u32 \<Rightarrow> u32 \<Rightarrow> u32 \<Rightarrow> int" where
  "Initrd_strncmp m a b n =
     (case for_find (\<lambda>i. let ca = m (a + i); cb = m (b + i)
                         in if ca \<noteq> cb then Some (uint ca - uint cb)
                            else if ca = 0 then Some 0 else None) 0 n of
        Some r \<Rightarrow> r | None \<Rightarrow> 0)"

definition Initrd_Find :: "mem \<Rightarrow> u32 \<Rightarrow> initrd \<Rightarrow> u32" where
  "Initrd_Find m name I =
     (if \<not> ird_ready I then 0
      else case for_find (\<lambda>i. if Initrd_strncmp m (ird_entries I + i * SIZEOF_ENTRY) name NAME_LEN = 0
                              then Some (ird_entries I + i * SIZEOF_ENTRY) else None)
                  0 (file_count I) of
          Some e \<Rightarrow> e | None \<Rightarrow> 0)"

definition Initrd_Data :: "mem \<Rightarrow> u32 \<Rightarrow> initrd \<Rightarrow> u32" where
  "Initrd_Data m e I = (if \<not> ird_ready I \<or> e = 0 then 0 else ird_base I + entry_offset m e)"

definition Initrd_Count :: "initrd \<Rightarrow> u32" where
  "Initrd_Count I = (if ird_ready I then file_count I else 0)"

definition Initrd_EntryAt :: "u32 \<Rightarrow> initrd \<Rightarrow> u32" where
  "Initrd_EntryAt i I =
     (if \<not> ird_ready I \<or> file_count I \<le> i then 0 else ird_entries I + i * SIZEOF_ENTRY)"

section \<open>The packer\<close>

text \<open>
  A file is its encoded name and its bytes; \<open>os.listdir\<close> and \<open>encode\<close> are the caller's.  The
  output is a byte array of zeros that is overwritten in place; \<open>struct.pack\<close> fails on a
  number that does not fit in 32 bits.
\<close>

type_synonym rdfile = "u8 list \<times> u8 list"

definition pack_name :: "u8 list \<Rightarrow> u8 list" where
  "pack_name name = (let raw = take (32 - 1) name in raw @ replicate (32 - length raw) 0)"

definition pack_u32 :: "nat \<Rightarrow> u8 list option" where
  "pack_u32 n = (if n < 2 ^ 32 then Some (le32 (of_nat n)) else None)"

definition overwrite :: "u8 list \<Rightarrow> nat \<Rightarrow> u8 list \<Rightarrow> u8 list" where
  "overwrite out pos bs = take pos out @ bs @ drop (pos + length bs) out"

fun pack_offsets :: "nat \<Rightarrow> u8 list list \<Rightarrow> nat list \<times> nat" where
  "pack_offsets cursor [] = ([], cursor)"
| "pack_offsets cursor (p # ps) =
     (let (os, total) = pack_offsets (cursor + length p) ps in (cursor # os, total))"

fun pack_headers :: "u8 list \<Rightarrow> nat \<Rightarrow> (rdfile \<times> nat) list \<Rightarrow> u8 list option" where
  "pack_headers out pos [] = Some out"
| "pack_headers out pos (((name, payload), off) # fs) =
     (case (pack_u32 (length payload), pack_u32 off) of
        (Some s, Some o') \<Rightarrow>
          pack_headers (overwrite (overwrite out pos (pack_name name)) (pos + 32) (s @ o')) (pos + 32 + 8) fs
      | _ \<Rightarrow> None)"

fun pack_payloads :: "u8 list \<Rightarrow> (u8 list \<times> nat) list \<Rightarrow> u8 list" where
  "pack_payloads out [] = out"
| "pack_payloads out ((payload, off) # fs) = pack_payloads (overwrite out off payload) fs"

definition mkinitrd :: "rdfile list \<Rightarrow> u8 list option" where
  "mkinitrd files =
     (let header_size = 4 + 4 + length files * (32 + 4 + 4);
          (offsets, total_size) = pack_offsets header_size (map snd files);
          out = replicate total_size 0
      in case pack_u32 (length files) of
          None \<Rightarrow> None
        | Some n \<Rightarrow>
            map_option (\<lambda>out'. pack_payloads out' (zip (map snd files) offsets))
              (pack_headers (overwrite out 0 (le32 INITRD_MAGIC @ n)) 8 (zip files offsets)))"

section \<open>What the packer writes\<close>

fun entries_of :: "nat \<Rightarrow> rdfile list \<Rightarrow> u8 list" where
  "entries_of off [] = []"
| "entries_of off ((name, payload) # fs) =
     pack_name name @ le32 (of_nat (length payload)) @ le32 (of_nat off)
       @ entries_of (off + length payload) fs"

definition ird_image :: "rdfile list \<Rightarrow> u8 list" where
  "ird_image files = le32 INITRD_MAGIC @ le32 (of_nat (length files))
     @ entries_of (8 + length files * 40) files @ concat (map snd files)"

lemma length_pack_name [simp]: "length (pack_name n) = 32"
  by (simp add: pack_name_def Let_def)

lemma length_entries_of [simp]: "length (entries_of off fs) = 40 * length fs"
  by (induction off fs rule: entries_of.induct) auto

lemma overwrite_append:
  "length ys = length bs \<Longrightarrow> overwrite (xs @ ys @ zs) (length xs) bs = xs @ bs @ zs"
  by (simp add: overwrite_def)

lemma pack_offsets_total: "snd (pack_offsets c ps) = c + length (concat ps)"
  by (induction c ps rule: pack_offsets.induct) (auto split: prod.splits)

lemma fst_pack_offsets [simp]:
  "fst (pack_offsets c []) = []"
  "fst (pack_offsets c (p # ps)) = c # fst (pack_offsets (c + length p) ps)"
  by (simp_all split: prod.splits)

lemma split_entry:
  "length ys = 40 * Suc n \<Longrightarrow> \<exists>a b c. ys = a @ b @ c \<and> length a = 32 \<and> length b = 8 \<and> length c = 40 * n"
  by (intro exI [of _ "take 32 ys"] exI [of _ "take 8 (drop 32 ys)"] exI [of _ "drop 8 (drop 32 ys)"])
    (simp add: append_take_drop_id del: drop_drop)

lemma pack_headers_entries:
  assumes "off + length (concat (map snd fs)) < 2 ^ 32" "length ys = 40 * length fs"
  shows "pack_headers (xs @ ys @ zs) (length xs) (zip fs (fst (pack_offsets off (map snd fs))))
    = Some (xs @ entries_of off fs @ zs)"
  using assms
proof (induction off fs arbitrary: xs ys rule: entries_of.induct)
  case (2 off name payload fs)
  from 2(3) split_entry [of ys "length fs"] obtain y1 y2 y3 where ys: "ys = y1 @ y2 @ y3" "length y1 = 32" "length y2 = 8"
    "length y3 = 40 * length fs" by auto
  have "overwrite (xs @ ys @ zs) (length xs) (pack_name name) = xs @ pack_name name @ y2 @ y3 @ zs"
    using overwrite_append [of y1 "pack_name name" xs "y2 @ y3 @ zs"] ys by simp
  moreover have "overwrite (xs @ pack_name name @ y2 @ y3 @ zs) (length xs + 32)
      (le32 (of_nat (length payload)) @ le32 (of_nat off))
    = (xs @ pack_name name @ le32 (of_nat (length payload)) @ le32 (of_nat off)) @ y3 @ zs"
    using overwrite_append [of y2 "le32 (of_nat (length payload)) @ le32 (of_nat off)"
        "xs @ pack_name name" "y3 @ zs"] ys by simp
  moreover note 2(1) [of y3 "xs @ pack_name name @ le32 (of_nat (length payload)) @ le32 (of_nat off)"]
  ultimately show ?case
    using 2(2) ys(4) by (simp add: pack_u32_def add.commute del: pack_offsets.simps)
qed simp

lemma pack_payloads_concat: "length ys = length (concat ps) \<Longrightarrow>
     pack_payloads (xs @ ys) (zip ps (fst (pack_offsets (length xs) ps))) = xs @ concat ps"
proof (induction ps arbitrary: xs ys)
  case (Cons p ps)
  then obtain y1 y2 where ys: "ys = y1 @ y2" "length y1 = length p" "length y2 = length (concat ps)"
    using that [of "take (length p) ys" "drop (length p) ys"] by simp
  with Cons.IH [of y2 "xs @ p"] overwrite_append [of y1 p xs y2] show ?case
    by (simp del: pack_offsets.simps)
qed simp

lemma mkinitrd_image:
  assumes "8 + 40 * length files + length (concat (map snd files)) < 2 ^ 32"
  shows "mkinitrd files = Some (ird_image files)"
proof -
  let ?n = "length files" and ?c = "length (concat (map snd files))"
  let ?h = "le32 INITRD_MAGIC @ le32 (of_nat ?n)"
  have "overwrite (replicate (8 + ?n * 40 + ?c) 0) 0 ?h = ?h @ replicate (?n * 40) 0 @ replicate ?c 0"
    by (simp add: overwrite_def replicate_add [symmetric])
  moreover have "pack_headers (?h @ replicate (?n * 40) 0 @ replicate ?c 0) 8
      (zip files (fst (pack_offsets (8 + ?n * 40) (map snd files))))
    = Some (?h @ entries_of (8 + ?n * 40) files @ replicate ?c 0)"
    using pack_headers_entries [of "8 + ?n * 40" files "replicate (?n * 40) 0" ?h "replicate ?c 0"] assms
    by (simp add: mult.commute)
  moreover have "pack_payloads ((?h @ entries_of (8 + ?n * 40) files) @ replicate ?c 0)
      (zip (map snd files) (fst (pack_offsets (8 + ?n * 40) (map snd files))))
    = (?h @ entries_of (8 + ?n * 40) files) @ concat (map snd files)"
    using pack_payloads_concat [of "replicate ?c 0" "map snd files" "?h @ entries_of (8 + ?n * 40) files"]
    by (simp add: mult.commute)
  ultimately show ?thesis
    using assms pack_offsets_total [of "8 + ?n * 40" "map snd files"]
    by (auto simp: mkinitrd_def Let_def pack_u32_def ird_image_def split: prod.splits)
qed

section \<open>Comparing names\<close>

lemma bytes_at_nth: "bytes_at m a bs \<Longrightarrow> i < length bs \<Longrightarrow> m (a + of_nat i) = bs ! i"
  by (simp add: bytes_at_def)

lemma bytes_at_word:
  "bytes_at m a bs \<Longrightarrow> unat i < length bs \<Longrightarrow> m (a + i) = bs ! unat i"
  using bytes_at_nth [of m a bs "unat i"] by simp

text \<open>The comparison of a field that holds \<open>raw\<close>, padded, with a C string: 0 exactly on equality.\<close>

lemma Initrd_strncmp_eq:
  assumes a: "bytes_at m a (raw @ [0])" "0 \<notin> set raw" "length raw < 32"
    and q: "cstr_at m q s"
  shows "Initrd_strncmp m a q NAME_LEN = 0 \<longleftrightarrow> s = raw"
proof -
  let ?f = "\<lambda>i :: u32. let ca = m (a + i); cb = m (q + i)
    in if ca \<noteq> cb then Some (uint ca - uint cb) else if ca = 0 then Some 0 else None"
  have A: "m (a + i) = raw ! unat i" "raw ! unat i \<noteq> 0" if "unat i < length raw" for i
    using bytes_at_word [OF a(1), of i] that a(2) by (auto simp: nth_append) (metis nth_mem)
  have A0: "m (a + of_nat (length raw)) = 0"
    using bytes_at_nth [OF a(1), of "length raw"] by simp
  have B: "m (q + i) = s ! unat i" "s ! unat i \<noteq> 0" if "unat i < length s" for i
    using bytes_at_word [of m q "s @ [0]" i] that q by (auto simp: nth_append cstr_at_def) (metis nth_mem)
  have B0: "m (q + of_nat (length s)) = 0"
    using bytes_at_nth [of m q "s @ [0]" "length s"] q by (simp add: cstr_at_def)
  let ?k = "of_nat (length raw) :: u32"
  have k: "?k < NAME_LEN" "unat ?k = length raw"
    using a(3) by (simp_all add: NAME_LEN_def word_less_nat_alt)
  have res: "Initrd_strncmp m a q NAME_LEN = (case for_find ?f 0 NAME_LEN of Some r \<Rightarrow> r | None \<Rightarrow> 0)"
    by (simp add: Initrd_strncmp_def)
  show ?thesis
  proof
    assume eq: "s = raw"
    have "for_find ?f 0 NAME_LEN = Some 0"
    proof (rule for_find_first [of 0 ?k])
      show "?f ?k = Some 0" using A0 B0 by (simp add: eq)
      fix j :: u32 assume "j < ?k"
      then have "unat j < length raw" using k(2) by (simp add: word_less_nat_alt)
      with A [of j] B [of j] show "?f j = None" by (simp add: eq)
    qed (use k in simp_all)
    then show "Initrd_strncmp m a q NAME_LEN = 0" by (simp add: res)
  next
    assume z: "Initrd_strncmp m a q NAME_LEN = 0"
    have "for_find ?f 0 NAME_LEN \<noteq> None"
      using k(1) A0 by (auto simp: for_find_None Let_def intro!: exI [of _ ?k])
    with z have "for_find ?f 0 NAME_LEN = Some 0" by (auto simp: res)
    from for_find_Some [OF this] obtain j where j: "j < NAME_LEN" "?f j = Some 0"
      "\<forall>i < j. ?f i = None" by auto
    have same: "m (a + i) = m (q + i) \<and> m (a + i) \<noteq> 0" if "i < j" for i
      using j(3) that by (auto simp: Let_def split: if_splits)
    have zero: "m (a + j) = 0" "m (q + j) = 0"
      using j(2) by (auto simp: Let_def word_uint_eq_iff split: if_splits)
    have ua: "unat j = length raw"
    proof (rule linorder_cases [of "unat j" "length raw"])
      assume "length raw < unat j"
      then have "?k < j" using k(2) by (simp add: word_less_nat_alt)
      with same A0 show ?thesis by blast
    qed (use A [of j] zero in auto)
    have us: "unat j = length s"
    proof (rule linorder_cases [of "unat j" "length s"])
      assume l: "length s < unat j"
      then have "length s < 2 ^ 32" using unat_u32_less [of j] by simp
      with l have "of_nat (length s) < j" by (simp add: word_less_nat_alt)
      with same B0 show ?thesis by metis
    qed (use B [of j] zero in auto)
    show "s = raw"
    proof (rule nth_equalityI)
      fix i assume i: "i < length s"
      then have "of_nat i < j" "unat (of_nat i :: u32) = i"
        using us unat_u32_less [of j] by (simp_all add: word_less_nat_alt)
      with same [of "of_nat i"] A(1) [of "of_nat i"] B(1) [of "of_nat i"] i ua us show "s ! i = raw ! i"
        by simp
    qed (use ua us in simp)
  qed
qed

section \<open>The table in memory\<close>

definition file_name :: "rdfile \<Rightarrow> u8 list" where "file_name f = take 31 (fst f)"

definition entry_addr :: "u32 \<Rightarrow> nat \<Rightarrow> u32" where "entry_addr b i = b + 8 + of_nat (40 * i)"

lemma entries_of_append:
  "entries_of off (xs @ ys) = entries_of off xs @ entries_of (off + length (concat (map snd xs))) ys"
  by (induction off xs rule: entries_of.induct) (auto simp: add.assoc)

text \<open>What the image holds for the file after \<open>xs\<close>.\<close>

lemma ird_image_file:
  assumes "bytes_at m b (ird_image (xs @ (n, p) # ys))"
  defines "off \<equiv> 8 + length (xs @ (n, p) # ys) * 40 + length (concat (map snd xs))"
  shows "bytes_at m (entry_addr b (length xs)) (pack_name n)"
    "entry_size m (entry_addr b (length xs)) = of_nat (length p)"
    "entry_offset m (entry_addr b (length xs)) = of_nat off"
    "bytes_at m (b + of_nat off) p"
    "load32 m b = INITRD_MAGIC" "load32 m (b + 4) = of_nat (length (xs @ (n, p) # ys))"
proof -
  have e: "bytes_at m (b + of_nat 8) (entries_of (8 + length (xs @ (n, p) # ys) * 40) (xs @ (n, p) # ys))"
    and d: "bytes_at m (b + of_nat (8 + 40 * length (xs @ (n, p) # ys))) (concat (map snd (xs @ (n, p) # ys)))"
    and h: "bytes_at m b (le32 INITRD_MAGIC)" "bytes_at m (b + 4) (le32 (of_nat (length (xs @ (n, p) # ys))))"
    using assms(1) unfolding ird_image_def bytes_at_append by (simp_all add: ac_simps)
  from h show "load32 m b = INITRD_MAGIC" "load32 m (b + 4) = of_nat (length (xs @ (n, p) # ys))"
    by (simp_all only: load32_le32)
  from e have f: "bytes_at m (entry_addr b (length xs))
      (pack_name n @ le32 (of_nat (length p)) @ le32 (of_nat off))"
    unfolding entries_of_append bytes_at_append entries_of.simps off_def entry_addr_def
    by (simp add: ac_simps)
  then show "bytes_at m (entry_addr b (length xs)) (pack_name n)"
    "entry_size m (entry_addr b (length xs)) = of_nat (length p)"
    "entry_offset m (entry_addr b (length xs)) = of_nat off"
    by (simp_all add: entry_size_def entry_offset_def load32_le32 ac_simps)
  from d show "bytes_at m (b + of_nat off) p"
    unfolding off_def by (simp add: ac_simps)
qed

lemma pack_name_file: "pack_name n = take 31 n @ [0] @ replicate (31 - length n) 0"
proof (cases "length n \<le> 31")
  case True
  then have "32 - length n = Suc (31 - length n)" by simp
  with True show ?thesis by (simp add: pack_name_def Let_def)
qed (simp add: pack_name_def Let_def)

lemma entry_name_iff:
  assumes "bytes_at m b (ird_image (xs @ (n, p) # ys))" "0 \<notin> set n" "cstr_at m q s"
  shows "Initrd_strncmp m (entry_addr b (length xs)) q NAME_LEN = 0 \<longleftrightarrow> s = file_name (n, p)"
proof -
  have "bytes_at m (entry_addr b (length xs)) (take 31 n @ [0])"
    using ird_image_file(1) [OF assms(1)] unfolding pack_name_file by simp
  moreover have "0 \<notin> set (take 31 n)" using assms(2) by (meson in_set_takeD)
  ultimately show ?thesis
    unfolding file_name_def fst_conv by (rule Initrd_strncmp_eq) (use assms(3) in auto)
qed

definition mounted :: "mem \<Rightarrow> u32 \<Rightarrow> rdfile list \<Rightarrow> initrd \<Rightarrow> bool" where
  "mounted m b files I \<longleftrightarrow> ird_ready I \<and> ird_base I = b \<and> ird_entries I = b + 8
     \<and> file_count I = of_nat (length files) \<and> bytes_at m b (ird_image files)
     \<and> 0 < unat b \<and> unat b + length (ird_image files) \<le> 2 ^ 32 \<and> (\<forall>(n, p) \<in> set files. 0 \<notin> set n)"

lemma length_image: "length (ird_image files) = 8 + 40 * length files + length (concat (map snd files))"
  by (simp add: ird_image_def)

lemma mounted_count:
  assumes "mounted m b files I"
  shows "length files < 2 ^ 32" "unat (file_count I) = length files"
  using assms by (auto simp: mounted_def length_image)

lemma mounted_test:
  assumes "mounted m b files I" "cstr_at m q s" "i < length files"
  shows "Initrd_strncmp m (ird_entries I + of_nat i * SIZEOF_ENTRY) q NAME_LEN = 0
    \<longleftrightarrow> s = file_name (files ! i)"
proof -
  obtain n p where f: "files ! i = (n, p)" by (cases "files ! i")
  then have "files = take i files @ (n, p) # drop (Suc i) files"
    using id_take_nth_drop [OF assms(3)] by simp
  moreover have "(n, p) \<in> set files" using assms(3) f by (metis nth_mem)
  ultimately have "bytes_at m b (ird_image (take i files @ (n, p) # drop (Suc i) files))" "0 \<notin> set n"
    using assms(1) by (auto simp: mounted_def)
  from entry_name_iff [OF this assms(2)] assms(1,3) f show ?thesis
    by (simp add: entry_addr_def mounted_def SIZEOF_ENTRY_def min_def mult.commute)
qed

lemma Initrd_Find_first:
  assumes "mounted m b (xs @ f # ys) I" "cstr_at m q (file_name f)" "file_name f \<notin> file_name ` set xs"
  shows "Initrd_Find m q I = entry_addr b (length xs)"
proof -
  let ?g = "\<lambda>i :: u32. if Initrd_strncmp m (ird_entries I + i * SIZEOF_ENTRY) q NAME_LEN = 0
    then Some (ird_entries I + i * SIZEOF_ENTRY) else None"
  note c = mounted_count [OF assms(1)]
  note t = mounted_test [OF assms(1,2)]
  have "for_find ?g 0 (file_count I) = Some (ird_entries I + of_nat (length xs) * SIZEOF_ENTRY)"
  proof (rule for_find_first [where k = "of_nat (length xs)"])
    show "(of_nat (length xs) :: u32) < file_count I" using c by (simp add: word_less_nat_alt)
    show "?g (of_nat (length xs)) = Some (ird_entries I + of_nat (length xs) * SIZEOF_ENTRY)"
      using t [of "length xs"] by simp
    fix j :: u32 assume "j < of_nat (length xs)"
    then have j: "unat j < length xs" using c(1) by (simp add: word_less_nat_alt)
    with t [of "unat j"] assms(3) show "?g j = None" by (auto simp: nth_append)
  qed simp
  with assms(1) show ?thesis
    by (simp add: Initrd_Find_def mounted_def entry_addr_def SIZEOF_ENTRY_def mult.commute)
qed

lemma Initrd_Find_none:
  assumes "mounted m b files I" "cstr_at m q s" "s \<notin> file_name ` set files"
  shows "Initrd_Find m q I = 0"
proof -
  let ?g = "\<lambda>i :: u32. if Initrd_strncmp m (ird_entries I + i * SIZEOF_ENTRY) q NAME_LEN = 0
    then Some (ird_entries I + i * SIZEOF_ENTRY) else None"
  have "?g j = None" if "j < file_count I" for j
  proof -
    from that have "unat j < length files"
      using mounted_count(2) [OF assms(1)] by (simp add: word_less_nat_alt)
    with mounted_test [OF assms(1,2), of "unat j"] assms(3) show ?thesis by auto
  qed
  then have "for_find ?g 0 (file_count I) = None" by (simp add: for_find_None)
  then show ?thesis by (simp add: Initrd_Find_def)
qed

lemma entry_addr_nonzero:
  assumes "mounted m b (xs @ f # ys) I"
  shows "entry_addr b (length xs) \<noteq> 0"
proof -
  have "entry_addr b (length xs) = of_nat (unat b + 8 + 40 * length xs)" by (simp add: entry_addr_def)
  moreover have "unat b + 8 + 40 * length xs < 2 ^ 32"
    using assms by (simp add: mounted_def length_image)
  ultimately show ?thesis by (simp del: of_nat_add)
qed

lemma Initrd_Data_file:
  assumes "mounted m b (xs @ (n, p) # ys) I"
  shows "bytes_at m (Initrd_Data m (entry_addr b (length xs)) I) p"
    "entry_size m (entry_addr b (length xs)) = of_nat (length p)"
proof -
  have im: "bytes_at m b (ird_image (xs @ (n, p) # ys))" using assms by (simp add: mounted_def)
  from assms ird_image_file [OF im] entry_addr_nonzero [OF assms] show "bytes_at m (Initrd_Data m (entry_addr b (length xs)) I) p"
    "entry_size m (entry_addr b (length xs)) = of_nat (length p)"
    by (simp_all add: Initrd_Data_def mounted_def)
qed

section \<open>Start\<close>

lemma initrd_run:
  assumes "\<forall>u \<in> set us. tag_type (ram M) u = MB2_TAG_MODULE \<longrightarrow> load32 (ram M) (mod_start (ram M) u) \<noteq> INITRD_MAGIC"
    and "tag_type (ram M) t = MB2_TAG_MODULE" "load32 (ram M) (mod_start (ram M) t) = INITRD_MAGIC"
  shows "\<exists>M'. run_tags initrd_tag (us @ t # vs) (M, I0) = Some ((M', \<lparr>ird_base = mod_start (ram M) t,
      ird_length = mod_end (ram M) t - mod_start (ram M) t,
      file_count = load32 (ram M) (mod_start (ram M) t + 4),
      ird_entries = mod_start (ram M) t + 8, ird_ready = True\<rparr>), True) \<and> ram M' = ram M"
  using assms
proof (induction us arbitrary: M)
  case Nil
  then show ?case by (simp add: initrd_tag_def Let_def)
next
  case (Cons u us)
  define M1 where "M1 = (if tag_type (ram M) u = MB2_TAG_MODULE
    then log_line [LStr ''> [Initrd] module at '', LInt (mod_start (ram M) u), LStr '' has bad magic''] M else M)"
  have "initrd_tag u (M, I0) = Some ((M1, I0), False)" "ram M1 = ram M"
    using Cons.prems(1) by (auto simp: initrd_tag_def Let_def M1_def)
  with Cons.IH [of M1] Cons.prems show ?case by simp
qed

lemma Initrd_Start_module:
  assumes "mbi \<noteq> 0" "tag_chain (ram M) (mbi + 8) (us @ t # vs)"
    and "\<forall>u \<in> set us. tag_type (ram M) u = MB2_TAG_MODULE \<longrightarrow> load32 (ram M) (mod_start (ram M) u) \<noteq> INITRD_MAGIC"
    and "tag_type (ram M) t = MB2_TAG_MODULE" "load32 (ram M) (mod_start (ram M) t) = INITRD_MAGIC"
  shows "\<exists>M'. Initrd_Start mbi M = Some (M', \<lparr>ird_base = mod_start (ram M) t,
      ird_length = mod_end (ram M) t - mod_start (ram M) t,
      file_count = load32 (ram M) (mod_start (ram M) t + 4),
      ird_entries = mod_start (ram M) t + 8, ird_ready = True\<rparr>) \<and> ram M' = ram M"
  using initrd_run [OF assms(3-5), of vs initrd0] assms(1)
  by (auto simp: Initrd_Start_def mb2_walk_chain [OF assms(2)])

section \<open>Properties\<close>

text \<open>C9: round trip. If GRUB loaded what the packer produced as a module, and no earlier module has
  the magic, Start succeeds, and looking a packed file up by its (31 byte) name yields the
  entry with its size and a pointer to exactly its bytes.\<close>

theorem initrd_roundtrip:
  assumes chain: "mbi \<noteq> 0" "tag_chain (ram M) (mbi + 8) (us @ t # vs)"
    and first: "\<forall>u \<in> set us. tag_type (ram M) u = MB2_TAG_MODULE \<longrightarrow>
      load32 (ram M) (mod_start (ram M) u) \<noteq> INITRD_MAGIC"
    and module: "tag_type (ram M) t = MB2_TAG_MODULE" "mkinitrd (xs @ (n, p) # ys) = Some img"
      "bytes_at (ram M) (mod_start (ram M) t) img" "0 < unat (mod_start (ram M) t)"
      "unat (mod_start (ram M) t) + length img \<le> 2 ^ 32" "length img < 2 ^ 32"
    and names: "\<forall>(k, d) \<in> set (xs @ (n, p) # ys). 0 \<notin> set k"
      "length (ird_image (xs @ (n, p) # ys)) < 2 ^ 32" "file_name (n, p) \<notin> file_name ` set xs"
    and q: "cstr_at (ram M) q (file_name (n, p))"
  shows "\<exists>M' I e. Initrd_Start mbi M = Some (M', I) \<and> Initrd_Find (ram M') q I = e \<and> e \<noteq> 0
    \<and> entry_size (ram M') e = of_nat (length p) \<and> bytes_at (ram M') (Initrd_Data (ram M') e I) p"
proof -
  have img: "img = ird_image (xs @ (n, p) # ys)"
    using mkinitrd_image [of "xs @ (n, p) # ys"] names(2) module(2) by (simp add: length_image)
  let ?b = "mod_start (ram M) t"
  have magic: "load32 (ram M) ?b = INITRD_MAGIC"
    "load32 (ram M) (?b + 4) = of_nat (length (xs @ (n, p) # ys))"
    using ird_image_file(5,6) module(3) by (simp_all add: img)
  from Initrd_Start_module [OF chain first module(1) magic(1)] obtain M' I where
    st: "Initrd_Start mbi M = Some (M', I)" "ram M' = ram M"
    and I: "ird_ready I" "ird_base I = ?b" "ird_entries I = ?b + 8"
      "file_count I = of_nat (length (xs @ (n, p) # ys))"
    using magic(2) by auto
  have mt: "mounted (ram M) ?b (xs @ (n, p) # ys) I"
    using I module names(1) by (simp add: mounted_def img)
  let ?e = "entry_addr ?b (length xs)"
  from Initrd_Data_file [OF mt] Initrd_Find_first [OF mt q names(3)] entry_addr_nonzero [OF mt] st
  show ?thesis by auto
qed

text \<open>The closed instance: a disk of two files, placed at the module of the sample block.\<close>

definition sample_files :: "rdfile list" where
  "sample_files = [([97], [1, 2, 3]), ([98, 99], [7])]"

definition sample_disk :: mem where
  "sample_disk = sample_on (poke_bytes 0x200000 (ird_image sample_files) (poke_bytes 0x300000 [98, 99, 0] (\<lambda>_. 0)))"

lemma sample_disk_image: "bytes_at sample_disk 0x200000 (ird_image sample_files)"
  "bytes_at sample_disk 0x300000 [98, 99, 0]"
proof -
  have o: "sample_on m (of_nat x) = m (of_nat x)" if "0x200000 \<le> x" "x < 2 ^ 32" for m x
    using poke_other [of x "0x9000" sample_words m] that
    by (simp add: sample_on_def sample_mbi_def sample_words_def)
  have l: "length (ird_image sample_files) = 92" by (simp add: length_image sample_files_def)
  have "bytes_at sample_disk 0x200000 (ird_image sample_files) = bytes_at (poke_bytes 0x200000 (ird_image sample_files)
      (poke_bytes 0x300000 [98, 99, 0] (\<lambda>_. 0))) 0x200000 (ird_image sample_files)"
    using o [of "0x200000 + _"] by (intro bytes_at_cong) (simp add: sample_disk_def l)
  then show "bytes_at sample_disk 0x200000 (ird_image sample_files)"
    by (simp add: bytes_at_poke_bytes l)
  show "bytes_at sample_disk 0x300000 [98, 99, 0]"
    using o [of "0x300000"] o [of "0x300001"] o [of "0x300002"]
    by (simp add: sample_disk_def poke_bytes_def l)
qed

theorem initrd_roundtrip_witness:
  "\<exists>M' I e. Initrd_Start sample_mbi (blank\<lparr>ram := sample_disk\<rparr>) = Some (M', I)
     \<and> Initrd_Find (ram M') 0x300000 I = e \<and> e \<noteq> 0 \<and> entry_size (ram M') e = 1
     \<and> bytes_at (ram M') (Initrd_Data (ram M') e I) [7]"
proof -
  let ?M = "blank\<lparr>ram := sample_disk\<rparr>"
  have l: "length (ird_image sample_files) = 92" by (simp add: length_image sample_files_def)
  have f: "[([97], [1, 2, 3])] @ ([98, 99], [7]) # [] = sample_files" by (simp add: sample_files_def)
  have img: "mkinitrd sample_files = Some (ird_image sample_files)"
    by (rule mkinitrd_image) (simp add: sample_files_def)
  have chain: "tag_chain (ram ?M) (sample_mbi + 8) ([0x9008, 0x9018, 0x9028] @ 0x9068 # [0x9080])"
  proof -
    have "[0x9008, 0x9018, 0x9028] @ 0x9068 # [0x9080] = sample_tags" by (simp add: sample_tags_def)
    then show ?thesis using sample_chain by (simp only: sample_disk_def) simp
  qed
  have ms: "tag_type (ram ?M) 0x9068 = MB2_TAG_MODULE" "mod_start (ram ?M) 0x9068 = 0x200000"
    "\<forall>u \<in> set [0x9008, 0x9018, 0x9028]. tag_type (ram ?M) u \<noteq> MB2_TAG_MODULE"
    by (simp_all add: sample_disk_def tag_type_def mod_start_def tag_codes sample_words_def)
  show ?thesis
    using initrd_roundtrip [OF _ chain, of "[([97], [1, 2, 3])]" "[98, 99]" "[7]" "[]"
        "ird_image sample_files" "0x300000"] sample_disk_image ms img l
    unfolding f
    by (simp add: sample_mbi_def file_name_def cstr_at_def) (auto simp: sample_files_def)
qed

text \<open>A name that is not the 31-byte name of any packed file is not found. In particular a file
  packed under a name of 32 bytes or more is never found under that name.\<close>

theorem initrd_find_none:
  assumes "mounted m b files I" "cstr_at m q s" "s \<notin> file_name ` set files"
  shows "Initrd_Find m q I = 0 \<and> Initrd_Data m (Initrd_Find m q I) I = 0"
  using Initrd_Find_none [OF assms] by (simp add: Initrd_Data_def)

lemma sample_mounted:
  "mounted sample_disk 0x200000 sample_files \<lparr>ird_base = 0x200000, ird_length = 92, file_count = 2,
     ird_entries = 0x200008, ird_ready = True\<rparr>"
  using sample_disk_image(1) by (simp add: mounted_def length_image) (simp add: sample_files_def)

theorem initrd_find_none_witness:
  "Initrd_Find sample_disk 0x300001 \<lparr>ird_base = 0x200000, ird_length = 92, file_count = 2,
     ird_entries = 0x200008, ird_ready = True\<rparr> = 0"
proof -
  have "cstr_at sample_disk 0x300001 [99]"
    using sample_disk_image(2) by (simp add: cstr_at_def)
  with initrd_find_none [OF sample_mounted, of "0x300001" "[99]"] show ?thesis
    by (simp add: sample_files_def file_name_def)
qed

text \<open>Without boot information, or when no module carries the magic, the disk stays off: Start
  returns and every query answers null or 0.\<close>

theorem initrd_absent:
  assumes "mbi = 0 \<or> tag_chain (ram M) (mbi + 8) ts
    \<and> (\<forall>u \<in> set ts. tag_type (ram M) u = MB2_TAG_MODULE \<longrightarrow>
        load32 (ram M) (mod_start (ram M) u) \<noteq> INITRD_MAGIC)"
  shows "\<exists>M' I. Initrd_Start mbi M = Some (M', I) \<and> \<not> ird_ready I \<and> Initrd_Find m q I = 0
    \<and> Initrd_Data m e I = 0 \<and> Initrd_Count I = 0 \<and> Initrd_EntryAt i I = 0"
proof -
  have "\<exists>M'. run_tags initrd_tag ts (M, initrd0) = Some ((M', initrd0), False)"
    if "\<forall>u \<in> set ts. tag_type (ram M) u = MB2_TAG_MODULE \<longrightarrow>
        load32 (ram M) (mod_start (ram M) u) \<noteq> INITRD_MAGIC"
    using that
  proof (induction ts arbitrary: M)
    case (Cons t ts)
    then show ?case by (auto simp: initrd_tag_def Let_def)
  qed simp
  with assms obtain M' where "Initrd_Start mbi M = Some (M', initrd0)"
    by (cases "mbi = 0") (auto simp: Initrd_Start_def mb2_walk_chain)
  then show ?thesis
    by (intro exI [of _ M'] exI [of _ initrd0])
      (simp add: initrd0_def Initrd_Find_def Initrd_Data_def Initrd_Count_def Initrd_EntryAt_def)
qed

theorem initrd_absent_witness:
  "\<exists>M' I. Initrd_Start sample_mbi (blank\<lparr>ram := sample_ram\<rparr>) = Some (M', I) \<and> Initrd_Count I = 0"
proof -
  have "load32 (sample_on (\<lambda>_. 0)) (of_nat 0x200000) = load32 (\<lambda>_. 0) (of_nat 0x200000)"
  proof (rule load32_cong)
    fix k :: nat assume "k < 4"
    then show "sample_on (\<lambda>_. 0) (of_nat (0x200000 + k)) = (\<lambda>_. 0) (of_nat (0x200000 + k))"
      using poke_other [of "0x200000 + k" "0x9000" sample_words "\<lambda>_. 0"]
      by (simp add: sample_on_def sample_mbi_def sample_words_def)
  qed
  then have z: "load32 (sample_on (\<lambda>_. 0)) 0x200000 = 0" by (simp add: load32_def [of "\<lambda>_. 0"])
  have "\<forall>u \<in> set sample_tags. tag_type sample_ram u = MB2_TAG_MODULE \<longrightarrow>
      load32 sample_ram (mod_start sample_ram u) \<noteq> INITRD_MAGIC"
    using z by (simp add: sample_tags_def tag_type_def mod_start_def tag_codes sample_words_def INITRD_MAGIC_def)
  then have "sample_mbi = 0 \<or> tag_chain (ram (blank\<lparr>ram := sample_ram\<rparr>)) (sample_mbi + 8) sample_tags
    \<and> (\<forall>u \<in> set sample_tags. tag_type (ram (blank\<lparr>ram := sample_ram\<rparr>)) u = MB2_TAG_MODULE \<longrightarrow>
      load32 (ram (blank\<lparr>ram := sample_ram\<rparr>)) (mod_start (ram (blank\<lparr>ram := sample_ram\<rparr>)) u) \<noteq> INITRD_MAGIC)"
    using sample_chain by simp
  from initrd_absent [OF this, of _ 0 0 0] show ?thesis by blast
qed

end
