(* ===== verification/Descriptor_Tables.thy ===== *)
theory Descriptor_Tables
  imports Prelude
begin

text \<open>
  The two descriptor tables: \<open>System::GDT\<close> (src/src/src/classes/gdt.class.h) and \<open>System::IDT\<close>
  (src/src/src/classes/idt.class.h).  Entries are records with the fields of the packed
  structs; what the processor reads out of an entry (base, limit, rights) is defined
  separately, so that the round trip through \<open>SetGate\<close> is a statement about the encoding.
  The address of a table and of a handler \<open>isrN\<close> come from the linker and are parameters.
\<close>

unbundle bit_operations_syntax

section \<open>Segment descriptors\<close>

record gdt_entry =
  g_limit :: u16
  g_low :: u16
  g_middle :: u8
  g_access :: u8
  g_granularity :: u8
  g_high :: u8

definition gdt_null :: gdt_entry where
  "gdt_null = \<lparr>g_limit = 0, g_low = 0, g_middle = 0, g_access = 0, g_granularity = 0, g_high = 0\<rparr>"

record gdt =
  gdt_entries :: "gdt_entry list"
  gdt_ptr_limit :: u16
  gdt_ptr_base :: u32

definition gdt_encode :: "u32 \<Rightarrow> u32 \<Rightarrow> u8 \<Rightarrow> u8 \<Rightarrow> gdt_entry" where
  "gdt_encode base limit access gran =
     \<lparr>g_limit = ucast (limit AND 0xFFFF), g_low = ucast (base AND 0xFFFF),
      g_middle = ucast (drop_bit 16 base AND 0xFF), g_access = access,
      g_granularity = ucast (drop_bit 16 limit AND 0x0F) OR (gran AND 0xF0),
      g_high = ucast (drop_bit 24 base AND 0xFF)\<rparr>"

definition GDT_SetGate :: "nat \<Rightarrow> u32 \<Rightarrow> u32 \<Rightarrow> u8 \<Rightarrow> u8 \<Rightarrow> gdt \<Rightarrow> gdt" where
  "GDT_SetGate gate base limit access gran G =
     G\<lparr>gdt_entries := (gdt_entries G)[gate := gdt_encode base limit access gran]\<rparr>"

text \<open>\<open>GDTFlush\<close> loads the register with the address of the pointer structure.\<close>

definition GDT_Start :: "u32 \<Rightarrow> u32 \<Rightarrow> mach \<times> gdt \<Rightarrow> mach \<times> gdt" where
  "GDT_Start entries_addr ptr_addr = (\<lambda>(M, G).
     let G1 = G\<lparr>gdt_ptr_limit := 8 * 5 - 1, gdt_ptr_base := entries_addr\<rparr>;
         G2 = GDT_SetGate 0 0 0 0 0 G1;
         G3 = GDT_SetGate 1 0 0xFFFFFFFF 0x9A 0xCF G2;
         G4 = GDT_SetGate 2 0 0xFFFFFFFF 0x92 0xCF G3;
         G5 = GDT_SetGate 3 0 0xFFFFFFFF 0xFA 0xCF G4;
         G6 = GDT_SetGate 4 0 0xFFFFFFFF 0xF2 0xCF G5
     in (log_line [LStr ''> GDT loaded (5 entries: null, kernel CS/DS, user CS/DS)'']
           (M\<lparr>gdtr := ptr_addr\<rparr>), G6))"

text \<open>What the processor reads in a segment descriptor.\<close>

definition seg_base :: "gdt_entry \<Rightarrow> u32" where
  "seg_base e = ucast (g_low e) OR push_bit 16 (ucast (g_middle e)) OR push_bit 24 (ucast (g_high e))"

definition seg_limit :: "gdt_entry \<Rightarrow> u32" where
  "seg_limit e = ucast (g_limit e) OR push_bit 16 (ucast (g_granularity e AND 0x0F))"

definition seg_bytes :: "gdt_entry \<Rightarrow> nat" where
  "seg_bytes e = (if bit (g_granularity e) 7 then (unat (seg_limit e) + 1) * 4096
     else unat (seg_limit e) + 1)"

definition seg_present :: "gdt_entry \<Rightarrow> bool" where "seg_present e \<longleftrightarrow> bit (g_access e) 7"
definition seg_dpl :: "gdt_entry \<Rightarrow> u8" where "seg_dpl e = drop_bit 5 (g_access e) AND 3"
definition seg_code :: "gdt_entry \<Rightarrow> bool" where "seg_code e \<longleftrightarrow> bit (g_access e) 4 \<and> bit (g_access e) 3"
definition seg_writable :: "gdt_entry \<Rightarrow> bool" where
  "seg_writable e \<longleftrightarrow> bit (g_access e) 4 \<and> \<not> bit (g_access e) 3 \<and> bit (g_access e) 1"

lemma mask_int [simp]: "bit (15 :: int) n \<longleftrightarrow> n < 4" "bit (240 :: int) n \<longleftrightarrow> 4 \<le> n \<and> n < 8"
proof -
  have m: "(15 :: int) = mask 4" "(240 :: int) = push_bit 4 (mask 4)"
    by (simp_all add: mask_eq_exp_minus_1 push_bit_eq_mult)
  show "bit (15 :: int) n \<longleftrightarrow> n < 4" "bit (240 :: int) n \<longleftrightarrow> 4 \<le> n \<and> n < 8"
    unfolding m by (auto simp: bit_simps)
qed

lemma mask_u32: "(0xFFFF :: u32) = mask 16" "(0xFF :: u32) = mask 8" "(0x0F :: u32) = mask 4"
  by (simp_all add: mask_eq_exp_minus_1)

lemma seg_base_encode: "seg_base (gdt_encode base limit access gran) = base"
proof (rule bit_word_eqI)
  fix n assume "n < LENGTH(32)"
  then consider "n < 16" | "16 \<le> n" "n < 24" | "24 \<le> n" "n < 32" by fastforce
  then show "bit (seg_base (gdt_encode base limit access gran)) n = bit base n"
    by cases (auto simp: seg_base_def gdt_encode_def mask_u32 bit_simps)
qed

lemma seg_limit_encode: "seg_limit (gdt_encode base limit access gran) = take_bit 20 limit"
proof (rule bit_word_eqI)
  fix n assume "n < LENGTH(32)"
  then consider "n < 16" | "16 \<le> n" "n < 20" | "20 \<le> n" "n < 32" by fastforce
  then show "bit (seg_limit (gdt_encode base limit access gran)) n = bit (take_bit 20 limit) n"
    by cases (auto simp: seg_limit_def gdt_encode_def mask_u32 bit_simps)
qed

lemma gran_encode: "g_granularity (gdt_encode base limit access gran) AND 0xF0 = gran AND 0xF0"
  by (rule bit_word_eqI) (auto simp: gdt_encode_def mask_u32 bit_simps)

section \<open>Interrupt gates\<close>

record idt_entry =
  i_base_lo :: u16
  i_sel :: u16
  i_always0 :: u8
  i_flags :: u8
  i_base_hi :: u16

definition idt_null :: idt_entry where
  "idt_null = \<lparr>i_base_lo = 0, i_sel = 0, i_always0 = 0, i_flags = 0, i_base_hi = 0\<rparr>"

record idt =
  idt_entries :: "idt_entry list"
  idt_ptr_limit :: u16
  idt_ptr_base :: u32

definition idt_encode :: "u32 \<Rightarrow> u16 \<Rightarrow> u8 \<Rightarrow> idt_entry" where
  "idt_encode base sel flags =
     \<lparr>i_base_lo = ucast (base AND 0xFFFF), i_sel = sel, i_always0 = 0, i_flags = flags,
      i_base_hi = ucast (drop_bit 16 base AND 0xFFFF)\<rparr>"

definition IDT_SetGate :: "u8 \<Rightarrow> u32 \<Rightarrow> u16 \<Rightarrow> u8 \<Rightarrow> idt \<Rightarrow> idt" where
  "IDT_SetGate num base sel flags I =
     I\<lparr>idt_entries := (idt_entries I)[unat num := idt_encode base sel flags]\<rparr>"

text \<open>The 48 calls of \<open>SetGate\<close> with \<open>isr0\<close> to \<open>isr47\<close>, after the table is zeroed.\<close>

definition IDT_Start :: "u32 \<Rightarrow> u32 \<Rightarrow> (nat \<Rightarrow> u32) \<Rightarrow> mach \<times> idt \<Rightarrow> mach \<times> idt" where
  "IDT_Start entries_addr ptr_addr isr = (\<lambda>(M, I).
     let I1 = I\<lparr>idt_ptr_limit := 8 * 256 - 1, idt_ptr_base := entries_addr,
                idt_entries := replicate 256 idt_null\<rparr>;
         I2 = fold (\<lambda>n. IDT_SetGate (of_nat n) (isr n) 0x08 0x8E) [0..<48] I1
     in (log_line [LStr ''> IDT loaded with 48 vectors (0..31 exceptions, 32..47 IRQs)'']
           (M\<lparr>idtr := ptr_addr\<rparr>), I2))"

text \<open>What the processor reads in a gate.\<close>

definition gate_offset :: "idt_entry \<Rightarrow> u32" where
  "gate_offset e = ucast (i_base_lo e) OR push_bit 16 (ucast (i_base_hi e))"

definition gate_present :: "idt_entry \<Rightarrow> bool" where "gate_present e \<longleftrightarrow> bit (i_flags e) 7"

text \<open>Type 0xE is a 32-bit interrupt gate: the processor clears IF on entry.\<close>

definition gate_interrupt32 :: "idt_entry \<Rightarrow> bool" where
  "gate_interrupt32 e \<longleftrightarrow> i_flags e AND 0x1F = 0x0E"

definition gate_dpl :: "idt_entry \<Rightarrow> u8" where "gate_dpl e = drop_bit 5 (i_flags e) AND 3"

lemma gate_offset_encode: "gate_offset (idt_encode base sel flags) = base"
proof (rule bit_word_eqI)
  fix n assume "n < LENGTH(32)"
  then consider "n < 16" | "16 \<le> n" "n < 32" by fastforce
  then show "bit (gate_offset (idt_encode base sel flags)) n = bit base n"
    by cases (auto simp: gate_offset_def idt_encode_def mask_u32 bit_simps)
qed

lemma IDT_fold:
  assumes "\<forall>n \<in> set ns. n < 256" "distinct ns" "length (idt_entries I) = 256"
  shows "length (idt_entries (fold (\<lambda>n. IDT_SetGate (of_nat n) (isr n) s f) ns I)) = 256
    \<and> (\<forall>v < 256. idt_entries (fold (\<lambda>n. IDT_SetGate (of_nat n) (isr n) s f) ns I) ! v =
         (if v \<in> set ns then idt_encode (isr v) s f else idt_entries I ! v))"
  using assms
proof (induction ns arbitrary: I)
  case (Cons n ns)
  have u: "unat (of_nat n :: u8) = n" using Cons.prems(1) by (simp add: unat_of_nat take_bit_eq_mod)
  have "length (idt_entries (IDT_SetGate (of_nat n) (isr n) s f I)) = 256"
    using Cons.prems(3) by (simp add: IDT_SetGate_def)
  with Cons.IH [of "IDT_SetGate (of_nat n) (isr n) s f I"] Cons.prems u show ?case
    by (auto simp: IDT_SetGate_def nth_list_update)
qed simp

lemma IDT_Start_gates:
  "\<exists>M' I'. IDT_Start a p isr (M, I) = (M', I') \<and> idtr M' = p \<and> idt_ptr_base I' = a
    \<and> length (idt_entries I') = 256 \<and> unat (idt_ptr_limit I') + 1 = 8 * 256
    \<and> (\<forall>v < 48. let e = idt_entries I' ! v in gate_offset e = isr v \<and> i_sel e = 8
         \<and> gate_present e \<and> gate_interrupt32 e \<and> gate_dpl e = 0 \<and> i_always0 e = 0)
    \<and> (\<forall>v < 256. 48 \<le> v \<longrightarrow> idt_entries I' ! v = idt_null \<and> \<not> gate_present (idt_entries I' ! v))"
proof -
  define I1 where "I1 = I\<lparr>idt_ptr_limit := 8 * 256 - 1, idt_ptr_base := a, idt_entries := replicate 256 idt_null\<rparr>"
  define I2 where "I2 = fold (\<lambda>n. IDT_SetGate (of_nat n) (isr n) 0x08 0x8E) [0..<48] I1"
  have sel: "idt_ptr_limit (fold (\<lambda>n. IDT_SetGate (of_nat n) (isr n) 0x08 0x8E) ns J) = idt_ptr_limit J
      \<and> idt_ptr_base (fold (\<lambda>n. IDT_SetGate (of_nat n) (isr n) 0x08 0x8E) ns J) = idt_ptr_base J" for ns J
    by (induction ns arbitrary: J) (auto simp: IDT_SetGate_def)
  have f: "length (idt_entries I2) = 256"
    "\<forall>v < 256. idt_entries I2 ! v = (if v < 48 then idt_encode (isr v) 0x08 0x8E else idt_null)"
    using IDT_fold [of "[0..<48]" I1 isr "0x08" "0x8E"] by (auto simp: I2_def I1_def)
  have "IDT_Start a p isr (M, I) = (log_line [LStr ''> IDT loaded with 48 vectors (0..31 exceptions, 32..47 IRQs)'']
      (M\<lparr>idtr := p\<rparr>), I2)" by (simp add: IDT_Start_def Let_def I2_def I1_def)
  moreover have "idt_ptr_base I2 = a" "unat (idt_ptr_limit I2) + 1 = 8 * 256"
    using sel [of "[0..<48]" I1] by (simp_all add: I2_def I1_def)
  moreover have "gate_present (idt_encode b s 0x8E)" "gate_interrupt32 (idt_encode b s 0x8E)"
    "gate_dpl (idt_encode b s 0x8E) = 0" "\<not> gate_present idt_null" for b s
    by (simp_all add: gate_present_def gate_interrupt32_def gate_dpl_def idt_encode_def idt_null_def)
  moreover have "i_sel (idt_encode b s g) = s" "i_always0 (idt_encode b s g) = 0" for b s g
    by (simp_all add: idt_encode_def)
  ultimately show ?thesis using f by (simp add: Let_def gate_offset_encode)
qed

section \<open>Properties\<close>

text \<open>Round trip through a segment descriptor: the processor reads back the base, the low 20 bits
  of the limit, the access byte and the flags that SetGate was given, and no other entry of
  the table changes.\<close>

theorem gdt_gate_roundtrip:
  assumes "gate < length (gdt_entries G)"
  shows "let G' = GDT_SetGate gate base limit access gran G; e = gdt_entries G' ! gate in
    seg_base e = base \<and> seg_limit e = take_bit 20 limit \<and> g_access e = access
    \<and> g_granularity e AND 0xF0 = gran AND 0xF0
    \<and> (\<forall>i. i \<noteq> gate \<longrightarrow> gdt_entries G' ! i = gdt_entries G ! i)
    \<and> length (gdt_entries G') = length (gdt_entries G)"
  using assms
  by (simp add: Let_def GDT_SetGate_def seg_base_encode seg_limit_encode gran_encode)
    (simp add: gdt_encode_def)

definition gdt_zero :: gdt where
  "gdt_zero = \<lparr>gdt_entries = replicate 5 gdt_null, gdt_ptr_limit = 0, gdt_ptr_base = 0\<rparr>"

theorem gdt_gate_roundtrip_witness:
  "seg_base (gdt_entries (GDT_SetGate 1 0x12345678 0xFFFFF 0x9A 0xC0 gdt_zero) ! 1) = 0x12345678"
  using gdt_gate_roundtrip [of 1 gdt_zero "0x12345678" "0xFFFFF" "0x9A" "0xC0"]
  by (simp add: gdt_zero_def Let_def)

text \<open>After Start the table is the flat model: a null entry, then present code and data segments of
  base 0 covering exactly 4 GiB, for the kernel (level 0, selectors 8 and 16) and for user
  mode (level 3).\<close>

theorem gdt_start_flat:
  assumes "length (gdt_entries G) = 5"
  shows "\<exists>M' G'. GDT_Start a p (M, G) = (M', G') \<and> gdtr M' = p \<and> gdt_ptr_base G' = a
    \<and> unat (gdt_ptr_limit G') + 1 = 8 * length (gdt_entries G') \<and> gdt_entries G' ! 0 = gdt_null
    \<and> (\<forall>i \<in> {1, 2, 3, 4}. let e = gdt_entries G' ! i in
         seg_present e \<and> seg_base e = 0 \<and> seg_bytes e = 2 ^ 32
         \<and> seg_dpl e = (if i \<le> 2 then 0 else 3) \<and> seg_code e = odd i \<and> seg_writable e = even i)"
proof -
  from assms obtain a0 a1 a2 a3 a4 where "gdt_entries G = [a0, a1, a2, a3, a4]"
    by (auto simp: numeral_eq_Suc length_Suc_conv)
  then show ?thesis
    by (auto simp: GDT_Start_def GDT_SetGate_def Let_def seg_present_def seg_base_encode seg_bytes_def
        seg_limit_encode seg_dpl_def seg_code_def seg_writable_def gdt_null_def)
      (auto simp: gdt_encode_def bit_simps)
qed

theorem gdt_start_flat_witness:
  "\<exists>M' G'. GDT_Start 0x1000 0x2000 (blank, gdt_zero) = (M', G') \<and> seg_bytes (gdt_entries G' ! 1) = 2 ^ 32"
  using gdt_start_flat [of gdt_zero "0x1000" "0x2000" blank] by (auto simp: gdt_zero_def Let_def)

text \<open>After Start each vector below 48 is a present, kernel-only 32-bit interrupt gate to its own
  handler in the kernel code segment; every other vector is the not-present null entry.\<close>

theorem idt_start_gates:
  "\<exists>M' I'. IDT_Start a p isr (M, I) = (M', I') \<and> idtr M' = p \<and> idt_ptr_base I' = a
    \<and> length (idt_entries I') = 256 \<and> unat (idt_ptr_limit I') + 1 = 8 * 256
    \<and> (\<forall>v < 48. let e = idt_entries I' ! v in gate_offset e = isr v \<and> i_sel e = 8
         \<and> gate_present e \<and> gate_interrupt32 e \<and> gate_dpl e = 0 \<and> i_always0 e = 0)
    \<and> (\<forall>v < 256. 48 \<le> v \<longrightarrow> idt_entries I' ! v = idt_null \<and> \<not> gate_present (idt_entries I' ! v))"
  by (rule IDT_Start_gates)

theorem idt_start_gates_witness:
  "\<exists>M' I'. IDT_Start 0x1000 0x2000 (\<lambda>n. of_nat (0x3000 + 16 * n)) (blank,
      \<lparr>idt_entries = [], idt_ptr_limit = 0, idt_ptr_base = 0\<rparr>) = (M', I')
     \<and> gate_offset (idt_entries I' ! 32) = 0x3200"
proof -
  obtain M' I' where s: "IDT_Start 0x1000 0x2000 (\<lambda>n. of_nat (0x3000 + 16 * n)) (blank,
      \<lparr>idt_entries = [], idt_ptr_limit = 0, idt_ptr_base = 0\<rparr>) = (M', I')"
    "\<forall>v < 48. let e = idt_entries I' ! v in gate_offset e = of_nat (0x3000 + 16 * v)"
    using idt_start_gates [of "0x1000" "0x2000" "\<lambda>n. of_nat (0x3000 + 16 * n)" blank
        "\<lparr>idt_entries = [], idt_ptr_limit = 0, idt_ptr_base = 0\<rparr>"] unfolding Let_def by blast
  from s(2) have "gate_offset (idt_entries I' ! 32) = of_nat (0x3000 + 16 * 32)"
    by (auto simp: Let_def)
  with s(1) show ?thesis by auto
qed

end
