(* ===== verification/Paging.thy ===== *)
theory Paging
  imports Prelude
begin

text \<open>
  \<open>System::Paging\<close> (src/src/src/classes/paging.class.h): the identity mapping of the whole
  address space by 4 MiB pages.  The page directory is a static array of the kernel; its
  address, which goes to CR3, is a parameter.  \<open>translate\<close> is the documented walk of the
  processor over a directory of 4 MiB entries; it does not belong to the kernel.
\<close>

unbundle bit_operations_syntax

section \<open>The kernel's part\<close>

definition PDE_PRESENT :: u32 where "PDE_PRESENT = 0x001"
definition PDE_RW :: u32 where "PDE_RW = 0x002"
definition PDE_USER :: u32 where "PDE_USER = 0x004"
definition PDE_PS :: u32 where "PDE_PS = 0x080"

lemmas pde_flags = PDE_PRESENT_def PDE_RW_def PDE_USER_def PDE_PS_def

record paging =
  directory :: "u32 list"
  paging_ready :: bool

definition paging0 :: paging where
  "paging0 = \<lparr>directory = replicate 1024 0, paging_ready = False\<rparr>"

definition pde_of :: "u32 \<Rightarrow> u32" where
  "pde_of i = (let phys = i * 0x00400000 in phys OR PDE_PRESENT OR PDE_RW OR PDE_PS)"

definition Paging_Start :: "u32 \<Rightarrow> mach \<times> paging \<Rightarrow> mach \<times> paging" where
  "Paging_Start dir_addr = (\<lambda>(M0, P0).
     let M = log_line [LStr ''> Setting up identity-mapped paging (PSE / 4 MiB pages)''] M0;
         P = for_loop (\<lambda>i P. P\<lparr>directory := (directory P)[unat i := pde_of i]\<rparr>) 0 1024 P0;
         M1 = M\<lparr>cr4 := cr4 M OR 0x00000010\<rparr>;
         M2 = M1\<lparr>cr3 := dir_addr\<rparr>;
         M3 = M2\<lparr>cr0 := cr0 M2 OR 0x80000000\<rparr>
     in (log_line [LStr ''> Paging enabled (CR0.PG=1, CR4.PSE=1)''] M3, P\<lparr>paging_ready := True\<rparr>))"

definition Paging_IsEnabled :: "mach \<Rightarrow> paging \<Rightarrow> bool" where
  "Paging_IsEnabled M P \<longleftrightarrow> paging_ready P \<and> cr0 M AND 0x80000000 \<noteq> 0"

section \<open>The processor's part\<close>

datatype access = Read | Write

text \<open>
  The directory of the walk is the one at CR3; \<open>None\<close> is a page fault.  An entry without the
  PS flag, or without CR4.PSE, would need a page table, which this kernel has not: it is
  taken for a fault as well.
\<close>

definition translate :: "mach \<Rightarrow> (u32 \<Rightarrow> u32 list) \<Rightarrow> access \<Rightarrow> u32 \<Rightarrow> u32 option" where
  "translate M dir_at acc va =
     (if \<not> bit (cr0 M) 31 then Some va
      else let pde = dir_at (cr3 M) ! unat (drop_bit 22 va) in
        if \<not> bit pde 0 \<or> \<not> bit pde 7 \<or> \<not> bit (cr4 M) 4 then None
        else if acc = Write \<and> bit (cr0 M) 16 \<and> \<not> bit pde 1 then None
        else Some ((pde AND 0xFFC00000) OR (va AND 0x003FFFFF)))"

lemma directory_loop:
  "distinct is \<Longrightarrow> directory (fold (\<lambda>i P. P\<lparr>directory := (directory P)[unat i := pde_of i]\<rparr>) is P)
     = map (\<lambda>k. if k \<in> unat ` set is then pde_of (of_nat k) else directory P ! k) [0..<length (directory P)]"
proof (induction "is" arbitrary: P)
  case Nil
  then show ?case by (simp add: map_nth)
next
  case (Cons i "is")
  then show ?case
    by (auto simp: nth_list_update intro!: map_cong)
qed

lemma unat_word_upt: "unat ` set (word_upt 0 n) = {..<unat n}"
proof -
  have "k \<in> unat ` {0..<n}" if "k < unat n" for k
  proof
    have "k < 2 ^ 32" using that unat_u32_less [of n] by simp
    with that show "k = unat (of_nat k :: u32)" "of_nat k \<in> {0..<n}"
      by (simp_all add: word_less_nat_alt)
  qed
  then show ?thesis by (auto simp: word_less_nat_alt)
qed

lemma Paging_Start_directory:
  assumes "length (directory P) = 1024"
  shows "directory (snd (Paging_Start a (M, P))) = map (\<lambda>k. pde_of (of_nat k)) [0..<1024]"
proof -
  have "directory (snd (Paging_Start a (M, P))) = directory
      (fold (\<lambda>i P. P\<lparr>directory := (directory P)[unat i := pde_of i]\<rparr>) (word_upt 0 1024) P)"
    by (simp add: Paging_Start_def Let_def for_loop_fold)
  also have "\<dots> = map (\<lambda>k. pde_of (of_nat k)) [0..<1024]"
    by (subst directory_loop) (simp_all add: unat_word_upt assms del: set_word_upt)
  finally show ?thesis .
qed

lemma bit_exp_u32: "bit ((2 :: u32) ^ k) n \<longleftrightarrow> n = k \<and> n < 32"
  by (auto simp: bit_exp_iff possible_bit_word)

lemma bit_pde_of:
  "n < 32 \<Longrightarrow> bit (pde_of i) n \<longleftrightarrow> (22 \<le> n \<and> bit i (n - 22)) \<or> n = 0 \<or> n = 1 \<or> n = 7"
proof -
  assume n: "n < 32"
  have "i * 0x400000 = push_bit 22 i" by (simp add: push_bit_eq_mult mult.commute)
  moreover have e: "PDE_PRESENT = 2 ^ 0" "PDE_RW = 2 ^ 1" "PDE_PS = 2 ^ 7" by (simp_all add: pde_flags)
  have "bit PDE_PRESENT n \<longleftrightarrow> n = 0" "bit PDE_RW n \<longleftrightarrow> n = 1" "bit PDE_PS n \<longleftrightarrow> n = 7"
    unfolding e bit_exp_u32 using n by auto
  ultimately show ?thesis using n by (auto simp: pde_of_def Let_def bit_or_iff bit_push_bit_iff possible_bit_word)
qed

lemma bit_or_exp: "bit (w OR 2 ^ k :: u32) n \<longleftrightarrow> bit w n \<or> n = k \<and> n < 32"
  by (simp only: bit_or_iff bit_exp_u32)

lemma exps: "(0x80000000 :: u32) = 2 ^ 31" "(0x10 :: u32) = 2 ^ 4"
  by simp_all

lemma page_masks: "(0xFFC00000 :: u32) = NOT (mask 22)" "(0x003FFFFF :: u32) = mask 22"
  by (simp_all add: mask_eq_exp_minus_1)

lemma pde_identity: "(pde_of (drop_bit 22 va) AND 0xFFC00000) OR (va AND 0x003FFFFF) = va"
proof (rule bit_word_eqI)
  fix n assume n: "n < LENGTH(32)"
  then show "bit ((pde_of (drop_bit 22 va) AND 0xFFC00000) OR (va AND 0x003FFFFF)) n = bit va n"
    unfolding page_masks by (auto simp: bit_simps bit_pde_of)
qed

lemma Paging_Start_identity:
  assumes "length (directory P) = 1024" "Paging_Start a (M, P) = (M', P')" "dir_at a = directory P'"
  shows "Paging_IsEnabled M' P' \<and> translate M' dir_at acc va = Some va"
proof -
  let ?i = "unat (drop_bit 22 va)"
  have "unat va < 2 ^ 32" by (rule unat_u32_less)
  then have i: "?i < 1024" by (simp add: drop_bit_eq_div unat_div)
  have M': "cr0 M' = cr0 M OR 0x80000000" "cr4 M' = cr4 M OR 0x10" "cr3 M' = a" "paging_ready P'"
    using assms(2) by (auto simp: Paging_Start_def Let_def)
  have b: "bit (cr0 M') 31" "bit (cr4 M') 4"
    unfolding M' exps by (simp_all only: bit_or_exp) simp_all
  have "directory P' ! ?i = pde_of (of_nat ?i)"
    using Paging_Start_directory [OF assms(1), of a M] assms(2) i by simp
  then have d: "dir_at (cr3 M') ! ?i = pde_of (drop_bit 22 va)"
    using M'(3) assms(3) by simp
  have "bit (cr0 M' AND 2 ^ 31) 31"
    using b(1) by (simp only: bit_and_iff bit_exp_u32) simp
  then have "cr0 M' AND 0x80000000 \<noteq> 0" unfolding exps by (metis bit_0_eq bot_apply bot_bool_def)
  moreover have p: "bit (pde_of (drop_bit 22 va)) 0" "bit (pde_of (drop_bit 22 va)) 7"
    "bit (pde_of (drop_bit 22 va)) 1" by (simp_all add: bit_pde_of)
  have "translate M' dir_at acc va = Some va"
    unfolding translate_def Let_def d by (simp only: b p pde_identity simp_thms if_False if_True)
  ultimately show ?thesis using M'(4) by (simp add: Paging_IsEnabled_def)
qed

section \<open>Properties\<close>

text \<open>After Start paging is on with the kernel's directory, and every address of the 4 GiB is mapped
  to itself for reading and for writing, so that every pointer the kernel holds keeps its
  meaning.\<close>

theorem paging_identity:
  assumes "length (directory P) = 1024" "Paging_Start a (M, P) = (M', P')" "dir_at a = directory P'"
  shows "Paging_IsEnabled M' P' \<and> translate M' dir_at acc va = Some va"
  by (rule Paging_Start_identity [where a = a and M = M and P = P]) (rule assms)+

theorem paging_identity_witness:
  "\<exists>M' P'. Paging_Start 0x5000 (blank, paging0) = (M', P') \<and> Paging_IsEnabled M' P'
     \<and> translate M' (\<lambda>_. directory P') Write 0xB8000 = Some 0xB8000"
proof -
  obtain M' P' where "Paging_Start 0x5000 (blank, paging0) = (M', P')"
    by (cases "Paging_Start 0x5000 (blank, paging0)")
  with paging_identity [OF _ this, of "\<lambda>_. directory P'" Write "0xB8000"] show ?thesis
    by (auto simp: paging0_def)
qed

text \<open>Start changes nothing else of the machine: memory, ports, and every other bit of the control
  registers.\<close>

theorem paging_start_frame:
  "let M' = fst (Paging_Start a (M, P)) in
     ram M' = ram M \<and> io M' = io M \<and> cr2 M' = cr2 M \<and> if_flag M' = if_flag M
     \<and> gdtr M' = gdtr M \<and> idtr M' = idtr M
     \<and> (\<forall>n. n \<noteq> 31 \<longrightarrow> bit (cr0 M') n = bit (cr0 M) n) \<and> (\<forall>n. n \<noteq> 4 \<longrightarrow> bit (cr4 M') n = bit (cr4 M) n)"
proof -
  have "bit (cr0 M OR 0x80000000) n = bit (cr0 M) n" if "n \<noteq> 31" for n
    unfolding exps(1) using that by (simp only: bit_or_exp) simp
  moreover have "bit (cr4 M OR 0x10) n = bit (cr4 M) n" if "n \<noteq> 4" for n
    unfolding exps(2) using that by (simp only: bit_or_exp) simp
  ultimately show ?thesis by (simp add: Paging_Start_def Let_def)
qed

theorem paging_start_frame_witness:
  "\<not> bit (cr0 (fst (Paging_Start 0x5000 (blank, paging0)))) 0"
  using paging_start_frame [of "0x5000" blank paging0] by (simp add: Let_def) (simp add: blank_def)

end
