(* ===== verification/PIC.thy ===== *)
theory PIC
  imports Prelude
begin

text \<open>
  \<open>System::PIC\<close> (src/src/src/classes/pic.class.h): programming of the two 8259A interrupt
  controllers.  The operations are sequences of port accesses; what they mean is stated
  against a model of the chips, a state machine over the history of port accesses (the
  documented initialisation sequence ICW1 to ICW4 and the mask register).  That a read of
  the data port returns the mask register is the hypothesis \<open>pic_wired\<close> on the devices.
\<close>

unbundle bit_operations_syntax

section \<open>The driver\<close>

definition PIC1_CMD :: u16 where "PIC1_CMD = 0x20"
definition PIC1_DATA :: u16 where "PIC1_DATA = 0x21"
definition PIC2_CMD :: u16 where "PIC2_CMD = 0xA0"
definition PIC2_DATA :: u16 where "PIC2_DATA = 0xA1"
definition PIC_EOI :: u8 where "PIC_EOI = 0x20"
definition ICW1_INIT :: u8 where "ICW1_INIT = 0x10"
definition ICW1_ICW4 :: u8 where "ICW1_ICW4 = 0x01"
definition ICW4_8086 :: u8 where "ICW4_8086 = 0x01"

lemmas pic_consts = PIC1_CMD_def PIC1_DATA_def PIC2_CMD_def PIC2_DATA_def PIC_EOI_def ICW1_INIT_def
  ICW1_ICW4_def ICW4_8086_def

definition PIC_Remap :: "u8 \<Rightarrow> u8 \<Rightarrow> mach \<Rightarrow> mach" where
  "PIC_Remap master_offset slave_offset M0 =
     (let (mask_master, M1) = inb PIC1_DATA M0;
          (mask_slave, M2) = inb PIC2_DATA M1;
          M3 = outb PIC1_CMD (ICW1_INIT OR ICW1_ICW4) M2;
          M4 = outb PIC2_CMD (ICW1_INIT OR ICW1_ICW4) M3;
          M5 = outb PIC1_DATA master_offset M4;
          M6 = outb PIC2_DATA slave_offset M5;
          M7 = outb PIC1_DATA 0x04 M6;
          M8 = outb PIC2_DATA 0x02 M7;
          M9 = outb PIC1_DATA ICW4_8086 M8;
          M10 = outb PIC2_DATA ICW4_8086 M9;
          M11 = outb PIC1_DATA mask_master M10
      in outb PIC2_DATA mask_slave M11)"

definition PIC_Start :: "mach \<Rightarrow> mach" where
  "PIC_Start M =
     outb PIC2_DATA 0xFF (outb PIC1_DATA 0xFF (PIC_Remap 0x20 0x28
       (log_line [LStr ''> Remapping PIC: master=0x20, slave=0x28''] M)))"

text \<open>
  The shift is on \<open>int\<close>; for a line number of 40 or more it is undefined in C (the model gives
  the mathematical shift), and the 16 lines of the two chips never get there.
\<close>

definition irq_port :: "u8 \<Rightarrow> u16 \<times> u8" where
  "irq_port irq = (if irq < 8 then (PIC1_DATA, irq) else (PIC2_DATA, irq - 8))"

definition PIC_Unmask :: "u8 \<Rightarrow> mach \<Rightarrow> mach" where
  "PIC_Unmask irq M =
     (let (port, b) = irq_port irq;
          (v, M1) = inb port M
      in outb port (ucast ((ucast v :: u32) AND NOT (push_bit (unat b) 1))) M1)"

definition PIC_Mask :: "u8 \<Rightarrow> mach \<Rightarrow> mach" where
  "PIC_Mask irq M =
     (let (port, b) = irq_port irq;
          (v, M1) = inb port M
      in outb port (ucast ((ucast v :: u32) OR push_bit (unat b) 1)) M1)"

definition PIC_EndOfInterrupt :: "u8 \<Rightarrow> mach \<Rightarrow> mach" where
  "PIC_EndOfInterrupt irq M =
     outb PIC1_CMD PIC_EOI (if 8 \<le> irq then outb PIC2_CMD PIC_EOI M else M)"

section \<open>The chips\<close>

datatype stage = Idle | Wait2 | Wait3 | Wait4

record chip =
  chip_stage :: stage
  chip_icw4 :: bool
  chip_offset :: u8
  chip_imr :: u8
  chip_eois :: nat

definition chip_cmd :: "u8 \<Rightarrow> chip \<Rightarrow> chip" where
  "chip_cmd v c =
     (if bit v 4 then c\<lparr>chip_stage := Wait2, chip_icw4 := bit v 0, chip_imr := 0\<rparr>
      else if v = 0x20 then c\<lparr>chip_eois := Suc (chip_eois c)\<rparr> else c)"

definition chip_data :: "u8 \<Rightarrow> chip \<Rightarrow> chip" where
  "chip_data v c = (case chip_stage c of
       Idle \<Rightarrow> c\<lparr>chip_imr := v\<rparr>
     | Wait2 \<Rightarrow> c\<lparr>chip_offset := v, chip_stage := Wait3\<rparr>
     | Wait3 \<Rightarrow> c\<lparr>chip_stage := if chip_icw4 c then Wait4 else Idle\<rparr>
     | Wait4 \<Rightarrow> c\<lparr>chip_stage := Idle\<rparr>)"

fun pic_event :: "io_event \<Rightarrow> chip \<times> chip \<Rightarrow> chip \<times> chip" where
  "pic_event (Out p v) (c1, c2) =
     (if p = 0x20 then (chip_cmd v c1, c2) else if p = 0x21 then (chip_data v c1, c2)
      else if p = 0xA0 then (c1, chip_cmd v c2) else if p = 0xA1 then (c1, chip_data v c2)
      else (c1, c2))"
| "pic_event (In p v) cs = cs"

definition pic_state :: "chip \<times> chip \<Rightarrow> io_event list \<Rightarrow> chip \<times> chip" where
  "pic_state c0 h = fold pic_event h c0"

definition pics :: "chip \<times> chip \<Rightarrow> mach \<Rightarrow> chip \<times> chip" where
  "pics c0 M = pic_state c0 (io M)"

text \<open>Outside an initialisation, the data ports read the mask registers.\<close>

definition pic_wired :: "chip \<times> chip \<Rightarrow> mach \<Rightarrow> bool" where
  "pic_wired c0 M \<longleftrightarrow> (\<forall>h. case pic_state c0 h of (c1, c2) \<Rightarrow>
     (chip_stage c1 = Idle \<longrightarrow> dev M h 0x21 = chip_imr c1)
     \<and> (chip_stage c2 = Idle \<longrightarrow> dev M h 0xA1 = chip_imr c2))"

text \<open>Both chips accept masks: no initialisation is under way.\<close>

definition pic_idle :: "chip \<times> chip \<Rightarrow> mach \<Rightarrow> bool" where
  "pic_idle c0 M \<longleftrightarrow> chip_stage (fst (pics c0 M)) = Idle \<and> chip_stage (snd (pics c0 M)) = Idle"

lemma pics_outb [simp]: "pics c0 (outb p v M) = pic_event (Out p v) (pics c0 M)"
  by (simp add: pics_def pic_state_def)

lemma inb_simps [simp]:
  "fst (inb p M) = dev M (io M) p" "pics c0 (snd (inb p M)) = pics c0 M"
  "dev (snd (inb p M)) = dev M" "io (snd (inb p M)) = io M @ [In p (dev M (io M) p)]"
  by (simp_all add: inb_def Let_def pics_def pic_state_def)

lemma pics_log [simp]: "pics c0 (log_line xs M) = pics c0 M"
  by (simp add: pics_def)

lemma pic_wired_read:
  assumes "pic_wired c0 M" "pic_idle c0 M"
  shows "dev M (io M) 0x21 = chip_imr (fst (pics c0 M))"
    "dev M (io M) 0xA1 = chip_imr (snd (pics c0 M))"
  using assms(1) [unfolded pic_wired_def, rule_format, of "io M"] assms(2)
  by (auto simp: pic_idle_def pics_def split: prod.splits)

text \<open>The mask of a line, over both chips.\<close>

definition masked :: "chip \<times> chip \<Rightarrow> mach \<Rightarrow> nat \<Rightarrow> bool" where
  "masked c0 M irq \<longleftrightarrow> (if irq < 8 then bit (chip_imr (fst (pics c0 M))) irq
     else bit (chip_imr (snd (pics c0 M))) (irq - 8))"

lemma set_bit_u8:
  "bit (ucast ((ucast v :: u32) OR 2 ^ k) :: u8) n \<longleftrightarrow> n < 8 \<and> (bit v n \<or> n = k)"
  "bit (ucast ((ucast v :: u32) AND NOT (2 ^ k)) :: u8) n \<longleftrightarrow> n < 8 \<and> bit v n \<and> n \<noteq> k" for v :: u8
proof -
  have "(2 :: u32) ^ k = push_bit k 1" by (simp add: push_bit_eq_mult)
  then show "bit (ucast ((ucast v :: u32) OR 2 ^ k) :: u8) n \<longleftrightarrow> n < 8 \<and> (bit v n \<or> n = k)"
    "bit (ucast ((ucast v :: u32) AND NOT (2 ^ k)) :: u8) n \<longleftrightarrow> n < 8 \<and> bit v n \<and> n \<noteq> k"
    by (auto simp: bit_simps)
qed

lemma irq_cases:
  assumes "irq < 16"
  obtains k where "k < 8" "irq = k" "irq_port (of_nat irq) = (0x21, of_nat k)"
  | k where "k < 8" "irq = k + 8" "irq_port (of_nat irq) = (0xA1, of_nat k)"
proof (cases "irq < 8")
  case True
  then have "(of_nat irq :: u8) < 8" by (simp add: word_less_nat_alt unat_of_nat take_bit_eq_mod)
  with True that(1) show thesis by (simp add: irq_port_def pic_consts)
next
  case False
  define k where "k = irq - 8"
  from False assms have k: "irq = k + 8" "k < 8" by (auto simp: k_def)
  have "unat (of_nat irq :: u8) = irq" using assms by (simp add: unat_of_nat take_bit_eq_mod)
  then have "\<not> (of_nat irq :: u8) < 8" using False by (simp add: word_less_nat_alt)
  then have "irq_port (of_nat irq) = (0xA1, of_nat k)" by (simp add: irq_port_def pic_consts k)
  with k that(2) show thesis by blast
qed

lemma unat_u8_small [simp]: "k < 8 \<Longrightarrow> unat (of_nat k :: u8) = k"
  by (simp add: unat_of_nat take_bit_eq_mod)

lemma pic_one_line:
  assumes "pic_wired c0 M" "pic_idle c0 M" "irq < 16" "irq' < 16"
  shows "masked c0 (PIC_Unmask (of_nat irq) M) irq' \<longleftrightarrow> masked c0 M irq' \<and> irq' \<noteq> irq"
    "masked c0 (PIC_Mask (of_nat irq) M) irq' \<longleftrightarrow> masked c0 M irq' \<or> irq' = irq"
proof -
  obtain c1 c2 where c: "pics c0 M = (c1, c2)" by (cases "pics c0 M")
  have id: "chip_stage c1 = Idle" "chip_stage c2 = Idle" using assms(2) by (auto simp: pic_idle_def c)
  have rd: "dev M (io M) 0x21 = chip_imr c1" "dev M (io M) 0xA1 = chip_imr c2"
    using pic_wired_read [OF assms(1,2)] by (simp_all add: c)
  show "masked c0 (PIC_Unmask (of_nat irq) M) irq' \<longleftrightarrow> masked c0 M irq' \<and> irq' \<noteq> irq"
    by (rule irq_cases [OF assms(3)])
      (use assms(4) id in \<open>auto simp: PIC_Unmask_def Let_def case_prod_beta c rd masked_def chip_data_def
        set_bit_u8 pic_consts\<close>)
  show "masked c0 (PIC_Mask (of_nat irq) M) irq' \<longleftrightarrow> masked c0 M irq' \<or> irq' = irq"
    by (rule irq_cases [OF assms(3)])
      (use assms(4) id in \<open>auto simp: PIC_Mask_def Let_def case_prod_beta c rd masked_def chip_data_def
        set_bit_u8 pic_consts\<close>)
qed

text \<open>Devices that follow the chips exist.\<close>

definition pic_dev :: "chip \<times> chip \<Rightarrow> io_event list \<Rightarrow> u16 \<Rightarrow> u8" where
  "pic_dev c0 h p = (if p = 0x21 then chip_imr (fst (pic_state c0 h)) else
     if p = 0xA1 then chip_imr (snd (pic_state c0 h)) else 0)"

definition reset_chip :: chip where
  "reset_chip = \<lparr>chip_stage = Idle, chip_icw4 = False, chip_offset = 8, chip_imr = 0xFF, chip_eois = 0\<rparr>"

definition pic_mach :: mach where "pic_mach = blank\<lparr>dev := pic_dev (reset_chip, reset_chip)\<rparr>"

lemma pic_mach_wired: "pic_wired (reset_chip, reset_chip) pic_mach" "pic_idle (reset_chip, reset_chip) pic_mach"
  by (auto simp: pic_wired_def pic_mach_def pic_dev_def pic_idle_def pics_def pic_state_def blank_def
      reset_chip_def split: prod.splits)

section \<open>Properties\<close>

text \<open>Whatever state the chips are in, Remap completes their initialisation with the requested
  vector offsets, and when no initialisation was under way the masks are preserved.\<close>

theorem pic_remap_programs:
  "(case pics c0 (PIC_Remap mo so M) of (c1, c2) \<Rightarrow>
     chip_stage c1 = Idle \<and> chip_stage c2 = Idle \<and> chip_offset c1 = mo \<and> chip_offset c2 = so)
   \<and> (pic_wired c0 M \<and> pic_idle c0 M \<longrightarrow>
        chip_imr (fst (pics c0 (PIC_Remap mo so M))) = chip_imr (fst (pics c0 M))
      \<and> chip_imr (snd (pics c0 (PIC_Remap mo so M))) = chip_imr (snd (pics c0 M)))"
proof -
  obtain c1 c2 where c: "pics c0 M = (c1, c2)" by (cases "pics c0 M")
  have b: "bit (ICW1_INIT OR ICW1_ICW4) 4" "bit (ICW1_INIT OR ICW1_ICW4) 0"
    by (simp_all add: pic_consts)
  have d2: "pic_wired c0 M \<Longrightarrow> pic_idle c0 M \<Longrightarrow>
      dev M (io M @ [In 0x21 x]) 0xA1 = chip_imr (snd (pics c0 M))" for x
    unfolding pic_wired_def by (drule spec [of _ "io M @ [In 0x21 x]"])
      (simp add: pic_idle_def pics_def pic_state_def case_prod_beta)
  note rd = pic_wired_read [of c0 M]
  show ?thesis
    using b rd d2 unfolding PIC_Remap_def Let_def case_prod_beta
    by (simp add: c pic_consts chip_cmd_def chip_data_def)
qed

theorem pic_remap_programs_witness:
  "chip_offset (snd (pics (reset_chip, reset_chip) (PIC_Remap 0x20 0x28 pic_mach))) = 0x28
   \<and> chip_imr (fst (pics (reset_chip, reset_chip) (PIC_Remap 0x20 0x28 pic_mach))) = 0xFF"
proof -
  have "chip_imr (fst (pics (reset_chip, reset_chip) pic_mach)) = 0xFF"
    by (simp add: pics_def pic_state_def pic_mach_def blank_def reset_chip_def)
  then show ?thesis
    using pic_remap_programs [where ?c0.0 = "(reset_chip, reset_chip)" and mo = "0x20" and so = "0x28"
        and M = pic_mach] pic_mach_wired by (simp add: case_prod_beta)
qed

text \<open>After Start the 16 lines raise the vectors 0x20 to 0x2F and are all masked, from any state
  of the chips.\<close>

theorem pic_start_masks_all:
  "case pics c0 (PIC_Start M) of (c1, c2) \<Rightarrow> chip_stage c1 = Idle \<and> chip_stage c2 = Idle
     \<and> chip_offset c1 = 0x20 \<and> chip_offset c2 = 0x28 \<and> chip_imr c1 = 0xFF \<and> chip_imr c2 = 0xFF"
proof -
  let ?R = "PIC_Remap 0x20 0x28 (log_line [LStr ''> Remapping PIC: master=0x20, slave=0x28''] M)"
  obtain c1 c2 where c: "pics c0 ?R = (c1, c2)" by (cases "pics c0 ?R")
  have "chip_stage c1 = Idle \<and> chip_stage c2 = Idle \<and> chip_offset c1 = 0x20 \<and> chip_offset c2 = 0x28"
    using pic_remap_programs [where ?c0.0 = c0 and mo = "0x20" and so = "0x28"
        and M = "log_line [LStr ''> Remapping PIC: master=0x20, slave=0x28''] M"]
    by (simp add: c)
  then show ?thesis by (simp add: PIC_Start_def c pic_consts chip_data_def)
qed

text \<open>Unmask opens exactly its line and Mask closes exactly its line: every other of the 16 lines
  keeps its mask.\<close>

theorem pic_mask_one_line:
  assumes "pic_wired c0 M" "pic_idle c0 M" "irq < 16" "irq' < 16"
  shows "(masked c0 (PIC_Unmask (of_nat irq) M) irq' \<longleftrightarrow> masked c0 M irq' \<and> irq' \<noteq> irq)
    \<and> (masked c0 (PIC_Mask (of_nat irq) M) irq' \<longleftrightarrow> masked c0 M irq' \<or> irq' = irq)"
  using pic_one_line [OF assms] by simp

theorem pic_mask_one_line_witness:
  "\<not> masked (reset_chip, reset_chip) (PIC_Unmask 1 pic_mach) 1
   \<and> masked (reset_chip, reset_chip) (PIC_Unmask 1 pic_mach) 9"
proof -
  have "masked (reset_chip, reset_chip) pic_mach 9"
    by (simp add: masked_def pics_def pic_state_def pic_mach_def blank_def reset_chip_def)
  then show ?thesis
    using pic_mask_one_line [OF pic_mach_wired, of 1 1] pic_mask_one_line [OF pic_mach_wired, of 1 9] by simp
qed

text \<open>An interrupt of a slave line is acknowledged on both chips, one of a master line on the
  master only, and never disturbs the initialisation or the masks.\<close>

theorem pic_eoi_chips:
  "case (pics c0 M, pics c0 (PIC_EndOfInterrupt irq M)) of ((c1, c2), (d1, d2)) \<Rightarrow>
     d1 = c1\<lparr>chip_eois := Suc (chip_eois c1)\<rparr>
     \<and> d2 = (if 8 \<le> irq then c2\<lparr>chip_eois := Suc (chip_eois c2)\<rparr> else c2)"
proof -
  obtain c1 c2 where "pics c0 M = (c1, c2)" by (cases "pics c0 M")
  then show ?thesis by (simp add: PIC_EndOfInterrupt_def pic_consts chip_cmd_def)
qed

end
