(* ===== verification/Timer.thy ===== *)
theory Timer
  imports PIC
begin

text \<open>
  \<open>System::Drivers::Timer\<close> (src/src/src/classes/timer.class.h): the PIT at 100 Hz, the tick
  counter, the preemption callback and the busy sleep.  The callback is a function pointer;
  what it does is an argument of \<open>Timer_Handler\<close>, which the scheduler theory instantiates.
\<close>

definition PIT_CHANNEL0 :: u16 where "PIT_CHANNEL0 = 0x40"
definition PIT_COMMAND :: u16 where "PIT_COMMAND = 0x43"
definition PIT_FREQUENCY :: u32 where "PIT_FREQUENCY = 1193182"
definition TICK_HZ :: u32 where "TICK_HZ = 100"
definition PREEMPT_EVERY :: u32 where "PREEMPT_EVERY = 5"

record timer =
  ticks :: u32
  preempt_cb :: u32

definition timer0 :: timer where "timer0 = \<lparr>ticks = 0, preempt_cb = 0\<rparr>"

definition RegisterPreemptCallback :: "u32 \<Rightarrow> timer \<Rightarrow> timer" where
  "RegisterPreemptCallback cb T = T\<lparr>preempt_cb := cb\<rparr>"

definition Timer_Start :: "mach \<Rightarrow> mach" where
  "Timer_Start M0 =
     (let M = log_line [LStr ''> Starting PIT timer at '', LInt TICK_HZ, LStr '' Hz''] M0;
          divisor = PIT_FREQUENCY div TICK_HZ;
          M1 = outb PIT_COMMAND 0x36 M;
          M2 = outb PIT_CHANNEL0 (ucast (divisor AND 0xFF)) M1;
          M3 = outb PIT_CHANNEL0 (ucast (drop_bit 8 divisor AND 0xFF)) M2
      in PIC_Unmask 0 M3)"

definition Timer_Handler :: "(u32 \<Rightarrow> timer \<times> 's \<Rightarrow> timer \<times> 's) \<Rightarrow> timer \<times> 's \<Rightarrow> timer \<times> 's" where
  "Timer_Handler call = (\<lambda>(T, s).
     let T1 = T\<lparr>ticks := ticks T + 1\<rparr>
     in if preempt_cb T1 \<noteq> 0 \<and> ticks T1 mod PREEMPT_EVERY = 0 then call (preempt_cb T1) (T1, s)
        else (T1, s))"

text \<open>
  \<open>Sleep\<close> halts until the counter has reached a target.  \<open>obs i\<close> is the counter the i-th test
  of the loop reads; the result is the number of \<open>hlt\<close> executed.
\<close>

definition sleep_ticks :: "u32 \<Rightarrow> u32" where
  "sleep_ticks ms = (let needed = (ms * TICK_HZ) div 1000 in if needed = 0 then 1 else needed)"

partial_function (option) sleep_loop :: "(nat \<Rightarrow> u32) \<Rightarrow> u32 \<Rightarrow> nat \<Rightarrow> nat option" where
  "sleep_loop obs target i = (if obs i < target then sleep_loop obs target (Suc i) else Some i)"

definition Timer_Sleep :: "(nat \<Rightarrow> u32) \<Rightarrow> u32 \<Rightarrow> u32 \<Rightarrow> nat option" where
  "Timer_Sleep obs now ms = sleep_loop obs (now + sleep_ticks ms) 0"

section \<open>The tick counter over a run of interrupts\<close>

text \<open>\<open>n\<close> timer interrupts in a row; the state of the callback is a counter of its calls.\<close>

fun ticks_run :: "nat \<Rightarrow> timer \<times> nat \<Rightarrow> timer \<times> nat" where
  "ticks_run 0 s = s"
| "ticks_run (Suc n) s = ticks_run n (Timer_Handler (\<lambda>cb (T, k). (T, Suc k)) s)"

lemma unat_mod_5: "t mod PREEMPT_EVERY = 0 \<longleftrightarrow> unat t mod 5 = 0"
proof -
  have "unat (t mod 5) = unat t mod 5" by (simp add: unat_mod)
  then show ?thesis by (metis PREEMPT_EVERY_def unat_eq_zero)
qed

lemma Suc_div_5: "Suc n div 5 = n div 5 + (if Suc n mod 5 = 0 then 1 else 0)"
  by (simp add: div_Suc)

lemma ticks_run_count:
  assumes "cb \<noteq> 0" "unat t + n < 2 ^ 32"
  shows "ticks_run n (\<lparr>ticks = t, preempt_cb = cb\<rparr>, k)
    = (\<lparr>ticks = t + of_nat n, preempt_cb = cb\<rparr>, k + ((unat t + n) div 5 - unat t div 5))"
  using assms(2)
proof (induction n arbitrary: t k)
  case (Suc n)
  then have u: "unat (t + 1) = Suc (unat t)" by (simp add: unat_word_ariths)
  have mono: "Suc (unat t) div 5 \<le> (unat t + Suc n) div 5" by (rule div_le_mono) simp
  have "Timer_Handler (\<lambda>cb (T, k). (T, Suc k)) (\<lparr>ticks = t, preempt_cb = cb\<rparr>, k)
      = (\<lparr>ticks = t + 1, preempt_cb = cb\<rparr>, if Suc (unat t) mod 5 = 0 then Suc k else k)"
    using assms(1) by (simp add: Timer_Handler_def Let_def unat_mod_5 u)
  with Suc.IH [of "t + 1"] Suc.prems mono Suc_div_5 [of "unat t"] u show ?case
    by (auto simp: ac_simps)
qed simp

section \<open>Sleeping\<close>

lemma sleep_loop_at:
  assumes "\<And>j. i \<le> j \<Longrightarrow> j < k \<Longrightarrow> obs j < target" "\<not> obs k < target" "i \<le> k"
  shows "sleep_loop obs target i = Some k"
  using assms
proof (induction "k - i" arbitrary: i)
  case 0
  then show ?case by (simp add: sleep_loop.simps)
next
  case (Suc d)
  then have "obs i < target" "sleep_loop obs target (Suc i) = Some k" by auto
  then show ?case by (subst sleep_loop.simps) simp
qed

lemma unat_sleep_ticks:
  assumes "unat ms * 100 < 2 ^ 32"
  shows "unat (sleep_ticks ms) = max 1 (unat ms * 100 div 1000)"
proof -
  have u: "unat (ms * TICK_HZ div 1000) = unat ms * 100 div 1000"
    using assms by (simp add: TICK_HZ_def unat_div unat_word_ariths)
  then have "ms * TICK_HZ div 1000 = 0 \<longleftrightarrow> unat ms * 100 div 1000 = 0" by (metis unat_eq_zero)
  with u show ?thesis by (simp add: sleep_ticks_def Let_def)
qed

section \<open>Properties\<close>

text \<open>Start programs channel 0 as a square wave with the low byte of the divisor first, then the
  high byte, and opens line 0; the divisor is 11931, so the rate is off the promised 100 Hz
  by less than one part in ten thousand.\<close>

theorem timer_start_programs:
  "take (length (io M) + 3) (io (Timer_Start M)) =
     io M @ [Out PIT_COMMAND 0x36, Out PIT_CHANNEL0 0x9B, Out PIT_CHANNEL0 0x2E]
   \<and> (0x2E9B :: nat) = unat (PIT_FREQUENCY div TICK_HZ)
   \<and> unat PIT_FREQUENCY - 100 * 0x2E9B < unat PIT_FREQUENCY div 10000
   \<and> (pic_wired c0 M \<and> pic_idle c0 M \<longrightarrow> \<not> masked c0 (Timer_Start M) 0)"
proof -
  let ?M = "outb PIT_CHANNEL0 0x2E (outb PIT_CHANNEL0 0x9B (outb PIT_COMMAND 0x36
    (log_line [LStr ''> Starting PIT timer at '', LInt TICK_HZ, LStr '' Hz''] M)))"
  have s: "Timer_Start M = PIC_Unmask 0 ?M"
    by (simp add: Timer_Start_def Let_def PIT_FREQUENCY_def TICK_HZ_def)
  have p: "pics c0 ?M = pics c0 M"
    by (cases "pics c0 M") (simp add: PIT_COMMAND_def PIT_CHANNEL0_def)
  have "pic_wired c0 M \<and> pic_idle c0 M \<longrightarrow> \<not> masked c0 (Timer_Start M) 0"
    using pic_one_line(1) [of c0 ?M 0 0] p unfolding s
    by (simp add: pic_wired_def pic_idle_def)
  moreover have "take (length (io M) + 3) (io (Timer_Start M)) =
      io M @ [Out PIT_COMMAND 0x36, Out PIT_CHANNEL0 0x9B, Out PIT_CHANNEL0 0x2E]"
    unfolding s by (simp add: PIC_Unmask_def irq_port_def Let_def case_prod_beta)
  ultimately show ?thesis by (simp add: PIT_FREQUENCY_def TICK_HZ_def)
qed

theorem timer_start_programs_witness:
  "\<not> masked (reset_chip, reset_chip) (Timer_Start pic_mach) 0"
  using timer_start_programs [where ?c0.0 = "(reset_chip, reset_chip)" and M = pic_mach] pic_mach_wired
  by simp

text \<open>With a callback registered, n timer interrupts call it exactly once at every fifth tick, and
  advance the counter by n.\<close>

theorem timer_preempt_rate:
  assumes "preempt_cb T \<noteq> 0" "unat (ticks T) + n < 2 ^ 32"
  shows "\<exists>T' k'. ticks_run n (T, k) = (T', k') \<and> ticks T' = ticks T + of_nat n
    \<and> preempt_cb T' = preempt_cb T \<and> k' = k + ((unat (ticks T) + n) div 5 - unat (ticks T) div 5)"
  using ticks_run_count [OF assms] by (cases T) simp

theorem timer_preempt_rate_witness:
  "\<exists>T'. ticks_run 52 (\<lparr>ticks = 0, preempt_cb = 0x1000\<rparr>, 0) = (T', 10) \<and> ticks T' = 52"
  using timer_preempt_rate [of "\<lparr>ticks = 0, preempt_cb = 0x1000\<rparr>" 52 0] by auto

text \<open>C38: Sleep returns, provided the counter advances by one per halt, after exactly the ticks of
  the requested time (at least one), when neither the product nor the deadline wraps.\<close>

theorem timer_sleep_duration:
  assumes "\<And>i. obs i = now + of_nat i" "unat ms * 100 < 2 ^ 32"
    and "unat now + max 1 (unat ms * 100 div 1000) < 2 ^ 32"
  shows "Timer_Sleep obs now ms = Some (max 1 (unat ms * 100 div 1000))"
proof -
  let ?n = "max 1 (unat ms * 100 div 1000)"
  have t: "unat (now + sleep_ticks ms) = unat now + ?n"
    using assms(3) unat_sleep_ticks [OF assms(2)] by (simp add: unat_word_ariths)
  have o: "unat (obs j) = unat now + j" if "j \<le> ?n" for j
    using assms(1) [of j] assms(3) that by (simp add: unat_word_ariths unat_of_nat take_bit_eq_mod)
  show ?thesis
    unfolding Timer_Sleep_def
    by (rule sleep_loop_at) (use o t in \<open>auto simp: word_less_nat_alt\<close>)
qed

theorem timer_sleep_duration_witness: "Timer_Sleep (\<lambda>i. 7 + of_nat i) 7 250 = Some 25"
  using timer_sleep_duration [of "\<lambda>i. 7 + of_nat i" 7 250] by simp

text \<open>Two wraps break the sleep. When the deadline passes 2 ^ 32 ticks, or the product
  \<open>ms * 100\<close> passes 2 ^ 32, Sleep returns at once, without a single halt, or far too early.\<close>

theorem timer_sleep_wraps:
  assumes "obs 0 = now" "0 < sleep_ticks ms" "2 ^ 32 \<le> unat now + unat (sleep_ticks ms)"
  shows "Timer_Sleep obs now ms = Some 0 \<and> sleep_ticks 42949673 = 1"
proof -
  have "unat (now + sleep_ticks ms) = unat now + unat (sleep_ticks ms) - 2 ^ 32"
    using assms(3) unat_u32_less [of now] unat_u32_less [of "sleep_ticks ms"]
    by (simp add: unat_word_ariths le_mod_geq)
  moreover have "unat (sleep_ticks ms) < 2 ^ 32" by (rule unat_u32_less)
  ultimately have "\<not> now < now + sleep_ticks ms" by (simp add: word_less_nat_alt)
  then have "Timer_Sleep obs now ms = Some 0"
    using assms(1) by (simp add: Timer_Sleep_def sleep_loop.simps)
  then show ?thesis by (simp add: sleep_ticks_def TICK_HZ_def)
qed

theorem timer_sleep_wraps_witness: "Timer_Sleep (\<lambda>i. 0xFFFFFFF0 + of_nat i) 0xFFFFFFF0 1000 = Some 0"
proof -
  have "sleep_ticks 1000 = 100" by (simp add: sleep_ticks_def TICK_HZ_def)
  then show ?thesis
    using timer_sleep_wraps [of "\<lambda>i. 0xFFFFFFF0 + of_nat i" "0xFFFFFFF0" 1000] by simp
qed

end
