(* ===== verification/Scheduler.thy ===== *)
theory Scheduler
  imports Heap_Contract Timer
begin

text \<open>
  \<open>System::Scheduler\<close> (src/src/src/classes/scheduler.class.h): the task table and its
  operations.  \<open>Yield\<close> ends in the assembly routine \<open>switch_task\<close>; here it returns the pair of
  slots to switch between, and the theory \<open>Task_Switch\<close> gives the switch itself.  A task name
  is an array of 16 bytes.
\<close>

section \<open>State\<close>

definition MAX_TASKS :: nat where "MAX_TASKS = 8"
definition STACK_SIZE :: u32 where "STACK_SIZE = 4096"

datatype task_state = TASK_UNUSED | TASK_READY | TASK_SLEEPING | TASK_DONE

record task =
  t_esp :: u32
  stack_base :: u32
  stack_top :: u32
  sleep_until :: u32
  t_state :: task_state
  t_id :: u32
  t_name :: "u8 list"
  t_yields :: u32

record sched =
  tasks :: "task list"
  current :: nat
  spawned_count :: u32
  sched_ready :: bool

definition blank_task :: task where
  "blank_task = \<lparr>t_esp = 0, stack_base = 0, stack_top = 0, sleep_until = 0, t_state = TASK_UNUSED,
     t_id = -1, t_name = replicate 16 0, t_yields = 0\<rparr>"

definition sched0 :: sched where
  "sched0 = \<lparr>tasks = replicate 8 (blank_task\<lparr>t_id := 0\<rparr>), current = 0, spawned_count = 0,
     sched_ready = False\<rparr>"

section \<open>Operations\<close>

text \<open>The bytes of \<open>"kernel"\<close> with the terminating zero.\<close>

definition kernel_name :: "u8 list" where
  "kernel_name = [0x6B, 0x65, 0x72, 0x6E, 0x65, 0x6C, 0]"

text \<open>\<open>cb\<close> is the address of \<open>PreemptiveYield\<close>.\<close>

definition Scheduler_Start :: "u32 \<Rightarrow> mach \<times> timer \<times> sched \<Rightarrow> mach \<times> timer \<times> sched" where
  "Scheduler_Start cb = (\<lambda>(M, T, S).
     let ts = map (\<lambda>t. t\<lparr>t_state := TASK_UNUSED, t_esp := 0, stack_base := 0, stack_top := 0,
                       sleep_until := 0, t_id := -1, t_yields := 0, t_name := replicate 16 0\<rparr>) (tasks S);
         t0 = (ts ! 0)\<lparr>t_state := TASK_READY, t_id := 0,
                 t_name := kernel_name @ drop 7 (t_name (ts ! 0))\<rparr>;
         S' = \<lparr>tasks = ts[0 := t0], current = 0, spawned_count = 1, sched_ready = True\<rparr>
     in (log_line [LStr ''> Scheduler online (preemptive, '', LInt (of_nat MAX_TASKS),
           LStr '' task slots)''] M, RegisterPreemptCallback cb T, S'))"

text \<open>\<open>PickNext\<close>: the scan over the slots, waking the sleepers it passes.\<close>

fun pick_scan :: "u32 \<Rightarrow> nat list \<Rightarrow> task list \<Rightarrow> nat option \<times> task list" where
  "pick_scan now [] ts = (None, ts)"
| "pick_scan now (idx # is) ts =
     (let t = ts ! idx;
          t' = (if t_state t = TASK_SLEEPING \<and> sleep_until t \<le> now
                then t\<lparr>t_state := TASK_READY\<rparr> else t);
          ts' = ts[idx := t']
      in if t_state t' = TASK_READY then (Some idx, ts') else pick_scan now is ts')"

definition scan_order :: "nat \<Rightarrow> nat list" where
  "scan_order cur = map (\<lambda>step. (cur + step) mod MAX_TASKS) [1..<Suc MAX_TASKS]"

definition PickNext :: "u32 \<Rightarrow> sched \<Rightarrow> nat \<times> sched" where
  "PickNext now S =
     (case pick_scan now (scan_order (current S)) (tasks S) of
        (Some idx, ts) \<Rightarrow> (idx, S\<lparr>tasks := ts\<rparr>)
      | (None, ts) \<Rightarrow> (current S, S\<lparr>tasks := ts\<rparr>))"

definition Yield :: "u32 \<Rightarrow> sched \<Rightarrow> sched \<times> (nat \<times> nat) option" where
  "Yield now S =
     (if \<not> sched_ready S then (S, None)
      else let (nxt, S1) = PickNext now S in
        if nxt = current S1 then (S1, None)
        else let prev = current S1;
                 t = tasks S1 ! prev
             in (S1\<lparr>current := nxt, tasks := (tasks S1)[prev := t\<lparr>t_yields := t_yields t + 1\<rparr>]\<rparr>,
                 Some (prev, nxt)))"

definition Sleep :: "u32 \<Rightarrow> u32 \<Rightarrow> sched \<Rightarrow> sched \<times> (nat \<times> nat) option" where
  "Sleep now ms S =
     (if \<not> sched_ready S then (S, None)
      else let n = (ms * TICK_HZ) div 1000;
               n' = (if n = 0 then 1 else n);
               t = tasks S ! current S
           in Yield now (S\<lparr>tasks := (tasks S)[current S :=
                t\<lparr>sleep_until := now + n', t_state := TASK_SLEEPING\<rparr>]\<rparr>))"

text \<open>The name is copied up to 15 bytes; a shorter new name keeps the old bytes behind its zero.\<close>

function copy_name :: "mem \<Rightarrow> u32 \<Rightarrow> nat \<Rightarrow> u8 list \<Rightarrow> u8 list" where
  "copy_name m name i nm =
     (if m (name + of_nat i) \<noteq> 0 \<and> i < 15
      then copy_name m name (i + 1) (nm[i := m (name + of_nat i)])
      else nm[i := 0])"
  by pat_completeness auto
termination by (relation "measure (\<lambda>(m, name, i, nm). 15 - i)") auto

declare copy_name.simps [simp del]

definition find_slot :: "task list \<Rightarrow> nat option" where
  "find_slot ts = List.find (\<lambda>i. t_state (ts ! i) = TASK_UNUSED) [0..<MAX_TASKS]"

text \<open>The frame \<open>switch_task\<close> will pop: four registers and the return address.\<close>

definition format_stack :: "u32 \<Rightarrow> u32 \<Rightarrow> mem \<Rightarrow> mem" where
  "format_stack stack entry m =
     (let sp = stack + STACK_SIZE;
          m1 = store32 m (sp - 4) entry;
          m2 = store32 m1 (sp - 8) 0;
          m3 = store32 m2 (sp - 12) 0;
          m4 = store32 m3 (sp - 16) 0
      in store32 m4 (sp - 20) 0)"

text \<open>The string a byte array holds, for the log line.\<close>

definition name_string :: "u8 list \<Rightarrow> string" where
  "name_string nm = map (\<lambda>b. char_of (unat b)) (takeWhile (\<lambda>b. b \<noteq> 0) nm)"

definition Spawn :: "u32 \<Rightarrow> u32 \<Rightarrow> mach \<times> heap \<times> sched \<Rightarrow> (int \<times> mach \<times> heap \<times> sched) option" where
  "Spawn entry name = (\<lambda>(M, H, S).
     if \<not> sched_ready S then Some (-1, M, H, S)
     else case find_slot (tasks S) of
       None \<Rightarrow> Some (-1, M, H, S)
     | Some slot \<Rightarrow>
       (case Heap_Alloc STACK_SIZE M H of
          None \<Rightarrow> None
        | Some (stack, M1, H1) \<Rightarrow>
          if stack = 0 then Some (-1, M1, H1, S)
          else let M2 = M1\<lparr>ram := format_stack stack entry (ram M1)\<rparr>;
                   t = (tasks S ! slot)\<lparr>t_esp := stack + STACK_SIZE - 20, stack_base := stack,
                         stack_top := stack + STACK_SIZE, sleep_until := 0, t_state := TASK_READY,
                         t_id := spawned_count S, t_yields := 0,
                         t_name := copy_name (ram M2) name 0 (t_name (tasks S ! slot))\<rparr>;
                   S' = S\<lparr>tasks := (tasks S)[slot := t], spawned_count := spawned_count S + 1\<rparr>
               in Some (int slot, log_line [LStr (''> Scheduler: spawned task '' @ [CHR 0x27]),
                     LStr (name_string (t_name t)), LStr (CHR 0x27 # '' id=''), LInt (t_id t)] M2, H1, S')))"

definition CurrentId :: "sched \<Rightarrow> int" where
  "CurrentId S = (if sched_ready S then sint (t_id (tasks S ! current S)) else -1)"

definition CurrentName :: "sched \<Rightarrow> u8 list" where
  "CurrentName S = (if sched_ready S then t_name (tasks S ! current S) else [0x3F, 0])"

definition Task_Count :: "sched \<Rightarrow> nat" where
  "Task_Count S = length (filter (\<lambda>i. t_state (tasks S ! i) \<noteq> TASK_UNUSED) [0..<MAX_TASKS])"

section \<open>The scan\<close>

definition runnable :: "u32 \<Rightarrow> task \<Rightarrow> bool" where
  "runnable now t \<longleftrightarrow> t_state t = TASK_READY \<or> t_state t = TASK_SLEEPING \<and> sleep_until t \<le> now"

definition woken :: "task \<Rightarrow> task" where
  "woken t = (if t_state t = TASK_SLEEPING then t\<lparr>t_state := TASK_READY\<rparr> else t)"

lemma woken_sel [simp]:
  "t_id (woken t) = t_id t" "t_esp (woken t) = t_esp t" "stack_base (woken t) = stack_base t"
  "stack_top (woken t) = stack_top t" "t_name (woken t) = t_name t" "t_yields (woken t) = t_yields t"
  "sleep_until (woken t) = sleep_until t"
  by (simp_all add: woken_def)

lemma woken_state [simp]: "runnable now t \<Longrightarrow> t_state (woken t) = TASK_READY"
  by (auto simp: runnable_def woken_def)

text \<open>The scan wakes only the task it picks: an earlier sleeper that was due would have been picked.\<close>

lemma pick_scan_find:
  "pick_scan now is ts = (case List.find (\<lambda>i. runnable now (ts ! i)) is of
     None \<Rightarrow> (None, ts) | Some i \<Rightarrow> (Some i, ts[i := woken (ts ! i)]))"
proof (induction now "is" ts rule: pick_scan.induct)
  case (2 now idx "is" ts)
  consider "t_state (ts ! idx) = TASK_READY" | "t_state (ts ! idx) = TASK_SLEEPING" "sleep_until (ts ! idx) \<le> now"
    | "\<not> runnable now (ts ! idx)" by (auto simp: runnable_def)
  then show ?case
  proof cases
    case 3
    then have "\<not> (t_state (ts ! idx) = TASK_SLEEPING \<and> sleep_until (ts ! idx) \<le> now)"
      "t_state (ts ! idx) \<noteq> TASK_READY" by (auto simp: runnable_def)
    with 2 3 show ?thesis by (auto simp: Let_def list_update_id)
  qed (auto simp: Let_def runnable_def woken_def)
qed simp

text \<open>How many slots after \<open>cur\<close> the scan meets \<open>j\<close>: 1 to 8, the task itself last.\<close>

definition slot_dist :: "nat \<Rightarrow> nat \<Rightarrow> nat" where
  "slot_dist cur j = (if cur < j then j - cur else j + MAX_TASKS - cur)"

lemma length_scan_order [simp]: "length (scan_order cur) = 8"
  by (simp add: scan_order_def MAX_TASKS_def)

lemma scan_order_nth: "k < 8 \<Longrightarrow> scan_order cur ! k = (cur + k + 1) mod 8"
  by (simp add: scan_order_def MAX_TASKS_def nth_append del: upt_Suc)

lemma scan_order_dist:
  assumes "cur < 8" "k < 8"
  shows "scan_order cur ! k < 8" "slot_dist cur (scan_order cur ! k) = k + 1"
proof -
  have "(cur + k + 1) mod 8 = (if cur + k + 1 < 8 then cur + k + 1 else cur + k + 1 - 8)"
    using assms by (simp add: mod_if le_mod_geq)
  then show "scan_order cur ! k < 8" "slot_dist cur (scan_order cur ! k) = k + 1"
    using assms by (auto simp: scan_order_nth slot_dist_def MAX_TASKS_def)
qed

lemma scan_order_at:
  assumes "cur < 8" "j < 8"
  shows "slot_dist cur j - 1 < 8" "scan_order cur ! (slot_dist cur j - 1) = j" "0 < slot_dist cur j"
proof -
  show k: "slot_dist cur j - 1 < 8" "0 < slot_dist cur j"
    using assms by (auto simp: slot_dist_def MAX_TASKS_def)
  have "(cur + slot_dist cur j) mod 8 = j"
    using assms by (cases "cur < j") (auto simp: slot_dist_def MAX_TASKS_def)
  then show "scan_order cur ! (slot_dist cur j - 1) = j"
    using k by (simp add: scan_order_nth)
qed

lemma PickNext_some:
  assumes "current S < 8" "j < 8" "runnable now (tasks S ! j)"
  obtains i where "PickNext now S = (i, S\<lparr>tasks := (tasks S)[i := woken (tasks S ! i)]\<rparr>)"
    "i < 8" "runnable now (tasks S ! i)"
    "\<And>l. l < 8 \<Longrightarrow> runnable now (tasks S ! l) \<Longrightarrow> slot_dist (current S) i \<le> slot_dist (current S) l"
proof -
  let ?P = "\<lambda>i. runnable now (tasks S ! i)"
  note at = scan_order_at [OF assms(1)]
  have "j \<in> set (scan_order (current S))"
    using at(1,2) [OF assms(2)] by (metis length_scan_order nth_mem)
  then obtain i where f: "List.find ?P (scan_order (current S)) = Some i"
    using assms(3) by (cases "List.find ?P (scan_order (current S))") (auto simp: find_None_iff)
  then obtain k where k: "k < 8" "?P i" "i = scan_order (current S) ! k"
    "\<forall>l < k. \<not> ?P (scan_order (current S) ! l)"
    by (auto simp: find_Some_iff)
  have d: "i < 8" "slot_dist (current S) i = k + 1"
    using scan_order_dist [OF assms(1) k(1)] k(3) by auto
  have "slot_dist (current S) i \<le> slot_dist (current S) l" if l: "l < 8" "?P l" for l
  proof (rule ccontr)
    assume "\<not> slot_dist (current S) i \<le> slot_dist (current S) l"
    then have "slot_dist (current S) l - 1 < k" using d(2) at(3) [OF l(1)] by linarith
    with k(4) at(2) [OF l(1)] l(2) show False by metis
  qed
  with f d k(2) that show thesis by (auto simp: PickNext_def pick_scan_find)
qed

lemma PickNext_none:
  assumes "current S < 8" "\<And>j. j < 8 \<Longrightarrow> \<not> runnable now (tasks S ! j)"
  shows "PickNext now S = (current S, S)"
proof -
  have "List.find (\<lambda>i. runnable now (tasks S ! i)) (scan_order (current S)) = None"
    using scan_order_dist(1) [OF assms(1)] assms(2)
    by (auto simp: find_None_iff in_set_conv_nth)
  then show ?thesis by (simp add: PickNext_def pick_scan_find)
qed

section \<open>The table invariant\<close>

definition used_slots :: "sched \<Rightarrow> nat set" where
  "used_slots S = {i. i < 8 \<and> t_state (tasks S ! i) \<noteq> TASK_UNUSED}"

definition sched_ok :: "sched \<Rightarrow> bool" where
  "sched_ok S \<longleftrightarrow> sched_ready S \<and> length (tasks S) = 8 \<and> current S \<in> used_slots S
     \<and> inj_on (\<lambda>i. t_id (tasks S ! i)) (used_slots S)
     \<and> (\<forall>i \<in> used_slots S. t_id (tasks S ! i) < spawned_count S)
     \<and> unat (spawned_count S) = card (used_slots S)
     \<and> (\<forall>i < 8. t_state (tasks S ! i) \<noteq> TASK_DONE \<and> length (t_name (tasks S ! i)) = 16)"

lemma used_slots_finite [simp]: "finite (used_slots S)" "card (used_slots S) \<le> 8"
proof -
  have "used_slots S \<subseteq> {..<8}" by (auto simp: used_slots_def)
  from finite_subset [OF this] card_mono [OF _ this] show "finite (used_slots S)" "card (used_slots S) \<le> 8"
    by simp_all
qed

lemma Task_Count_card: "Task_Count S = card (used_slots S)"
proof -
  have "used_slots S = set (filter (\<lambda>i. t_state (tasks S ! i) \<noteq> TASK_UNUSED) [0..<8])"
    by (auto simp: used_slots_def)
  then show ?thesis
    unfolding Task_Count_def MAX_TASKS_def by (simp only: distinct_card distinct_filter distinct_upt)
qed

text \<open>An update of one used slot that keeps it used, with its id, keeps the invariant.\<close>

lemma sched_ok_update:
  assumes "sched_ok S" "i \<in> used_slots S" "t_id t = t_id (tasks S ! i)"
    "t_state t \<in> {TASK_READY, TASK_SLEEPING}" "t_name t = t_name (tasks S ! i)" "c \<in> used_slots S"
  shows "sched_ok (S\<lparr>tasks := (tasks S)[i := t], current := c\<rparr>)"
    "used_slots (S\<lparr>tasks := (tasks S)[i := t], current := c\<rparr>) = used_slots S"
proof -
  have len: "length (tasks S) = 8" "i < 8" using assms(1,2) by (auto simp: sched_ok_def used_slots_def)
  have id: "t_id ((tasks S)[i := t] ! j) = t_id (tasks S ! j)" for j
    using assms(3) len by (cases "i = j") auto
  have nm: "t_name ((tasks S)[i := t] ! j) = t_name (tasks S ! j)" for j
    using assms(5) len by (cases "i = j") auto
  show u: "used_slots (S\<lparr>tasks := (tasks S)[i := t], current := c\<rparr>) = used_slots S"
    using assms(2,4) len by (auto simp: used_slots_def nth_list_update)
  have "t_state ((tasks S)[i := t] ! j) \<noteq> TASK_DONE" if "j < 8" for j
    using assms(1,4) that len by (cases "i = j") (auto simp: sched_ok_def)
  with assms(1,6) show "sched_ok (S\<lparr>tasks := (tasks S)[i := t], current := c\<rparr>)"
    by (auto simp: sched_ok_def u id nm)
qed

end
