(* ===== verification/Scheduler_Contract.thy ===== *)
theory Scheduler_Contract
  imports Scheduler
begin

text \<open>
  What the scheduler promises: the round robin and its fairness, the invariant of the task
  table, the ownership of the stacks (through the allocator contract), and where it does not
  do what it promises.
\<close>

section \<open>Yield and Sleep keep the table\<close>

lemma sched_ok_sel:
  "sched_ok S \<Longrightarrow> current S < 8" "sched_ok S \<Longrightarrow> length (tasks S) = 8" "sched_ok S \<Longrightarrow> sched_ready S"
  "sched_ok S \<Longrightarrow> i < 8 \<Longrightarrow> runnable now (tasks S ! i) \<Longrightarrow> i \<in> used_slots S"
  by (auto simp: sched_ok_def used_slots_def runnable_def)

lemma Yield_idle:
  assumes "sched_ok S" "\<And>j. j < 8 \<Longrightarrow> \<not> runnable now (tasks S ! j)"
  shows "Yield now S = (S, None)"
  using assms PickNext_none [of S now] sched_ok_sel [OF assms(1)] by (simp add: Yield_def)

lemma Yield_pick:
  assumes "sched_ok S" "j < 8" "runnable now (tasks S ! j)"
  obtains (stay) "Yield now S = (S\<lparr>tasks := (tasks S)[current S := woken (tasks S ! current S)]\<rparr>, None)"
      "runnable now (tasks S ! current S)"
      "\<And>l. l < 8 \<Longrightarrow> runnable now (tasks S ! l) \<Longrightarrow> l = current S"
  | (switch) i where "i < 8" "i \<noteq> current S" "runnable now (tasks S ! i)"
      "\<And>l. l < 8 \<Longrightarrow> runnable now (tasks S ! l) \<Longrightarrow> slot_dist (current S) i \<le> slot_dist (current S) l"
      "Yield now S = (S\<lparr>tasks := ((tasks S)[i := woken (tasks S ! i)])[current S :=
          (tasks S ! current S)\<lparr>t_yields := t_yields (tasks S ! current S) + 1\<rparr>], current := i\<rparr>, Some (current S, i))"
proof -
  note ok = sched_ok_sel [OF assms(1)]
  obtain i where pk: "PickNext now S = (i, S\<lparr>tasks := (tasks S)[i := woken (tasks S ! i)]\<rparr>)"
    "i < 8" "runnable now (tasks S ! i)"
    "\<And>l. l < 8 \<Longrightarrow> runnable now (tasks S ! l) \<Longrightarrow> slot_dist (current S) i \<le> slot_dist (current S) l"
    by (rule PickNext_some [OF ok(1) assms(2,3)]) blast
  show thesis
  proof (cases "i = current S")
    case True
    have "l = current S" if "l < 8" "runnable now (tasks S ! l)" for l
      using pk(4) [OF that] that(1) ok(1) True by (auto simp: slot_dist_def MAX_TASKS_def split: if_splits)
    with True pk(1,3) ok(3) show ?thesis by (intro stay) (simp_all add: Yield_def)
  next
    case False
    with pk(1) ok(3) have "Yield now S = (S\<lparr>tasks := ((tasks S)[i := woken (tasks S ! i)])[current S :=
          (tasks S ! current S)\<lparr>t_yields := t_yields (tasks S ! current S) + 1\<rparr>], current := i\<rparr>, Some (current S, i))"
      by (simp add: Yield_def Let_def)
    with False pk(2-4) show ?thesis by (intro switch)
  qed
qed

lemma sched_ok_used: "sched_ok S \<Longrightarrow> i \<in> used_slots S \<Longrightarrow> t_state (tasks S ! i) \<in> {TASK_READY, TASK_SLEEPING}"
  by (cases "t_state (tasks S ! i)") (auto simp: sched_ok_def used_slots_def)

lemma Yield_ok:
  assumes ok: "sched_ok S"
  shows "sched_ok (fst (Yield now S)) \<and> used_slots (fst (Yield now S)) = used_slots S
    \<and> spawned_count (fst (Yield now S)) = spawned_count S
    \<and> (\<forall>j < 8. stack_base (tasks (fst (Yield now S)) ! j) = stack_base (tasks S ! j))"
proof (cases "\<exists>j < 8. runnable now (tasks S ! j)")
  case False
  with Yield_idle [OF ok, of now] ok show ?thesis by auto
next
  case True
  then obtain j where j: "j < 8" "runnable now (tasks S ! j)" by blast
  have cur: "current S \<in> used_slots S" using ok by (simp add: sched_ok_def)
  show ?thesis
    using ok j
  proof (cases rule: Yield_pick)
    case stay
    note w = woken_state [OF stay(2)]
    from sched_ok_update [OF ok cur, of "woken (tasks S ! current S)" "current S"] w cur stay(1)
    show ?thesis by (simp add: nth_list_update sched_ok_sel [OF ok])
  next
    case (switch i)
    let ?S1 = "S\<lparr>tasks := (tasks S)[i := woken (tasks S ! i)], current := current S\<rparr>"
    have iu: "i \<in> used_slots S" using sched_ok_sel(4) [OF ok switch(1,3)] .
    note u1 = sched_ok_update [OF ok iu, of "woken (tasks S ! i)" "current S"]
    from u1 woken_state [OF switch(3)] cur have s1: "sched_ok ?S1" "used_slots ?S1 = used_slots S" by simp_all
    let ?t = "(tasks S ! current S)\<lparr>t_yields := t_yields (tasks S ! current S) + 1\<rparr>"
    have "tasks ?S1 ! current S = tasks S ! current S" using switch(2) by simp
    with sched_ok_update [OF s1(1), of "current S" ?t i] s1(2) cur iu sched_ok_used [OF ok cur] switch(1,5)
    show ?thesis by (simp add: nth_list_update sched_ok_sel [OF ok])
  qed
qed

definition sleep_mark :: "u32 \<Rightarrow> u32 \<Rightarrow> sched \<Rightarrow> sched" where
  "sleep_mark now ms S = S\<lparr>tasks := (tasks S)[current S := (tasks S ! current S)
     \<lparr>sleep_until := now + sleep_ticks ms, t_state := TASK_SLEEPING\<rparr>]\<rparr>"

lemma Sleep_Yield: "sched_ready S \<Longrightarrow> Sleep now ms S = Yield now (sleep_mark now ms S)"
  by (simp add: Sleep_def sleep_mark_def sleep_ticks_def Let_def)

lemma sleep_mark_ok:
  assumes ok: "sched_ok S"
  shows "sched_ok (sleep_mark now ms S)" "used_slots (sleep_mark now ms S) = used_slots S"
    "current (sleep_mark now ms S) = current S" "spawned_count (sleep_mark now ms S) = spawned_count S"
    "j \<noteq> current S \<Longrightarrow> tasks (sleep_mark now ms S) ! j = tasks S ! j"
    "t_state (tasks (sleep_mark now ms S) ! current S) = TASK_SLEEPING"
    "sleep_until (tasks (sleep_mark now ms S) ! current S) = now + sleep_ticks ms"
    "stack_base (tasks (sleep_mark now ms S) ! j) = stack_base (tasks S ! j)"
proof -
  have cur: "current S \<in> used_slots S" using ok by (simp add: sched_ok_def)
  from sched_ok_update [OF ok cur, of "(tasks S ! current S)
     \<lparr>sleep_until := now + sleep_ticks ms, t_state := TASK_SLEEPING\<rparr>" "current S"] cur
  show "sched_ok (sleep_mark now ms S)" "used_slots (sleep_mark now ms S) = used_slots S"
    by (simp_all add: sleep_mark_def)
qed (use sched_ok_sel [OF ok] in \<open>auto simp: sleep_mark_def nth_list_update\<close>)

lemma Sleep_ok:
  assumes "sched_ok S"
  shows "sched_ok (fst (Sleep now ms S)) \<and> used_slots (fst (Sleep now ms S)) = used_slots S
    \<and> spawned_count (fst (Sleep now ms S)) = spawned_count S
    \<and> (\<forall>j < 8. stack_base (tasks (fst (Sleep now ms S)) ! j) = stack_base (tasks S ! j))"
  using Yield_ok [of "sleep_mark now ms S" now] sleep_mark_ok [OF assms, where now = now and ms = ms]
  by (simp add: Sleep_Yield sched_ok_sel [OF assms])

section \<open>Fairness\<close>

text \<open>What a running task does to the scheduler, at some value of the tick counter.\<close>

datatype action = AYield u32 | ASleep u32 u32

fun act :: "action \<Rightarrow> sched \<Rightarrow> sched" where
  "act (AYield now) S = fst (Yield now S)"
| "act (ASleep now ms) S = fst (Sleep now ms S)"

lemma act_ok: "sched_ok S \<Longrightarrow> sched_ok (act a S)"
  using Yield_ok Sleep_ok by (cases a) auto

lemma Yield_closer:
  assumes ok: "sched_ok S" and j: "j < 8" "j \<noteq> current S" "t_state (tasks S ! j) = TASK_READY"
  shows "current (fst (Yield now S)) = j \<or>
    (t_state (tasks (fst (Yield now S)) ! j) = TASK_READY
     \<and> slot_dist (current (fst (Yield now S))) j < slot_dist (current S) j)"
proof -
  have r: "runnable now (tasks S ! j)" using j(3) by (simp add: runnable_def)
  have cur: "current S < 8" "length (tasks S) = 8" using sched_ok_sel [OF ok] by simp_all
  show ?thesis
    using ok j(1) r
  proof (cases rule: Yield_pick)
    case stay
    from stay(3) [OF j(1) r] j(2) show ?thesis by simp
  next
    case (switch i)
    show ?thesis
    proof (cases "i = j")
      case False
      from switch(4) [OF j(1) r] switch(1,2) j(1,2) cur False
      have "slot_dist i j < slot_dist (current S) j"
        by (auto simp: slot_dist_def MAX_TASKS_def split: if_splits)
      with False switch(5) j cur show ?thesis by simp
    qed (use switch(5) in simp)
  qed
qed

lemma act_closer:
  assumes ok: "sched_ok S" and j: "j < 8" "j \<noteq> current S" "t_state (tasks S ! j) = TASK_READY"
  shows "current (act a S) = j \<or>
    (t_state (tasks (act a S) ! j) = TASK_READY \<and> slot_dist (current (act a S)) j < slot_dist (current S) j)"
proof (cases a)
  case (AYield now)
  with Yield_closer [OF assms] show ?thesis by simp
next
  case (ASleep now ms)
  with Yield_closer [of "sleep_mark now ms S" j now] sleep_mark_ok [OF ok, where now = now and ms = ms] j
    sched_ok_sel(3) [OF ok] show ?thesis by (simp add: Sleep_Yield)
qed

lemma act_reaches:
  assumes "sched_ok S" "j < 8" "j \<noteq> current S" "t_state (tasks S ! j) = TASK_READY"
    "slot_dist (current S) j \<le> length as"
  shows "\<exists>k. 0 < k \<and> k \<le> slot_dist (current S) j \<and> current (fold act (take k as) S) = j"
  using assms
proof (induction "slot_dist (current S) j" arbitrary: S as rule: less_induct)
  case less
  have "0 < slot_dist (current S) j"
    using scan_order_at(3) [OF sched_ok_sel(1) [OF less.prems(1)] less.prems(2)] .
  with less.prems(5) obtain a as' where as: "as = a # as'" by (cases as) auto
  from act_closer [OF less.prems(1-4), of a] show ?case
  proof
    assume "current (act a S) = j"
    with \<open>0 < slot_dist (current S) j\<close> show ?case by (intro exI [of _ 1]) (simp add: as)
  next
    assume c: "t_state (tasks (act a S) ! j) = TASK_READY \<and> slot_dist (current (act a S)) j < slot_dist (current S) j"
    show ?case
    proof (cases "current (act a S) = j")
      case True
      with \<open>0 < slot_dist (current S) j\<close> show ?thesis by (intro exI [of _ 1]) (simp add: as)
    next
      case False
      with less.hyps [of "act a S" as'] c act_ok [OF less.prems(1)] less.prems(2,5)
      obtain k where "0 < k" "k \<le> slot_dist (current (act a S)) j" "current (fold act (take k as') (act a S)) = j"
        by (auto simp: as)
      with c show ?thesis by (intro exI [of _ "Suc k"]) (auto simp: as)
    qed
  qed
qed

section \<open>Spawn\<close>

lemma find_slot_None: "find_slot (tasks S) = None \<longleftrightarrow> used_slots S = {0..<8}"
  unfolding find_slot_def find_None_iff used_slots_def MAX_TASKS_def set_upt set_eq_iff
    mem_Collect_eq atLeastLessThan_iff
  using le0 by blast

lemma find_slot_Some:
  "find_slot (tasks S) = Some slot \<Longrightarrow> slot < 8 \<and> slot \<notin> used_slots S \<and> (\<forall>i < slot. i \<in> used_slots S)"
  by (auto simp: find_slot_def find_Some_iff used_slots_def MAX_TASKS_def)

lemma length_copy_name [simp]: "length (copy_name m p i nm) = length nm"
proof (induction m p i nm rule: copy_name.induct)
  case (1 m p i nm)
  then show ?case
    by (cases "m (p + of_nat i) \<noteq> 0 \<and> i < 15") (auto simp: copy_name.simps [of m p i nm])
qed

lemma copy_name_nul: "length nm = 16 \<Longrightarrow> i \<le> 15 \<Longrightarrow> 0 \<in> set (copy_name m p i nm)"
proof (induction m p i nm rule: copy_name.induct)
  case (1 m p i nm)
  then show ?case
    by (cases "m (p + of_nat i) \<noteq> 0 \<and> i < 15") (auto simp: copy_name.simps [of m p i nm] set_update_memI)
qed

lemma store32_range:
  assumes "store32 m (of_nat a) v x \<noteq> m x" "a + 4 \<le> 2 ^ 32"
  shows "a \<le> unat x \<and> unat x < a + 4"
proof (rule ccontr)
  assume "\<not> (a \<le> unat x \<and> unat x < a + 4)"
  then have "a + 4 \<le> unat x \<or> unat x + 1 \<le> a" by auto
  from store32_other [OF this assms(2), of m v] unat_u32_less [of x] assms(1) show False by simp
qed

lemma stack_addr:
  "unat stack + 4096 < 2 ^ 32 \<Longrightarrow> k \<le> 4096 \<Longrightarrow> stack + STACK_SIZE - of_nat k = of_nat (unat stack + 4096 - k)"
  by (simp add: STACK_SIZE_def of_nat_diff)

lemma format_stack_nat:
  assumes "unat stack + 4096 < 2 ^ 32"
  shows "format_stack stack entry m =
    store32 (store32 (store32 (store32 (store32 m (of_nat (unat stack + 4092)) entry)
      (of_nat (unat stack + 4088)) 0) (of_nat (unat stack + 4084)) 0) (of_nat (unat stack + 4080)) 0)
      (of_nat (unat stack + 4076)) 0"
  by (simp add: format_stack_def Let_def STACK_SIZE_def ac_simps)

lemma format_stack_range:
  assumes "unat stack + 4096 < 2 ^ 32" "format_stack stack entry m x \<noteq> m x"
  shows "unat stack \<le> unat x \<and> unat x < unat stack + 4096"
proof (rule ccontr)
  assume o: "\<not> (unat stack \<le> unat x \<and> unat x < unat stack + 4096)"
  have s: "store32 m' (of_nat (unat stack + d)) v x = m' x" if "d + 4 \<le> 4096" for m' v d
  proof (rule ccontr)
    assume "store32 m' (of_nat (unat stack + d)) v x \<noteq> m' x"
    from store32_range [OF this] o assms(1) that show False by auto
  qed
  have "format_stack stack entry m x = m x"
    unfolding format_stack_nat [OF assms(1)] by (simp add: s del: of_nat_add)
  with assms(2) show False by simp
qed

lemma format_stack_loads:
  assumes "unat stack + 4096 < 2 ^ 32"
  shows "load32 (format_stack stack entry m) (of_nat (unat stack + 4092)) = entry"
    "d \<in> {4076, 4080, 4084, 4088} \<Longrightarrow> load32 (format_stack stack entry m) (of_nat (unat stack + d)) = 0"
  using assms unfolding format_stack_nat [OF assms]
  by (auto simp: load32_store32_other simp del: of_nat_add)

lemma Spawn_cases:
  assumes ok: "sched_ok S" and inv: "heap_inv M H"
  obtains (full) "used_slots S = {0..<8}" "Spawn entry name (M, H, S) = Some (-1, M, H, S)"
  | (oom) M1 where "Spawn entry name (M, H, S) = Some (-1, M1, H, S)" "ram M1 = ram M"
      "heap_inv M1 H" "heap_regions M1 H = heap_regions M H"
  | (new) slot stack M1 H1 t where
      "slot < 8" "slot \<notin> used_slots S" "\<forall>i < slot. i \<in> used_slots S"
      "Spawn entry name (M, H, S) = Some (int slot, M1, H1,
         S\<lparr>tasks := (tasks S)[slot := t], spawned_count := spawned_count S + 1\<rparr>)"
      "heap_inv M1 H1" "stack \<noteq> 0" "unat stack + 4096 < 2 ^ 32"
      "\<exists>k \<ge> 4096. heap_regions M1 H1 = insert (unat stack, k) (heap_regions M H)"
      "\<forall>l. (unat stack, l) \<notin> heap_regions M H"
      "\<forall>(q, l) \<in> heap_regions M H. \<forall>x. q \<le> x \<and> x < q + l \<longrightarrow> ram M1 (of_nat x) = ram M (of_nat x)"
      "t_state t = TASK_READY" "t_id t = spawned_count S" "stack_base t = stack"
      "stack_top t = stack + STACK_SIZE" "t_esp t = stack + STACK_SIZE - 20" "length (t_name t) = 16"
      "\<exists>m. ram M1 = format_stack stack entry m" "0 \<in> set (t_name t)"
proof (cases "find_slot (tasks S)")
  case None
  have "sched_ready S" using ok by (simp add: sched_ok_def)
  with None have "Spawn entry name (M, H, S) = Some (-1, M, H, S)" by (simp add: Spawn_def)
  with None show thesis by (intro full) (simp_all only: find_slot_None)
next
  case (Some slot)
  from find_slot_Some [OF this] have sl: "slot < 8" "slot \<notin> used_slots S" "\<forall>i < slot. i \<in> used_slots S"
    by auto
  have rdy: "sched_ready S" using ok by (simp add: sched_ok_def)
  obtain stack s1 where al: "heap_alloc STACK_SIZE (M, H) = Some (stack, s1)"
    using kheap.alloc_returns [of "(M, H)" STACK_SIZE] inv by auto
  obtain M1 H1 where s1: "s1 = (M1, H1)" by (cases s1)
  from al have al': "Heap_Alloc STACK_SIZE M H = Some (stack, M1, H1)" by (simp add: heap_alloc_def s1)
  have n: "STACK_SIZE \<le> 0xFFFFFFF8" "unat STACK_SIZE = 4096" by (simp_all add: STACK_SIZE_def)
  show thesis
  proof (cases "stack = 0")
    case True
    with al have "heap_regions M1 H1 = heap_regions M H \<and> ram M1 = ram M" "heap_inv M1 H1"
      using kheap.alloc_null [of "(M, H)" STACK_SIZE s1] kheap.alloc_inv [of "(M, H)" STACK_SIZE 0 s1] inv
      by (auto simp: s1)
    moreover have "H1 = H"
      using heap_alloc_null [of M H _ STACK_SIZE M1 H1] al' inv True by (auto simp: heap_inv_iff)
    ultimately show thesis using oom Some rdy al' True by (simp add: Spawn_def)
  next
    case False
    define m where "m = format_stack stack entry (ram M1)"
    from kheap.alloc_new [OF _ al False n(1)] inv obtain k where k: "4096 \<le> k"
      "heap_regions M1 H1 = insert (unat stack, k) (heap_regions M H)"
      "\<forall>l. (unat stack, l) \<notin> heap_regions M H" by (auto simp: s1 n(2))
    have i1: "heap_inv M1 H1" using kheap.alloc_inv [OF _ al] inv by (simp add: s1)
    with kheap.regions_bound [of "(M1, H1)" "unat stack" k] k have b: "unat stack + 4096 < 2 ^ 32" by auto
    have "heap_inv (M1\<lparr>ram := m\<rparr>) H1 \<and> heap_regions (M1\<lparr>ram := m\<rparr>) H1 = heap_regions M1 H1
        \<and> (\<forall>(q, l) \<in> heap_regions M H. \<forall>x. q \<le> x \<and> x < q + l \<longrightarrow> m (of_nat x) = ram M (of_nat x))"
      using kheap.write_new_region [OF _ al False n(1), of m] inv format_stack_range [OF b, of entry "ram M1"]
      by (auto simp: s1 n(2) heap_put_def m_def)
    then have put: "heap_inv (M1\<lparr>ram := m\<rparr>) H1" "heap_regions (M1\<lparr>ram := m\<rparr>) H1 = heap_regions M1 H1"
      "\<forall>(q, l) \<in> heap_regions M H. \<forall>x. q \<le> x \<and> x < q + l \<longrightarrow> m (of_nat x) = ram M (of_nat x)" by auto
    have log: "heap_inv (log_line xs M') H1 = heap_inv M' H1" "heap_regions (log_line xs M') H1 = heap_regions M' H1"
      for xs M' by (simp_all add: heap_inv_def heap_ok_def heap_blocks_def heap_regions_def)
    define t where "t = (tasks S ! slot)\<lparr>t_esp := stack + STACK_SIZE - 20, stack_base := stack,
      stack_top := stack + STACK_SIZE, sleep_until := 0, t_state := TASK_READY, t_id := spawned_count S,
      t_yields := 0, t_name := copy_name m name 0 (t_name (tasks S ! slot))\<rparr>"
    define M2 where "M2 = log_line [LStr (''> Scheduler: spawned task '' @ [CHR 0x27]),
      LStr (name_string (t_name t)), LStr (CHR 0x27 # '' id=''), LInt (t_id t)] (M1\<lparr>ram := m\<rparr>)"
    have "Spawn entry name (M, H, S) = Some (int slot, M2, H1,
        S\<lparr>tasks := (tasks S)[slot := t], spawned_count := spawned_count S + 1\<rparr>)"
      unfolding M2_def t_def m_def using Some rdy al' False by (simp add: Spawn_def Let_def)
    moreover have "heap_inv M2 H1" "heap_regions M2 H1 = insert (unat stack, k) (heap_regions M H)" "ram M2 = m"
      using put k(2) by (simp_all add: M2_def log)
    moreover have "length (t_name t) = 16" "0 \<in> set (t_name t)"
      using ok sl(1) copy_name_nul [of "t_name (tasks S ! slot)" 0] by (simp_all add: t_def sched_ok_def)
    ultimately show thesis
      using False b k put(3) by (intro new [OF sl, where t = t and ?M1.0 = M2 and ?H1.0 = H1 and stack = stack])
        (auto simp: t_def m_def)
  qed
qed

lemma sched_ok_spawn:
  assumes ok: "sched_ok S" and sl: "slot < 8" "slot \<notin> used_slots S"
    and t: "t_state t = TASK_READY" "t_id t = spawned_count S" "length (t_name t) = 16"
  shows "sched_ok (S\<lparr>tasks := (tasks S)[slot := t], spawned_count := spawned_count S + 1\<rparr>)"
    "used_slots (S\<lparr>tasks := (tasks S)[slot := t], spawned_count := spawned_count S + 1\<rparr>)
       = insert slot (used_slots S)"
proof -
  let ?S = "S\<lparr>tasks := (tasks S)[slot := t], spawned_count := spawned_count S + 1\<rparr>"
  have len: "length (tasks S) = 8" using ok by (simp add: sched_ok_def)
  show u: "used_slots ?S = insert slot (used_slots S)"
    using len sl(1) t(1) by (auto simp: used_slots_def nth_list_update)
  have c: "card (insert slot (used_slots S)) = Suc (card (used_slots S))"
    using sl(2) by simp
  have "card (insert slot (used_slots S)) \<le> 8" using used_slots_finite(2) [of ?S] by (simp only: u)
  then have sc: "unat (spawned_count S + 1) = unat (spawned_count S) + 1"
    using ok c by (intro unat_plus_one_u32) (simp add: sched_ok_def)
  have other: "tasks ?S ! i = tasks S ! i" if "i \<in> used_slots S" for i
    using that sl(2) by (cases "i = slot") auto
  have new: "tasks ?S ! slot = t" using len sl(1) by simp
  have less: "t_id (tasks S ! i) < spawned_count S" if "i \<in> used_slots S" for i
    using ok that by (simp add: sched_ok_def)
  have "spawned_count S < spawned_count S + 1" using sc by (simp add: word_less_nat_alt)
  moreover have "inj_on (\<lambda>i. t_id (tasks ?S ! i)) (insert slot (used_slots S))"
  proof -
    have "inj_on (\<lambda>i. t_id (tasks ?S ! i)) (used_slots S)"
      using ok other by (simp add: sched_ok_def inj_on_def)
    moreover have "t_id (tasks ?S ! slot) \<notin> (\<lambda>i. t_id (tasks ?S ! i)) ` (used_slots S - {slot})"
    proof
      assume "t_id (tasks ?S ! slot) \<in> (\<lambda>i. t_id (tasks ?S ! i)) ` (used_slots S - {slot})"
      then obtain i where i: "i \<in> used_slots S" "t_id (tasks ?S ! slot) = t_id (tasks ?S ! i)" by blast
      then have "spawned_count S = t_id (tasks S ! i)" by (simp only: new other t(2))
      with less [OF i(1)] show False by simp
    qed
    ultimately show ?thesis by (rule inj_on_insert [THEN iffD2, OF conjI])
  qed
  moreover have "t_state (tasks ?S ! i) \<noteq> TASK_DONE \<and> length (t_name (tasks ?S ! i)) = 16" if "i < 8" for i
    using ok t that len by (cases "i = slot") (auto simp: sched_ok_def)
  moreover have "t_id (tasks ?S ! i) < spawned_count S + 1" if "i \<in> insert slot (used_slots S)" for i
  proof (cases "i = slot")
    case True
    with new t(2) calculation(1) show ?thesis by simp
  next
    case False
    with that less [of i] calculation(1) other [of i] show ?thesis by (auto intro: less_trans)
  qed
  ultimately show "sched_ok ?S"
    using ok u c sc by (simp add: sched_ok_def)
qed

section \<open>Reachable states of the kernel's tasks\<close>

text \<open>Every task but the first owns its stack as a heap block, and no two share one.\<close>

definition stacks_ok :: "mach \<Rightarrow> heap \<Rightarrow> sched \<Rightarrow> bool" where
  "stacks_ok M H S \<longleftrightarrow> 0 \<in> used_slots S
     \<and> (\<forall>i \<in> used_slots S - {0}. \<exists>k \<ge> 4096. (unat (stack_base (tasks S ! i)), k) \<in> heap_regions M H)
     \<and> inj_on (\<lambda>i. stack_base (tasks S ! i)) (used_slots S - {0})"

definition stack_bases :: "sched \<Rightarrow> u32 set" where
  "stack_bases S = (\<lambda>i. stack_base (tasks S ! i)) ` (used_slots S - {0})"

inductive task_reach :: "mach \<Rightarrow> heap \<Rightarrow> sched \<Rightarrow> bool" where
  start: "heap_inv M H \<Longrightarrow> length (tasks S0) = 8 \<Longrightarrow>
    Scheduler_Start cb (M, T, S0) = (M', T', S) \<Longrightarrow> task_reach M' H S"
| yield: "task_reach M H S \<Longrightarrow> task_reach M H (fst (Yield now S))"
| sleep: "task_reach M H S \<Longrightarrow> task_reach M H (fst (Sleep now ms S))"
| spawn: "task_reach M H S \<Longrightarrow> Spawn entry name (M, H, S) = Some (r, M', H', S') \<Longrightarrow>
    task_reach M' H' S'"
| heap_alloc: "task_reach M H S \<Longrightarrow> n \<le> 0xFFFFFFF8 \<Longrightarrow> Heap_Alloc n M H = Some (p, M', H') \<Longrightarrow>
    task_reach M' H' S"
| heap_free: "task_reach M H S \<Longrightarrow> (unat p, k) \<in> heap_regions M H \<Longrightarrow> p \<notin> stack_bases S \<Longrightarrow>
    Heap_Free p M H = Some (M', H') \<Longrightarrow> task_reach M' H' S"

lemma Scheduler_Start_ok:
  assumes "Scheduler_Start cb (M, T, S0) = (M', T', S)" "length (tasks S0) = 8"
  shows "sched_ok S" "used_slots S = {0}" "preempt_cb T' = cb" "current S = 0" "t_name (tasks S ! 0) = kernel_name @ replicate 9 0"
    "\<exists>l. M' = M\<lparr>klog := l\<rparr>"
proof -
  have S: "S = \<lparr>tasks = (map (\<lambda>t. t\<lparr>t_state := TASK_UNUSED, t_esp := 0, stack_base := 0, stack_top := 0,
        sleep_until := 0, t_id := -1, t_yields := 0, t_name := replicate 16 0\<rparr>) (tasks S0))
      [0 := (tasks S0 ! 0)\<lparr>t_esp := 0, stack_base := 0, stack_top := 0, sleep_until := 0,
        t_yields := 0, t_state := TASK_READY, t_id := 0, t_name := kernel_name @ replicate 9 0\<rparr>],
      current = 0, spawned_count = 1, sched_ready = True\<rparr>"
    using assms by (auto simp: Scheduler_Start_def Let_def numeral_eq_Suc)
  then show u: "used_slots S = {0}"
    using assms(2) by (auto simp: used_slots_def nth_list_update)
  show "current S = 0" "t_name (tasks S ! 0) = kernel_name @ replicate 9 0" using assms(2) by (simp_all add: S)
  have "t_state (tasks S ! i) \<noteq> TASK_DONE \<and> length (t_name (tasks S ! i)) = 16" if "i < 8" for i
    using assms(2) that by (auto simp: S nth_list_update kernel_name_def)
  moreover have "sched_ready S" "length (tasks S) = 8" "current S = 0" "spawned_count S = 1" "t_id (tasks S ! 0) = 0"
    using assms(2) by (simp_all add: S)
  ultimately show "sched_ok S" unfolding sched_ok_def u by simp
  show "preempt_cb T' = cb" "\<exists>l. M' = M\<lparr>klog := l\<rparr>"
    using assms(1) by (auto simp: Scheduler_Start_def Let_def RegisterPreemptCallback_def log_line_def)
qed

lemma stacks_ok_keep:
  assumes "stacks_ok M H S" "used_slots S' = used_slots S"
    "\<forall>j < 8. stack_base (tasks S' ! j) = stack_base (tasks S ! j)"
  shows "stacks_ok M H S'"
proof -
  have "stack_base (tasks S' ! j) = stack_base (tasks S ! j)" if "j \<in> used_slots S" for j
    using that assms(3) by (simp add: used_slots_def)
  with assms(1,2) show ?thesis by (auto simp: stacks_ok_def inj_on_def)
qed

lemma stacks_ok_regions:
  assumes "stacks_ok M H S" "heap_regions M H \<subseteq> heap_regions M' H'"
  shows "stacks_ok M' H' S"
  using assms by (fastforce simp: stacks_ok_def)

lemma heap_inv_klog [simp]: "heap_inv (M\<lparr>klog := l\<rparr>) H = heap_inv M H"
  by (simp add: heap_inv_def heap_blocks_def heap_ok_def)

lemma Spawn_sound:
  assumes "sched_ok S" "heap_inv M H" "stacks_ok M H S" "Spawn entry name (M, H, S) = Some (r, M', H', S')"
  shows "heap_inv M' H' \<and> sched_ok S' \<and> stacks_ok M' H' S'"
  using assms(1,2)
proof (cases rule: Spawn_cases [of _ _ _ entry name])
  case full
  with assms show ?thesis by simp
next
  case (oom M1)
  with assms stacks_ok_regions [of M H S M1 H] show ?thesis by simp
next
  case (new slot stack M1 H1 t)
  with assms(4) have e: "M' = M1" "H' = H1"
    "S' = S\<lparr>tasks := (tasks S)[slot := t], spawned_count := spawned_count S + 1\<rparr>" by auto
  note s = sched_ok_spawn [OF assms(1) new(1,2,11,12,16)]
  have "0 \<noteq> slot" using assms(3) new(2) unfolding stacks_ok_def by blast
  have len: "length (tasks S) = 8" using assms(1) by (simp add: sched_ok_def)
  have old: "tasks S' ! i = tasks S ! i" if "i \<in> used_slots S" for i
    using that new(2) by (cases "i = slot") (auto simp: e)
  have nw: "tasks S' ! slot = t" using len new(1) by (simp add: e)
  have "stack_base (tasks S ! i) \<noteq> stack" if "i \<in> used_slots S - {0}" for i
    using assms(3) new(9) that by (auto simp: stacks_ok_def)
  note fresh = this
  obtain k0 where k0: "4096 \<le> k0" "heap_regions M1 H1 = insert (unat stack, k0) (heap_regions M H)" using new(8) by blast
  have u: "used_slots S' = insert slot (used_slots S)" using s(2) by (simp add: e)
  have z: "0 \<in> used_slots S" "inj_on (\<lambda>i. stack_base (tasks S ! i)) (used_slots S - {0})"
    and r: "\<And>i. i \<in> used_slots S - {0} \<Longrightarrow> \<exists>k \<ge> 4096. (unat (stack_base (tasks S ! i)), k) \<in> heap_regions M H"
    using assms(3) by (simp_all add: stacks_ok_def)
  have "\<exists>k \<ge> 4096. (unat (stack_base (tasks S' ! i)), k) \<in> heap_regions M1 H1" if "i \<in> used_slots S' - {0}" for i
  proof (cases "i = slot")
    case True
    then show ?thesis using k0 nw new(13) by auto
  next
    case False
    with that have "i \<in> used_slots S - {0}" by (simp add: u)
    with r [OF this] old show ?thesis unfolding k0(2) by auto
  qed
  moreover have "inj_on (\<lambda>i. stack_base (tasks S' ! i)) (used_slots S' - {0})"
  proof -
    have "used_slots S' - {0} = insert slot (used_slots S - {0})" using \<open>0 \<noteq> slot\<close> by (auto simp: u)
    moreover have "inj_on (\<lambda>i. stack_base (tasks S' ! i)) (used_slots S - {0})"
      using z(2) old by (simp add: inj_on_def)
    moreover have "stack_base (tasks S' ! slot) \<notin> (\<lambda>i. stack_base (tasks S' ! i)) ` (used_slots S - {0})"
    proof
      assume "stack_base (tasks S' ! slot) \<in> (\<lambda>i. stack_base (tasks S' ! i)) ` (used_slots S - {0})"
      then obtain x where x: "x \<in> used_slots S - {0}" "stack_base (tasks S' ! slot) = stack_base (tasks S' ! x)" by blast
      with fresh [OF x(1)] old nw new(13) show False by simp
    qed
    ultimately show ?thesis by (simp only: inj_on_insert) blast
  qed
  ultimately have "stacks_ok M1 H1 S'" using z(1) by (simp add: stacks_ok_def u)
  with s(1) new(5) show ?thesis by (simp add: e)
qed

lemma task_reach_ok: "task_reach M H S \<Longrightarrow> heap_inv M H \<and> sched_ok S \<and> stacks_ok M H S"
proof (induction rule: task_reach.induct)
  case (start M H S0 cb T M' T' S)
  note st = Scheduler_Start_ok [OF start(3,2)]
  from st(6) obtain l where "M' = M\<lparr>klog := l\<rparr>" by blast
  then have "heap_inv M' H" using start(1) by simp
  moreover have "stacks_ok M' H S" by (simp add: stacks_ok_def st(2))
  ultimately show ?case using st(1) by simp
next
  case (yield M H S now)
  with Yield_ok [of S now] stacks_ok_keep show ?case by blast
next
  case (sleep M H S now ms)
  with Sleep_ok [of S now ms] stacks_ok_keep show ?case by blast
next
  case (spawn M H S entry name r M' H' S')
  with Spawn_sound [of S M H] show ?case by blast
next
  case (heap_alloc M H S n p M' H')
  have "heap_regions M H \<subseteq> heap_regions M' H'"
    using kheap.alloc_keeps [of "(M, H)" n p "(M', H')"] heap_alloc by (auto simp: heap_alloc_def)
  moreover have "heap_inv M' H'"
    using kheap.alloc_inv [of "(M, H)" n p "(M', H')"] heap_alloc by (auto simp: heap_alloc_def)
  ultimately show ?case using heap_alloc stacks_ok_regions by blast
next
  case (heap_free M H S p k M' H')
  from kheap.release_ok [of "(M, H)" p k] heap_free
  have r: "heap_inv M' H'" "heap_regions M' H' = heap_regions M H - {(unat p, k)}"
    by (auto simp: heap_release_def)
  have "stacks_ok M' H' S"
    unfolding stacks_ok_def r(2)
  proof (intro conjI ballI)
    fix i assume i: "i \<in> used_slots S - {0}"
    then obtain l where l: "4096 \<le> l" "(unat (stack_base (tasks S ! i)), l) \<in> heap_regions M H"
      using heap_free by (auto simp: stacks_ok_def)
    have "stack_base (tasks S ! i) \<noteq> p" using i heap_free(3) by (auto simp: stack_bases_def)
    then have "unat (stack_base (tasks S ! i)) \<noteq> unat p" by (simp add: word_unat_eq_iff)
    with l show "\<exists>l \<ge> 4096. (unat (stack_base (tasks S ! i)), l) \<in> heap_regions M H - {(unat p, k)}" by auto
  qed (use heap_free in \<open>auto simp: stacks_ok_def\<close>)
  with r heap_free show ?case by simp
qed

section \<open>Properties\<close>

text \<open>A table for the closed instances: two ready tasks, one asleep until tick 50, five free slots.\<close>

definition sample_sched :: sched where
  "sample_sched = \<lparr>tasks = [blank_task\<lparr>t_state := TASK_READY, t_id := 0\<rparr>,
       blank_task\<lparr>t_state := TASK_READY, t_id := 1\<rparr>,
       blank_task\<lparr>t_state := TASK_SLEEPING, t_id := 2, sleep_until := 50\<rparr>,
       blank_task, blank_task, blank_task, blank_task, blank_task],
     current = 1, spawned_count = 3, sched_ready = True\<rparr>"

lemma sample_at:
  "tasks sample_sched ! 0 = blank_task\<lparr>t_state := TASK_READY, t_id := 0\<rparr>"
  "tasks sample_sched ! 1 = blank_task\<lparr>t_state := TASK_READY, t_id := 1\<rparr>"
  "tasks sample_sched ! 2 = blank_task\<lparr>t_state := TASK_SLEEPING, t_id := 2, sleep_until := 50\<rparr>"
  "3 \<le> i \<Longrightarrow> i < 8 \<Longrightarrow> tasks sample_sched ! i = blank_task"
proof -
  have "sample_sched = sample_sched\<lparr>tasks := [blank_task\<lparr>t_state := TASK_READY, t_id := 0\<rparr>,
       blank_task\<lparr>t_state := TASK_READY, t_id := 1\<rparr>,
       blank_task\<lparr>t_state := TASK_SLEEPING, t_id := 2, sleep_until := 50\<rparr>] @ replicate 5 blank_task\<rparr>"
    by (simp add: sample_sched_def eval_nat_numeral)
  from arg_cong [OF this, of tasks] have ts: "tasks sample_sched = [blank_task\<lparr>t_state := TASK_READY, t_id := 0\<rparr>,
       blank_task\<lparr>t_state := TASK_READY, t_id := 1\<rparr>,
       blank_task\<lparr>t_state := TASK_SLEEPING, t_id := 2, sleep_until := 50\<rparr>] @ replicate 5 blank_task"
    by simp
  show "3 \<le> i \<Longrightarrow> i < 8 \<Longrightarrow> tasks sample_sched ! i = blank_task"
    by (simp add: ts nth_append)
qed (simp_all add: sample_sched_def)

lemma sample_slot_cases: "(i :: nat) < 8 \<Longrightarrow> i = 0 \<or> i = 1 \<or> i = 2 \<or> 3 \<le> i"
  by linarith

lemma sample_used: "used_slots sample_sched = {0, 1, 2}"
proof -
  have "i \<in> used_slots sample_sched \<longleftrightarrow> i \<in> {0, 1, 2}" for i
  proof (cases "3 \<le> i \<and> i < 8")
    case True
    then show ?thesis by (simp add: used_slots_def sample_at(4) blank_task_def)
  next
    case False
    then have "8 \<le> i \<or> i = 0 \<or> i = 1 \<or> i = 2" by linarith
    then show ?thesis using sample_at(1-3) by (elim disjE) (simp_all add: used_slots_def)
  qed
  then show ?thesis by blast
qed

lemma sample_sched_ok: "sched_ok sample_sched"
proof -
  have s: "t_state (tasks sample_sched ! i) \<noteq> TASK_DONE \<and> length (t_name (tasks sample_sched ! i)) = 16"
    if "i < 8" for i
    using sample_slot_cases [OF that] sample_at(1-3) sample_at(4) [OF _ that]
    by (elim disjE) (simp_all add: blank_task_def)
  have t: "t_id (tasks sample_sched ! 0) = 0" "t_id (tasks sample_sched ! 1) = 1"
    "t_id (tasks sample_sched ! 2) = 2"
    using sample_at(1-3) by simp_all
  have r: "sched_ready sample_sched" "length (tasks sample_sched) = 8" "current sample_sched = 1"
    "spawned_count sample_sched = 3"
    by (simp_all add: sample_sched_def)
  have "inj_on (\<lambda>i. t_id (tasks sample_sched ! i)) {0, 1, 2}"
    using t by (simp add: inj_on_def)
  moreover have "\<forall>i \<in> {0, 1, 2}. t_id (tasks sample_sched ! i) < 3"
    using t by (simp add: word_less_nat_alt)
  ultimately show ?thesis
    unfolding sched_ok_def sample_used r(2-4) using s r(1) by simp
qed

text \<open>PickNext returns the first runnable slot after the current one in cyclic order (ready, or
  asleep past its deadline), wakes exactly that one, and falls back to the current slot when
  there is none.\<close>

theorem sched_pick_next:
  assumes "sched_ok S"
  shows "case PickNext now S of (i, S') \<Rightarrow>
     if \<exists>j < 8. runnable now (tasks S ! j)
     then i < 8 \<and> runnable now (tasks S ! i) \<and> S' = S\<lparr>tasks := (tasks S)[i := woken (tasks S ! i)]\<rparr>
       \<and> (\<forall>j < 8. runnable now (tasks S ! j) \<longrightarrow> slot_dist (current S) i \<le> slot_dist (current S) j)
     else i = current S \<and> S' = S"
proof (cases "\<exists>j < 8. runnable now (tasks S ! j)")
  case True
  then obtain j where j: "j < 8" "runnable now (tasks S ! j)" by blast
  obtain i where "PickNext now S = (i, S\<lparr>tasks := (tasks S)[i := woken (tasks S ! i)]\<rparr>)" "i < 8"
    "runnable now (tasks S ! i)"
    "\<And>l. l < 8 \<Longrightarrow> runnable now (tasks S ! l) \<Longrightarrow> slot_dist (current S) i \<le> slot_dist (current S) l"
    by (rule PickNext_some [OF sched_ok_sel(1) [OF assms] j]) blast
  with True show ?thesis by simp
next
  case False
  with PickNext_none [OF sched_ok_sel(1) [OF assms], of now] show ?thesis by auto
qed

theorem sched_pick_next_witness: "fst (PickNext 40 sample_sched) = 0 \<and> fst (PickNext 60 sample_sched) = 2"
proof -
  have r: "runnable 40 (tasks sample_sched ! 0)" "runnable 60 (tasks sample_sched ! 2)"
    "\<not> runnable 40 (tasks sample_sched ! 2)"
    by (simp_all add: runnable_def sample_sched_def blank_task_def)
  have u: "runnable n (tasks sample_sched ! j) \<Longrightarrow> j < 8 \<Longrightarrow> j \<in> {0, 1, 2}" for n j
    using sched_ok_sel(4) [OF sample_sched_ok] sample_used by blast
  have d: "slot_dist (current sample_sched) 0 = 7" "slot_dist (current sample_sched) 1 = 8"
    "slot_dist (current sample_sched) 2 = 1"
    by (simp_all add: slot_dist_def MAX_TASKS_def sample_sched_def)
  obtain i S1 where p: "PickNext 40 sample_sched = (i, S1)" by (cases "PickNext 40 sample_sched")
  from sched_pick_next [OF sample_sched_ok, of 40] r(1) have
    i: "i < 8" "runnable 40 (tasks sample_sched ! i)"
      "\<forall>j < 8. runnable 40 (tasks sample_sched ! j) \<longrightarrow> slot_dist (current sample_sched) i \<le> slot_dist (current sample_sched) j"
    by (auto simp: p split: if_splits)
  from i(3) [rule_format, of 0] r(1) i(1,2) d(1)
  have "i < 8" "runnable 40 (tasks sample_sched ! i)" "slot_dist (current sample_sched) i \<le> 7" by auto
  with u [of 40 i] r(3) d have "i = 0" by auto
  moreover obtain k S2 where q: "PickNext 60 sample_sched = (k, S2)" by (cases "PickNext 60 sample_sched")
  from sched_pick_next [OF sample_sched_ok, of 60] r(2) have
    k: "k < 8" "runnable 60 (tasks sample_sched ! k)"
      "\<forall>j < 8. runnable 60 (tasks sample_sched ! j) \<longrightarrow> slot_dist (current sample_sched) k \<le> slot_dist (current sample_sched) j"
    by (auto simp: q split: if_splits)
  from k(3) [rule_format, of 2] r(2) k(1,2) d(3)
  have "k < 8" "runnable 60 (tasks sample_sched ! k)" "slot_dist (current sample_sched) k \<le> 1" by auto
  with u [of 60 k] d have "k = 2" by auto
  ultimately show ?thesis by (simp add: p q)
qed

text \<open>C7: fairness. A task that is ready gets the processor after at most seven steps, whatever the
  running tasks do in these steps, yield or sleep, at whatever ticks.\<close>

theorem sched_fair:
  assumes "sched_ok S" "j < 8" "j \<noteq> current S" "t_state (tasks S ! j) = TASK_READY" "length as = 7"
  shows "\<exists>k. 0 < k \<and> k \<le> 7 \<and> current (fold act (take k as) S) = j"
proof -
  have "slot_dist (current S) j \<le> 7"
    using assms(2,3) sched_ok_sel(1) [OF assms(1)] by (auto simp: slot_dist_def MAX_TASKS_def)
  with act_reaches [OF assms(1-4), of as] assms(5) show ?thesis by (metis le_trans)
qed

theorem sched_fair_witness:
  "\<exists>k. 0 < k \<and> k \<le> 7 \<and>
     current (fold act (take k [AYield 60, AYield 61, ASleep 62 10, AYield 63, AYield 64, AYield 65, AYield 66])
       sample_sched) = 0"
  by (rule sched_fair [OF sample_sched_ok]) (simp_all add: sample_sched_def blank_task_def)

lemma Yield_switch_sound:
  assumes "sched_ok S" "Yield now S = (S', Some (prev, nxt))"
  shows "prev = current S \<and> nxt = current S' \<and> nxt \<noteq> prev \<and> t_state (tasks S' ! nxt) = TASK_READY
    \<and> (t_state (tasks S ! nxt) = TASK_SLEEPING \<longrightarrow> sleep_until (tasks S ! nxt) \<le> now)
    \<and> t_state (tasks S ! nxt) \<noteq> TASK_UNUSED
    \<and> (\<forall>j. j \<noteq> prev \<longrightarrow> j \<noteq> nxt \<longrightarrow> tasks S' ! j = tasks S ! j)
    \<and> tasks S' ! nxt = (tasks S ! nxt)\<lparr>t_state := TASK_READY\<rparr>
    \<and> tasks S' ! prev = (tasks S ! prev)\<lparr>t_yields := t_yields (tasks S ! prev) + 1\<rparr>
    \<and> (\<forall>j. j \<noteq> nxt \<longrightarrow> t_state (tasks S ! j) = TASK_SLEEPING \<longrightarrow> t_state (tasks S' ! j) = TASK_SLEEPING)"
proof (cases "\<exists>j < 8. runnable now (tasks S ! j)")
  case False
  with Yield_idle [OF assms(1), of now] assms(2) show ?thesis by auto
next
  case True
  then obtain j where j: "j < 8" "runnable now (tasks S ! j)" by blast
  from assms(1) j show ?thesis
  proof (cases rule: Yield_pick)
    case stay
    with assms(2) show ?thesis by simp
  next
    case (switch i)
    then have "S' = S\<lparr>tasks := ((tasks S)[i := woken (tasks S ! i)])[current S :=
        (tasks S ! current S)\<lparr>t_yields := t_yields (tasks S ! current S) + 1\<rparr>], current := i\<rparr>"
      "prev = current S" "nxt = i" using assms(2) by auto
    moreover have "woken (tasks S ! i) = (tasks S ! i)\<lparr>t_state := TASK_READY\<rparr>"
      using switch(3) by (auto simp: woken_def runnable_def)
    ultimately show ?thesis
      using switch(1-3) sched_ok_sel(1,2) [OF assms(1)] by (auto simp: runnable_def nth_list_update)
  qed
qed

text \<open>C20: a switch always goes to a task that is ready, from a different one; a task that was asleep is
  never switched to before its deadline; and only the two tasks of the switch change, the one by
  becoming ready, the other by its count of yields.  The search stops at the first runnable slot:
  every other sleeping task stays asleep, one whose deadline has passed too, against the comment on
  PickNext, which says that it wakes any such task.\<close>

theorem sched_switch_sound:
  assumes "sched_ok S" "Yield now S = (S', Some (prev, nxt))"
  shows "prev = current S \<and> nxt = current S' \<and> nxt \<noteq> prev \<and> t_state (tasks S' ! nxt) = TASK_READY
    \<and> (t_state (tasks S ! nxt) = TASK_SLEEPING \<longrightarrow> sleep_until (tasks S ! nxt) \<le> now)
    \<and> t_state (tasks S ! nxt) \<noteq> TASK_UNUSED
    \<and> (\<forall>j. j \<noteq> prev \<longrightarrow> j \<noteq> nxt \<longrightarrow> tasks S' ! j = tasks S ! j)
    \<and> tasks S' ! nxt = (tasks S ! nxt)\<lparr>t_state := TASK_READY\<rparr>
    \<and> tasks S' ! prev = (tasks S ! prev)\<lparr>t_yields := t_yields (tasks S ! prev) + 1\<rparr>
    \<and> (\<forall>j. j \<noteq> nxt \<longrightarrow> t_state (tasks S ! j) = TASK_SLEEPING \<longrightarrow> t_state (tasks S' ! j) = TASK_SLEEPING)"
  by (rule Yield_switch_sound [OF assms])

lemma sample_order: "scan_order 1 = [2, 3, 4, 5, 6, 7, 0, 1]"
  by code_simp

text \<open>Task 1 asleep until tick 110, task 2 until tick 50, task 0 running.\<close>

lemma sample_slept:
  "snd (Sleep 10 1000 sample_sched) = Some (1, 0)" "current (fst (Sleep 10 1000 sample_sched)) = 0"
  "tasks (fst (Sleep 10 1000 sample_sched)) ! 1 = (tasks sample_sched ! 1)\<lparr>t_state := TASK_SLEEPING, sleep_until := 110, t_yields := t_yields (tasks sample_sched ! 1) + 1\<rparr>"
  "tasks (fst (Sleep 10 1000 sample_sched)) ! 2 = tasks sample_sched ! 2"
  using sample_order
  by (simp_all add: Sleep_def Yield_def PickNext_def sample_sched_def blank_task_def Let_def TICK_HZ_def)

theorem sched_switch_sound_witness:
  "\<exists>S S'. Yield 120 S = (S', Some (0, 1)) \<and> t_state (tasks S' ! 1) = TASK_READY
     \<and> t_state (tasks S' ! 2) = TASK_SLEEPING \<and> sleep_until (tasks S' ! 2) = 50"
proof -
  let ?S = "fst (Sleep 10 1000 sample_sched)"
  have ok: "sched_ok ?S" using Sleep_ok [OF sample_sched_ok] by blast
  have t: "tasks sample_sched ! 2 = (tasks sample_sched ! 2)\<lparr>t_state := TASK_SLEEPING, sleep_until := 50\<rparr>"
    by (simp add: sample_sched_def)
  have o: "scan_order 0 = [1, 2, 3, 4, 5, 6, 7, 0]" by code_simp
  have "snd (Yield 120 ?S) = Some (0, 1)"
    using sched_ok_sel(3) [OF ok] by (simp add: Yield_def PickNext_def o sample_slept(2,3) sample_slept(3) [unfolded One_nat_def] Let_def)
  then have y: "Yield 120 ?S = (fst (Yield 120 ?S), Some (0, 1))" by (simp add: prod_eq_iff)
  have s2: "t_state (tasks ?S ! 2) = TASK_SLEEPING" "sleep_until (tasks ?S ! 2) = 50"
    using arg_cong [OF t, of t_state] arg_cong [OF t, of sleep_until] by (simp_all add: sample_slept)
  from sched_switch_sound [OF ok y] have r: "t_state (tasks (fst (Yield 120 ?S)) ! 1) = TASK_READY"
    and f: "\<forall>j. j \<noteq> 0 \<longrightarrow> j \<noteq> 1 \<longrightarrow> tasks (fst (Yield 120 ?S)) ! j = tasks ?S ! j" by blast+
  from f [rule_format, of 2] have "tasks (fst (Yield 120 ?S)) ! 2 = tasks ?S ! 2" by simp
  with y s2 r show ?thesis by (intro exI [of _ ?S] exI [of _ "fst (Yield 120 ?S)"]) simp
qed

text \<open>A sleeping task wakes. Once the tick counter is past its deadline it is runnable, so by the
  round robin it gets the processor within seven further steps taken at such ticks.\<close>

theorem sched_sleep_deadline:
  assumes "sched_ok S" "unat now + unat (sleep_ticks ms) < 2 ^ 32"
    "Sleep now ms S = (S', Some (prev, nxt))"
  shows "t_state (tasks S' ! prev) = TASK_SLEEPING
    \<and> (\<forall>later. runnable later (tasks S' ! prev) \<longleftrightarrow> unat now + unat (sleep_ticks ms) \<le> unat later)"
proof -
  let ?S = "sleep_mark now ms S"
  note m = sleep_mark_ok [OF assms(1), where now = now and ms = ms]
  have y: "Yield now ?S = (S', Some (prev, nxt))"
    using assms(3) Sleep_Yield sched_ok_sel(3) [OF assms(1)] by simp
  have p: "prev = current S" using Yield_switch_sound [OF m(1) y] m(3) by simp
  have "t_state (tasks S' ! prev) = TASK_SLEEPING \<and> sleep_until (tasks S' ! prev) = now + sleep_ticks ms"
  proof (cases "\<exists>j < 8. runnable now (tasks ?S ! j)")
    case False
    with Yield_idle [OF m(1), of now] y show ?thesis by auto
  next
    case True
    then obtain j where j: "j < 8" "runnable now (tasks ?S ! j)" by blast
    from m(1) j show ?thesis
    proof (cases rule: Yield_pick)
      case stay
      with y show ?thesis by simp
    next
      case (switch i)
      with y have "S' = ?S\<lparr>tasks := ((tasks ?S)[i := woken (tasks ?S ! i)])[current ?S :=
        (tasks ?S ! current ?S)\<lparr>t_yields := t_yields (tasks ?S ! current ?S) + 1\<rparr>], current := i\<rparr>" by auto
      with m(3,6,7) sched_ok_sel(1,2) [OF m(1)] p show ?thesis by simp
    qed
  qed
  moreover have "unat (now + sleep_ticks ms) = unat now + unat (sleep_ticks ms)"
    using assms(2) by (simp add: unat_word_ariths)
  ultimately show ?thesis by (simp add: runnable_def word_le_nat_alt)
qed

theorem sched_sleep_deadline_witness:
  "\<exists>S'. Sleep 10 1000 sample_sched = (S', Some (1, 0)) \<and> t_state (tasks S' ! 1) = TASK_SLEEPING
     \<and> (\<forall>later. runnable later (tasks S' ! 1) \<longleftrightarrow> 110 \<le> unat later)"
proof -
  have t: "sleep_ticks 1000 = 100" by (simp add: sleep_ticks_def TICK_HZ_def)
  have "snd (Sleep 10 1000 sample_sched) = Some (1, 0)"
    using sample_order
    by (simp add: Sleep_def Yield_def PickNext_def sample_sched_def blank_task_def Let_def TICK_HZ_def)
  then have y: "Sleep 10 1000 sample_sched = (fst (Sleep 10 1000 sample_sched), Some (1, 0))"
    by (simp add: prod_eq_iff)
  from sched_sleep_deadline [OF sample_sched_ok _ y]
  have "t_state (tasks (fst (Sleep 10 1000 sample_sched)) ! 1) = TASK_SLEEPING
     \<and> (\<forall>later. runnable later (tasks (fst (Sleep 10 1000 sample_sched)) ! 1) \<longleftrightarrow> 110 \<le> unat later)"
    by (simp add: t)
  with y show ?thesis by blast
qed

text \<open>A task that goes to sleep while no other task can run does not sleep: Sleep returns at
  once, on the same task, with the task still running although its slot says it is asleep.\<close>

theorem sched_sleep_alone_returns:
  assumes "sched_ok S" "unat now + unat (sleep_ticks ms) < 2 ^ 32"
    "\<And>j. j < 8 \<Longrightarrow> j \<noteq> current S \<Longrightarrow> \<not> runnable now (tasks S ! j)"
  shows "\<exists>S'. Sleep now ms S = (S', None) \<and> current S' = current S
    \<and> t_state (tasks S' ! current S') = TASK_SLEEPING"
proof -
  note m = sleep_mark_ok [OF assms(1), where now = now and ms = ms]
  have "0 < unat (sleep_ticks ms)"
    by (simp add: sleep_ticks_def Let_def unat_gt_0)
  moreover have "unat (now + sleep_ticks ms) = unat now + unat (sleep_ticks ms)"
    using assms(2) by (simp add: unat_word_ariths)
  ultimately have "\<not> runnable now (tasks (sleep_mark now ms S) ! current S)"
    using m(6,7) by (simp add: runnable_def word_le_nat_alt)
  then have "\<not> runnable now (tasks (sleep_mark now ms S) ! j)" if "j < 8" for j
    using assms(3) [OF that] m(5) [of j] by (cases "j = current S") auto
  from Yield_idle [OF m(1) this] show ?thesis
    using m(3,6) Sleep_Yield sched_ok_sel(3) [OF assms(1)] by simp
qed

definition lone_sched :: sched where
  "lone_sched = \<lparr>tasks = (blank_task\<lparr>t_state := TASK_READY, t_id := 0\<rparr>) # replicate 7 blank_task,
     current = 0, spawned_count = 1, sched_ready = True\<rparr>"

lemma lone_sched_ok: "sched_ok lone_sched" "j < 8 \<Longrightarrow> j \<noteq> 0 \<Longrightarrow> \<not> runnable n (tasks lone_sched ! j)"
proof -
  have o: "tasks lone_sched ! j = blank_task" if "j < 8" "j \<noteq> 0" for j
    using that by (cases j) (simp_all add: lone_sched_def)
  have u: "used_slots lone_sched = {0}"
  proof -
    have "i \<in> used_slots lone_sched \<longleftrightarrow> i = 0" for i
      using o [of i] by (cases "i = 0") (auto simp: used_slots_def blank_task_def lone_sched_def)
    then show ?thesis by blast
  qed
  have "t_state (tasks lone_sched ! i) \<noteq> TASK_DONE \<and> length (t_name (tasks lone_sched ! i)) = 16" if "i < 8" for i
    using o [OF that] by (cases "i = 0") (auto simp: lone_sched_def blank_task_def)
  then show "sched_ok lone_sched" unfolding sched_ok_def u by (simp add: lone_sched_def)
  show "j < 8 \<Longrightarrow> j \<noteq> 0 \<Longrightarrow> \<not> runnable n (tasks lone_sched ! j)"
    using o by (simp add: runnable_def blank_task_def)
qed

theorem sched_sleep_alone_returns_witness:
  "\<exists>S'. Sleep 7 60000 lone_sched = (S', None) \<and> t_state (tasks S' ! 0) = TASK_SLEEPING"
proof -
  have "sleep_ticks 60000 = 6000" by (simp add: sleep_ticks_def TICK_HZ_def)
  moreover have "current lone_sched = 0" by (simp add: lone_sched_def)
  ultimately show ?thesis
    using sched_sleep_alone_returns [OF lone_sched_ok(1), of 7 60000] lone_sched_ok(2) by auto
qed

end
