(* ===== verification/Scheduler_Reach.thy ===== *)
theory Scheduler_Reach
  imports Scheduler_Contract
begin

text \<open>
  \<open>Spawn\<close> on every branch, and what holds in every state the kernel's tasks can reach by
  \<open>Yield\<close>, \<open>Sleep\<close>, \<open>Spawn\<close> and the calls to the kernel heap in between: ids are slot
  numbers, the used slots come first, and the stacks are disjoint heap blocks.
\<close>

section \<open>Ids are slot numbers\<close>

lemma Yield_ids:
  assumes ok: "sched_ok S" and j: "j < 8"
  shows "t_id (tasks (fst (Yield now S)) ! j) = t_id (tasks S ! j)"
proof (cases "\<exists>l < 8. runnable now (tasks S ! l)")
  case False
  with Yield_idle [OF ok, of now] show ?thesis by auto
next
  case True
  then obtain l where "l < 8" "runnable now (tasks S ! l)" by blast
  with ok show ?thesis
  proof (cases rule: Yield_pick)
    case stay
    then show ?thesis by (simp add: nth_list_update sched_ok_sel [OF ok])
  next
    case (switch i)
    with j show ?thesis by (simp add: nth_list_update sched_ok_sel [OF ok])
  qed
qed

lemma Sleep_ids:
  assumes ok: "sched_ok S" and j: "j < 8"
  shows "t_id (tasks (fst (Sleep now ms S)) ! j) = t_id (tasks S ! j)"
proof -
  have "t_id (tasks (sleep_mark now ms S) ! j) = t_id (tasks S ! j)"
    using sched_ok_sel [OF ok] by (simp add: sleep_mark_def nth_list_update)
  with Yield_ids [OF sleep_mark_ok(1) [OF ok] j] show ?thesis
    by (simp add: Sleep_Yield sched_ok_sel [OF ok])
qed

definition ids_ok :: "sched \<Rightarrow> bool" where
  "ids_ok S \<longleftrightarrow> used_slots S = {0..<unat (spawned_count S)}
     \<and> (\<forall>i \<in> used_slots S. t_id (tasks S ! i) = of_nat i)"

lemma ids_ok_keep:
  assumes "ids_ok S" "used_slots S' = used_slots S" "spawned_count S' = spawned_count S"
    "\<And>j. j < 8 \<Longrightarrow> t_id (tasks S' ! j) = t_id (tasks S ! j)"
  shows "ids_ok S'"
proof -
  have "t_id (tasks S' ! i) = of_nat i" if "i \<in> used_slots S" for i
    using that assms(1) assms(4) [of i] by (auto simp: ids_ok_def used_slots_def)
  with assms(1-3) show ?thesis by (simp add: ids_ok_def)
qed

lemma ids_ok_spawn:
  assumes ids: "ids_ok S" and ok: "sched_ok S"
    and sl: "slot < 8" "slot \<notin> used_slots S" "\<forall>i < slot. i \<in> used_slots S"
    and t: "t_state t = TASK_READY" "t_id t = spawned_count S" "length (t_name t) = 16"
  shows "ids_ok (S\<lparr>tasks := (tasks S)[slot := t], spawned_count := spawned_count S + 1\<rparr>)"
    "unat (spawned_count S) = slot"
proof -
  let ?S = "S\<lparr>tasks := (tasks S)[slot := t], spawned_count := spawned_count S + 1\<rparr>"
  show n: "unat (spawned_count S) = slot"
    using sl(2,3) ids by (auto simp: ids_ok_def) (metis linorder_neqE_nat less_irrefl)
  then have s: "unat (spawned_count S + 1) = slot + 1"
    using sl(1) unat_plus_one_u32 [of "spawned_count S"] by simp
  have len: "length (tasks S) = 8" using ok by (simp add: sched_ok_def)
  have u: "used_slots S = {0..<slot}" using ids n by (simp add: ids_ok_def)
  have "used_slots ?S = insert slot {0..<slot}"
    using sched_ok_spawn(2) [OF ok sl(1,2) t] by (simp only: u)
  moreover have "insert slot {0..<slot} = {0..<Suc slot}" by auto
  moreover have "t_id t = of_nat slot" using n t(2) by (simp add: word_unat_eq_iff) auto
  moreover have "t_id (tasks ?S ! i) = of_nat i" if "i < slot" for i
  proof -
    have "i \<in> used_slots S" using that u by simp
    moreover have "i \<noteq> slot" using that by simp
    ultimately show ?thesis using ids unfolding ids_ok_def by simp
  qed
  ultimately show "ids_ok ?S" using s len sl(1) by (auto simp: ids_ok_def less_Suc_eq)
qed

lemma task_reach_ids: "task_reach M H S \<Longrightarrow> ids_ok S"
proof (induction rule: task_reach.induct)
  case (start M H S0 cb T M' T' S)
  have "spawned_count S = 1" "t_id (tasks S ! 0) = 0"
    using start(2,3) by (auto simp: Scheduler_Start_def Let_def)
  then show ?case using Scheduler_Start_ok(2) [OF start(3,2)] by (auto simp: ids_ok_def)
next
  case (yield M H S now)
  then have "sched_ok S" using task_reach_ok by blast
  with yield(2) Yield_ok [of S now] Yield_ids [of S _ now] ids_ok_keep show ?case by blast
next
  case (sleep M H S now ms)
  then have "sched_ok S" using task_reach_ok by blast
  with sleep(2) Sleep_ok [of S now ms] Sleep_ids [of S _ now ms] ids_ok_keep show ?case by blast
next
  case (spawn M H S entry name r M' H' S')
  with task_reach_ok have "sched_ok S" "heap_inv M H" by blast+
  then show ?case
  proof (cases rule: Spawn_cases [of _ _ _ entry name])
    case (new slot stack M1 H1 t)
    have "S' = S\<lparr>tasks := (tasks S)[slot := t], spawned_count := spawned_count S + 1\<rparr>"
      using new(4) spawn(2) by simp
    with ids_ok_spawn(1) [OF spawn(3) \<open>sched_ok S\<close> new(1-3,11,12,16)] show ?thesis by simp
  qed (use spawn in simp_all)
qed simp_all

text \<open>The words of a fresh stack, read through the saved stack pointer.\<close>

lemma format_stack_words:
  assumes "unat stack + 4096 < 2 ^ 32"
  shows "load32 (format_stack stack entry m) (stack + 4092) = entry"
    "load32 (format_stack stack entry m) (stack + 4076) = 0"
    "load32 (format_stack stack entry m) (stack + 4080) = 0"
    "load32 (format_stack stack entry m) (stack + 4084) = 0"
    "load32 (format_stack stack entry m) (stack + 4088) = 0"
proof -
  have "of_nat (unat stack + d) = stack + of_nat d" for d by simp
  note w = format_stack_loads [OF assms, where entry = entry and m = m, unfolded this]
  show "load32 (format_stack stack entry m) (stack + 4092) = entry" using w(1) by simp
  show "load32 (format_stack stack entry m) (stack + 4076) = 0" using w(2) [of 4076] by simp
  show "load32 (format_stack stack entry m) (stack + 4080) = 0" using w(2) [of 4080] by simp
  show "load32 (format_stack stack entry m) (stack + 4084) = 0" using w(2) [of 4084] by simp
  show "load32 (format_stack stack entry m) (stack + 4088) = 0" using w(2) [of 4088] by simp
qed

section \<open>When Spawn fails\<close>

lemma Heap_Alloc_null_iff:
  assumes "heap_inv M H" "Heap_Alloc n M H = Some (p, M', H')"
  shows "p = 0 \<longleftrightarrow> (\<forall>(k, u) \<in> set (heap_blocks M H). u \<or> k < unat (Heap_Round n))"
proof -
  have ok: "heap_ok M H (heap_blocks M H)" using assms(1) by (simp add: heap_inv_def)
  have "alloc_blks (unat (Heap_Round n)) (heap_blocks M H) = None \<longleftrightarrow> split_fit (unat (Heap_Round n)) (heap_blocks M H) = None"
    by (simp add: alloc_blks_def split: option.split)
  then have "p = 0 \<longleftrightarrow> split_fit (unat (Heap_Round n)) (heap_blocks M H) = None"
    using assms(2) by (cases rule: Heap_Alloc_cases [OF ok, of n]) simp_all
  then show ?thesis by (simp only: split_fit_None)
qed

lemma Spawn_fails_iff:
  assumes ok: "sched_ok S" and inv: "heap_inv M H"
    and sp: "Spawn entry name (M, H, S) = Some (r, M', H', S')"
  shows "r = -1 \<longleftrightarrow> Task_Count S = 8 \<or> (\<forall>(k, u) \<in> set (heap_blocks M H). u \<or> k < 4096)"
proof -
  have n: "unat (Heap_Round STACK_SIZE) = 4096" by (simp add: Heap_Round_def STACK_SIZE_def)
  have rdy: "sched_ready S" using ok by (simp add: sched_ok_def)
  have full: "Task_Count S = 8 \<longleftrightarrow> find_slot (tasks S) = None"
  proof -
    have sub: "used_slots S \<subseteq> {0..<8}" unfolding used_slots_def by (rule subsetI) simp
    have "used_slots S = {0..<8}" if "Task_Count S = 8"
      by (rule card_subset_eq [OF finite_atLeastLessThan sub]) (use that in \<open>simp add: Task_Count_card\<close>)
    moreover have "Task_Count S = 8" if "used_slots S = {0..<8}"
      unfolding Task_Count_card that by simp
    ultimately show ?thesis unfolding find_slot_None by (rule iffI)
  qed
  show ?thesis
  proof (cases "find_slot (tasks S)")
    case None
    with sp rdy full show ?thesis by (simp add: Spawn_def)
  next
    case (Some slot)
    obtain p M1 H1 where a: "Heap_Alloc STACK_SIZE M H = Some (p, M1, H1)"
      using sp rdy Some by (cases "Heap_Alloc STACK_SIZE M H") (auto simp: Spawn_def)
    from sp rdy Some a have "r = -1 \<longleftrightarrow> p = 0" by (auto simp: Spawn_def Let_def split: if_splits)
    with Heap_Alloc_null_iff [OF inv a] full Some show ?thesis by (simp add: n)
  qed
qed

section \<open>Properties\<close>

text \<open>C22: Spawn on every branch. It returns -1 exactly when all eight slots are in use or no free block
  of the heap holds a stack, and then changes nothing of the table or the heap blocks. Otherwise it
  takes the first unused slot and returns it; the new task is ready, its stack is a block the heap had not handed out, and on it lie the entry
  address and four zero words at the saved stack pointer.\<close>

theorem sched_spawn:
  assumes "sched_ok S" "heap_inv M H"
  shows "\<exists>r M' H' S'. Spawn entry name (M, H, S) = Some (r, M', H', S')
    \<and> (r = -1 \<longleftrightarrow> Task_Count S = 8 \<or> (\<forall>(k, u) \<in> set (heap_blocks M H). u \<or> k < 4096))
    \<and> (if r = -1 then S' = S \<and> H' = H \<and> heap_regions M' H' = heap_regions M H
       else \<exists>slot t k. r = int slot \<and> slot < 8 \<and> slot \<notin> used_slots S \<and> (\<forall>i < slot. i \<in> used_slots S)
         \<and> S' = S\<lparr>tasks := (tasks S)[slot := t], spawned_count := spawned_count S + 1\<rparr>
         \<and> t_state t = TASK_READY \<and> t_id t = spawned_count S
         \<and> 4096 \<le> k \<and> heap_regions M' H' = insert (unat (stack_base t), k) (heap_regions M H)
         \<and> (\<forall>l. (unat (stack_base t), l) \<notin> heap_regions M H)
         \<and> stack_top t = stack_base t + 4096 \<and> t_esp t = stack_top t - 20
         \<and> load32 (ram M') (t_esp t + 16) = entry
         \<and> (\<forall>d \<in> {0, 4, 8, 12}. load32 (ram M') (t_esp t + d) = 0))"
  using assms
proof (cases rule: Spawn_cases [of _ _ _ entry name])
  case (new slot stack M1 H1 t)
  obtain m where m: "ram M1 = format_stack stack entry m" using new(17) by blast
  obtain k where k: "4096 \<le> k" "heap_regions M1 H1 = insert (unat stack, k) (heap_regions M H)"
    using new(8) by blast
  have w: "load32 (ram M1) (t_esp t + 16) = entry" "load32 (ram M1) (t_esp t) = 0"
    "load32 (ram M1) (t_esp t + 4) = 0" "load32 (ram M1) (t_esp t + 8) = 0" "load32 (ram M1) (t_esp t + 12) = 0"
    using format_stack_words [OF new(7), where entry = entry and m = m] by (simp_all add: m new(15) STACK_SIZE_def ac_simps)
  show ?thesis
    unfolding new(4)
  proof (intro exI conjI)
    show "Some (int slot, M1, H1, S\<lparr>tasks := (tasks S)[slot := t], spawned_count := spawned_count S + 1\<rparr>)
      = Some (int slot, M1, H1, S\<lparr>tasks := (tasks S)[slot := t], spawned_count := spawned_count S + 1\<rparr>)" ..
    have neq: "int slot \<noteq> -1" by simp
    have "stack_top t = stack_base t + 4096" "t_esp t = stack_top t - 20"
      "load32 (ram M1) (t_esp t + 16) = entry" "\<forall>d \<in> {0, 4, 8, 12}. load32 (ram M1) (t_esp t + d) = 0"
      using new(13-15) w by (simp_all add: STACK_SIZE_def)
    moreover have "\<forall>l. (unat (stack_base t), l) \<notin> heap_regions M H"
      "heap_regions M1 H1 = insert (unat (stack_base t), k) (heap_regions M H)" using new(9,13) k by simp_all
    ultimately show "if int slot = -1 then S\<lparr>tasks := (tasks S)[slot := t], spawned_count := spawned_count S + 1\<rparr> = S
          \<and> H1 = H \<and> heap_regions M1 H1 = heap_regions M H
       else \<exists>slot' t' k. int slot = int slot' \<and> slot' < 8 \<and> slot' \<notin> used_slots S \<and> (\<forall>i < slot'. i \<in> used_slots S)
         \<and> S\<lparr>tasks := (tasks S)[slot := t], spawned_count := spawned_count S + 1\<rparr>
           = S\<lparr>tasks := (tasks S)[slot' := t'], spawned_count := spawned_count S + 1\<rparr>
         \<and> t_state t' = TASK_READY \<and> t_id t' = spawned_count S
         \<and> 4096 \<le> k \<and> heap_regions M1 H1 = insert (unat (stack_base t'), k) (heap_regions M H)
         \<and> (\<forall>l. (unat (stack_base t'), l) \<notin> heap_regions M H)
         \<and> stack_top t' = stack_base t' + 4096 \<and> t_esp t' = stack_top t' - 20
         \<and> load32 (ram M1) (t_esp t' + 16) = entry
         \<and> (\<forall>d \<in> {0, 4, 8, 12}. load32 (ram M1) (t_esp t' + d) = 0)"
      using new(1-3,11,12) k(1) unfolding if_not_P [OF neq] by (intro exI conjI) (assumption | rule refl)+
  qed (rule Spawn_fails_iff [OF assms new(4)])
next
  case full
  from Spawn_fails_iff [OF assms full(2)] full(2) show ?thesis by simp
next
  case (oom M1)
  from Spawn_fails_iff [OF assms oom(1)] oom(1,4) show ?thesis by simp
qed

lemma boot_sched:
  obtains M' T' S where "Scheduler_Start 0x104000 (fst boot_heap, timer0, sched0) = (M', T', S)"
    "task_reach M' (snd boot_heap) S" "sched_ok S" "heap_inv M' (snd boot_heap)" "used_slots S = {0}"
    "heap_blocks M' (snd boot_heap) = [(2 ^ 22 - 16, False)]"
proof -
  obtain M' T' S where s: "Scheduler_Start 0x104000 (fst boot_heap, timer0, sched0) = (M', T', S)"
    by (cases "Scheduler_Start 0x104000 (fst boot_heap, timer0, sched0)")
  have l: "length (tasks sched0) = 8" by (simp add: sched0_def)
  have r: "task_reach M' (snd boot_heap) S" by (rule task_reach.start [OF boot_heap_inv l s])
  from Scheduler_Start_ok(6) [OF s l] obtain l' where M: "M' = fst boot_heap\<lparr>klog := l'\<rparr>" by blast
  have "heap_blocks (fst boot_heap) (snd boot_heap) = [(2 ^ 22 - 16, False)]"
    using heap_okI [OF boot_heap_ok] by blast
  with M have "heap_blocks M' (snd boot_heap) = [(2 ^ 22 - 16, False)]" by (simp add: heap_blocks_def)
  with that [OF s r] task_reach_ok [OF r] Scheduler_Start_ok(2) [OF s l] show thesis by blast
qed

theorem sched_spawn_witness:
  "\<exists>M T S z. Scheduler_Start 0x104000 (fst boot_heap, timer0, sched0) = (M, T, S)
     \<and> Spawn 0x101234 0x105000 (M, snd boot_heap, S) = Some (1, z)"
proof (rule boot_sched)
  fix M T S
  assume s: "Scheduler_Start 0x104000 (fst boot_heap, timer0, sched0) = (M, T, S)"
    and a: "sched_ok S" "heap_inv M (snd boot_heap)" "used_slots S = {0}"
    and h: "heap_blocks M (snd boot_heap) = [(2 ^ 22 - 16, False)]"
  have one: "slot = 1" if "slot \<notin> used_slots S" "\<forall>i < slot. i \<in> used_slots S" for slot
  proof (rule ccontr)
    assume "slot \<noteq> 1"
    with that a(3) have "1 < slot" by (cases "slot = 0") auto
    with that(2) a(3) have "(1 :: nat) \<in> {0}" by blast
    then show False by simp
  qed
  have fits: "\<not> (Task_Count S = 8 \<or> (\<forall>(k, u) \<in> set (heap_blocks M (snd boot_heap)). u \<or> k < 4096))"
    using a(3) by (simp add: Task_Count_card h)
  have weak: "(r = -1 \<longleftrightarrow> B) \<and> (if r = -1 then A else \<exists>slot t k. r = int slot \<and> slot < 8 \<and> slot \<notin> used_slots S
      \<and> (\<forall>i < slot. i \<in> used_slots S) \<and> R slot t k) \<Longrightarrow> \<not> B \<Longrightarrow> r = 1"
    for r A B and R :: "nat \<Rightarrow> task \<Rightarrow> nat \<Rightarrow> bool"
    using one by (fastforce split: if_splits)
  show ?thesis
    using sched_spawn [OF a(1,2), where entry = "0x101234" and name = "0x105000"] s
    by (elim exE conjE) (drule weak [OF conjI, OF _ _ fits], assumption, blast)
qed

text \<open>C8: in every reachable state the tasks occupy the first slots, the id of a task is its slot (so
  that what Spawn returns is the id), their number is spawned_count, the running task is one of
  them, and the stacks of two spawned tasks are disjoint ranges of at least 4096 bytes.\<close>

theorem sched_reach_safe:
  assumes "task_reach M H S"
  shows "used_slots S = {0..<unat (spawned_count S)} \<and> Task_Count S = unat (spawned_count S)
    \<and> Task_Count S \<le> 8 \<and> current S < Task_Count S
    \<and> (\<forall>i < Task_Count S. t_id (tasks S ! i) = of_nat i)
    \<and> (\<forall>i j. 0 < i \<longrightarrow> i < j \<longrightarrow> j < Task_Count S \<longrightarrow>
         unat (stack_base (tasks S ! i)) + 4096 \<le> unat (stack_base (tasks S ! j))
         \<or> unat (stack_base (tasks S ! j)) + 4096 \<le> unat (stack_base (tasks S ! i)))"
proof -
  have ok: "heap_inv M H" "sched_ok S" "stacks_ok M H S" and ids: "ids_ok S"
    using task_reach_ok [OF assms] task_reach_ids [OF assms] by auto
  then have u: "used_slots S = {0..<unat (spawned_count S)}" "Task_Count S = unat (spawned_count S)"
    by (simp_all add: ids_ok_def Task_Count_card)
  have "unat (stack_base (tasks S ! i)) + 4096 \<le> unat (stack_base (tasks S ! j))
      \<or> unat (stack_base (tasks S ! j)) + 4096 \<le> unat (stack_base (tasks S ! i))"
    if "0 < i" "i < j" "j < Task_Count S" for i j
  proof -
    have m: "i \<in> used_slots S - {0}" "j \<in> used_slots S - {0}" using that u by auto
    obtain k l where kl: "4096 \<le> k" "(unat (stack_base (tasks S ! i)), k) \<in> heap_regions M H"
      "4096 \<le> l" "(unat (stack_base (tasks S ! j)), l) \<in> heap_regions M H"
      using ok(3) m unfolding stacks_ok_def by meson
    have "stack_base (tasks S ! i) \<noteq> stack_base (tasks S ! j)"
      using ok(3) m that(2) by (auto simp: stacks_ok_def inj_on_def)
    then have "unat (stack_base (tasks S ! i)) \<noteq> unat (stack_base (tasks S ! j))" by (simp add: word_unat_eq_iff)
    with kheap.regions_disjoint [of "(M, H)"] ok(1) kl show ?thesis by fastforce
  qed
  moreover have "current S < Task_Count S" using ok(2) u by (auto simp: sched_ok_def)
  moreover have "Task_Count S \<le> 8" using used_slots_finite(2) by (simp add: Task_Count_card)
  ultimately show ?thesis using ids u by (auto simp: ids_ok_def)
qed

theorem sched_reach_safe_witness:
  "\<exists>M T S. Scheduler_Start 0x104000 (fst boot_heap, timer0, sched0) = (M, T, S)
     \<and> used_slots (fst (Sleep 5 150 S)) = {0..<unat (spawned_count (fst (Sleep 5 150 S)))}"
proof (rule boot_sched)
  fix M T S
  assume s: "Scheduler_Start 0x104000 (fst boot_heap, timer0, sched0) = (M, T, S)"
    and "task_reach M (snd boot_heap) S"
  then have "task_reach M (snd boot_heap) (fst (Sleep 5 150 S))" by (intro task_reach.sleep)
  from sched_reach_safe [OF this] s show ?thesis by blast
qed

end
