(* ===== verification/Task_Switch.thy ===== *)
theory Task_Switch
  imports Scheduler_Reach
begin

text \<open>
  The context switch (src/src/src/boot/asm/switch.asm), instruction by instruction on the
  registers it touches and the memory.  The stack convention is the C one: on entry the return
  address is at \<open>esp\<close>, the two arguments above it.
\<close>

section \<open>Registers and instructions\<close>

record cpu =
  eax :: u32
  ebx :: u32
  esi :: u32
  edi :: u32
  ebp :: u32
  esp :: u32
  eip :: u32

definition push :: "u32 \<Rightarrow> cpu \<times> mem \<Rightarrow> cpu \<times> mem" where
  "push v = (\<lambda>(c, m). (c\<lparr>esp := esp c - 4\<rparr>, store32 m (esp c - 4) v))"

definition pop :: "(u32 \<Rightarrow> cpu \<Rightarrow> cpu) \<Rightarrow> cpu \<times> mem \<Rightarrow> cpu \<times> mem" where
  "pop set_reg = (\<lambda>(c, m). ((set_reg (load32 m (esp c)) c)\<lparr>esp := esp c + 4\<rparr>, m))"

definition save_regs :: "cpu \<times> mem \<Rightarrow> cpu \<times> mem" where
  "save_regs s0 =
     (let s1 = push (ebp (fst s0)) s0;
          s2 = push (ebx (fst s1)) s1;
          s3 = push (esi (fst s2)) s2
      in push (edi (fst s3)) s3)"

definition restore_regs :: "cpu \<times> mem \<Rightarrow> cpu \<times> mem" where
  "restore_regs s0 =
     (let s1 = pop (\<lambda>v. edi_update (\<lambda>_. v)) s0;
          s2 = pop (\<lambda>v. esi_update (\<lambda>_. v)) s1;
          s3 = pop (\<lambda>v. ebx_update (\<lambda>_. v)) s2;
          s4 = pop (\<lambda>v. ebp_update (\<lambda>_. v)) s3
      in pop (\<lambda>v. eip_update (\<lambda>_. v)) s4)"

definition switch_task :: "cpu \<times> mem \<Rightarrow> cpu \<times> mem" where
  "switch_task s0 =
     (case save_regs s0 of (c, m) \<Rightarrow>
        let c1 = c\<lparr>eax := load32 m (esp c + 20)\<rparr>;
            m1 = store32 m (eax c1) (esp c1);
            c2 = c1\<lparr>esp := load32 m1 (esp c1 + 24)\<rparr>
        in restore_regs (c2, m1))"

section \<open>Frames\<close>

text \<open>What \<open>switch_task\<close> leaves on a stack it switches away from and expects on the one it
  switches to, as the list of its five words from the saved stack pointer upwards.\<close>

definition frame_of :: "cpu \<Rightarrow> u32 \<Rightarrow> u32 list" where
  "frame_of c ret = [edi c, esi c, ebx c, ebp c, ret]"

definition frame_at :: "mem \<Rightarrow> nat \<Rightarrow> u32 list" where
  "frame_at m a = map (\<lambda>k. load32 m (of_nat (a + 4 * k))) [0..<5]"

lemma frame_at_words:
  "frame_at m a = [load32 m (of_nat a), load32 m (of_nat (a + 4)), load32 m (of_nat (a + 8)),
     load32 m (of_nat (a + 12)), load32 m (of_nat (a + 16))]"
  by (simp add: frame_at_def upt_rec)

lemma frame_at_cong:
  assumes "\<And>x. a \<le> x \<Longrightarrow> x < a + 20 \<Longrightarrow> m (of_nat x) = m' (of_nat x)"
  shows "frame_at m a = frame_at m' a"
proof -
  have "load32 m (of_nat (a + 4 * k)) = load32 m' (of_nat (a + 4 * k))" if "k < 5" for k
    by (rule load32_cong, rule assms) (use that in auto)
  then show ?thesis by (simp add: frame_at_def)
qed

lemma restore_regs_frame:
  "frame_at m (unat (esp c)) = [di, si, bx, bp, ret] \<Longrightarrow>
     restore_regs (c, m) = (c\<lparr>edi := di, esi := si, ebx := bx, ebp := bp, esp := esp c + 20, eip := ret\<rparr>, m)"
  by (simp add: restore_regs_def pop_def frame_at_words Let_def ac_simps)

text \<open>The registers saved below a stack pointer \<open>s\<close>, with no wrap-around.\<close>

lemma save_regs_eq:
  assumes "esp c = of_nat s" "16 \<le> s" "s < 2 ^ 32"
  shows "save_regs (c, m) = (c\<lparr>esp := of_nat (s - 16)\<rparr>,
     store32 (store32 (store32 (store32 m (of_nat (s - 4)) (ebp c)) (of_nat (s - 8)) (ebx c))
       (of_nat (s - 12)) (esi c)) (of_nat (s - 16)) (edi c))"
proof -
  have "(of_nat s :: u32) - of_nat k = of_nat (s - k)" if "k \<le> 16" for k
    using that assms(2) by (simp add: of_nat_diff)
  from this [of 4] this [of 8] this [of 12] this [of 16] show ?thesis
    using assms(1) by (simp add: save_regs_def push_def Let_def algebra_simps)
qed

lemma save_regs_other:
  assumes "esp c = of_nat s" "16 \<le> s" "s < 2 ^ 32" "x + 1 \<le> s - 16 \<or> s \<le> x" "x < 2 ^ 32"
  shows "snd (save_regs (c, m)) (of_nat x) = m (of_nat x)"
proof -
  have "store32 m' (of_nat (s - k)) v (of_nat x) = m' (of_nat x)" if "k \<in> {4, 8, 12, 16}" for m' v k
    using that assms(2-5) by (intro store32_other) auto
  then show ?thesis unfolding save_regs_eq [OF assms(1-3)] by simp
qed

lemma save_regs_frame:
  assumes "esp c = of_nat s" "16 \<le> s" "s + 4 \<le> 2 ^ 32"
  shows "frame_at (snd (save_regs (c, m))) (s - 16) = frame_of c (load32 m (of_nat s))"
proof -
  obtain r where r: "s = r + 16" using assms(2) by (metis le_add_diff_inverse2)
  have s: "s < 2 ^ 32" "s - 4 = r + 12" "s - 8 = r + 8" "s - 12 = r + 4" "s - 16 = r" "r + 20 \<le> 2 ^ 32"
    using assms(3) r by auto
  show ?thesis
    using s(6) unfolding frame_at_words s save_regs_eq [OF assms(1,2) s(1)] frame_of_def
    by (simp add: load32_store32_other r del: of_nat_add)
qed

section \<open>One switch\<close>

text \<open>A call \<open>switch_task(&old->esp, to)\<close> at stack pointer \<open>s\<close>: the arguments are on the stack, and the
  saved-pointer cell lies outside the frame about to be pushed and the call's own words.\<close>

definition switch_call :: "cpu \<Rightarrow> mem \<Rightarrow> nat \<Rightarrow> nat \<Rightarrow> nat \<Rightarrow> bool" where
  "switch_call c m s cell to \<longleftrightarrow> esp c = of_nat s \<and> 16 \<le> s \<and> s + 12 \<le> 2 ^ 32
     \<and> load32 m (of_nat (s + 4)) = of_nat cell \<and> load32 m (of_nat (s + 8)) = of_nat to
     \<and> cell + 4 \<le> 2 ^ 32 \<and> to + 20 \<le> 2 ^ 32 \<and> (cell + 4 \<le> s - 16 \<or> s + 12 \<le> cell)"

lemma switch_task_eq:
  assumes call: "switch_call c m s cell to"
    and fr: "to + 20 \<le> s - 16 \<or> s + 12 \<le> to" "to + 20 \<le> cell \<or> cell + 4 \<le> to"
    and words: "frame_at m to = [di, si, bx, bp, ret]"
  obtains m' where
    "switch_task (c, m) = (c\<lparr>eax := of_nat cell, edi := di, esi := si, ebx := bx, ebp := bp,
       esp := of_nat (to + 20), eip := ret\<rparr>, m')"
    "load32 m' (of_nat cell) = of_nat (s - 16)"
    "frame_at m' (s - 16) = frame_of c (load32 m (of_nat s))"
    "\<And>x. x < 2 ^ 32 \<Longrightarrow> x < s - 16 \<or> s \<le> x \<Longrightarrow> x < cell \<or> cell + 4 \<le> x \<Longrightarrow> m' (of_nat x) = m (of_nat x)"
proof -
  note c = call [unfolded switch_call_def]
  then have s: "esp c = of_nat s" "16 \<le> s" "s < 2 ^ 32" "s + 4 \<le> 2 ^ 32" by auto
  define m1 where "m1 = snd (save_regs (c, m))"
  define m2 where "m2 = store32 m1 (of_nat cell) (of_nat (s - 16))"
  have sv: "save_regs (c, m) = (c\<lparr>esp := of_nat (s - 16)\<rparr>, m1)"
    unfolding m1_def by (simp add: save_regs_eq [OF s(1-3)])
  have o1: "m1 (of_nat x) = m (of_nat x)" if "x < 2 ^ 32" "x < s - 16 \<or> s \<le> x" for x
    unfolding m1_def using that by (intro save_regs_other [OF s(1-3)]) auto
  have o2: "m2 (of_nat x) = m1 (of_nat x)" if "x < 2 ^ 32" "x < cell \<or> cell + 4 \<le> x" for x
    unfolding m2_def using that c by (intro store32_other) auto
  have "load32 m1 (of_nat (s + 4)) = load32 m (of_nat (s + 4))"
    by (rule load32_cong, rule o1) (use c in auto)
  then have a1: "load32 m1 (of_nat (s - 16) + 20) = of_nat cell"
    using c by (simp add: add.commute)
  have "load32 m2 (of_nat (s + 8)) = load32 m (of_nat (s + 8))"
  proof (rule load32_cong)
    fix k :: nat assume "k < 4"
    with c have "m2 (of_nat (s + 8 + k)) = m1 (of_nat (s + 8 + k))" by (intro o2) auto
    moreover have "m1 (of_nat (s + 8 + k)) = m (of_nat (s + 8 + k))" using \<open>k < 4\<close> c by (intro o1) auto
    ultimately show "m2 (of_nat (s + 8 + k)) = m (of_nat (s + 8 + k))" by simp
  qed
  then have a2: "load32 m2 (of_nat (s - 16) + 24) = of_nat to"
    using c by (simp add: add.commute)
  have "frame_at m2 to = frame_at m to"
  proof (rule frame_at_cong)
    fix x assume x: "to \<le> x" "x < to + 20"
    then have "m2 (of_nat x) = m1 (of_nat x)" using fr c by (intro o2) auto
    moreover have "m1 (of_nat x) = m (of_nat x)" using x fr c by (intro o1) auto
    ultimately show "m2 (of_nat x) = m (of_nat x)" by simp
  qed
  moreover have "unat (of_nat to :: u32) = to" using c by (simp add: unat_of_nat)
  ultimately have "frame_at m2 (unat (esp (c\<lparr>eax := of_nat cell, esp := of_nat to\<rparr>))) = [di, si, bx, bp, ret]"
    using words by simp
  from restore_regs_frame [OF this]
  have "switch_task (c, m) = (c\<lparr>eax := of_nat cell, edi := di, esi := si, ebx := bx, ebp := bp,
       esp := of_nat (to + 20), eip := ret\<rparr>, m2)"
    using a1 a2 by (simp add: switch_task_def sv Let_def m2_def)
  moreover have "load32 m2 (of_nat cell) = of_nat (s - 16)" by (simp add: m2_def)
  moreover have "frame_at m2 (s - 16) = frame_of c (load32 m (of_nat s))"
  proof -
    have "frame_at m2 (s - 16) = frame_at m1 (s - 16)"
      using c by (intro frame_at_cong o2) auto
    then show ?thesis unfolding m1_def using save_regs_frame [OF s(1,2,4)] by simp
  qed
  moreover have "m2 (of_nat x) = m (of_nat x)"
    if "x < 2 ^ 32" "x < s - 16 \<or> s \<le> x" "x < cell \<or> cell + 4 \<le> x" for x
    using o1 o2 that by simp
  ultimately show thesis by (rule that) auto
qed

section \<open>Properties\<close>

text \<open>C25: a switch away and back is invisible to the task. Task A calls switch_task at stack pointer
  \<open>s\<close>; the cell of its slot then holds \<open>s - 16\<close>. Whatever runs in between, if it leaves those 20
  bytes of A's stack alone and some later call switches to the saved pointer, A continues at its
  return address with the registers the C convention says a call preserves.\<close>

theorem switch_roundtrip:
  assumes out: "switch_call c m s cell to"
      "to + 20 \<le> s - 16 \<or> s + 12 \<le> to" "to + 20 \<le> cell \<or> cell + 4 \<le> to"
      "switch_task (c, m) = (c1, m1)"
    and kept: "\<And>x. s - 16 \<le> x \<Longrightarrow> x < s + 4 \<Longrightarrow> m2 (of_nat x) = m1 (of_nat x)"
    and bk: "switch_call c2 m2 s2 cell2 (s - 16)"
      "s + 4 \<le> s2 - 16 \<or> s2 + 12 \<le> s - 16" "s + 4 \<le> cell2 \<or> cell2 + 4 \<le> s - 16"
      "switch_task (c2, m2) = (c3, m3)"
  shows "load32 m1 (of_nat cell) = of_nat (s - 16)
    \<and> eip c3 = load32 m (esp c) \<and> esp c3 = esp c + 4
    \<and> ebx c3 = ebx c \<and> esi c3 = esi c \<and> edi c3 = edi c \<and> ebp c3 = ebp c"
proof -
  have s: "16 \<le> s" "esp c = of_nat s" using out(1) by (auto simp: switch_call_def)
  obtain di si bx bp ret where w: "frame_at m to = [di, si, bx, bp, ret]" by (simp add: frame_at_words)
  have o: "load32 m1 (of_nat cell) = of_nat (s - 16)"
    "frame_at m1 (s - 16) = frame_of c (load32 m (of_nat s))"
    by (rule switch_task_eq [OF out(1-3) w]; simp only: out(4) prod.inject)+
  have "frame_at m2 (s - 16) = frame_at m1 (s - 16)"
    by (rule frame_at_cong, rule kept) (use s in auto)
  with o(2) have f: "frame_at m2 (s - 16) = [edi c, esi c, ebx c, ebp c, load32 m (of_nat s)]"
    by (simp add: frame_of_def)
  have e: "s - 16 + 20 = s + 4" using s(1) by simp
  have "(c3, m3) = (c2\<lparr>eax := of_nat cell2, edi := edi c, esi := esi c, ebx := ebx c, ebp := ebp c,
      esp := of_nat (s + 4), eip := load32 m (of_nat s)\<rparr>, m3)"
    by (rule switch_task_eq [OF bk(1) _ _ f, unfolded e, OF bk(2,3)]) (simp only: bk(4) prod.inject)
  then have "c3 = c2\<lparr>eax := of_nat cell2, edi := edi c, esi := esi c, ebx := ebx c, ebp := ebp c,
      esp := of_nat (s + 4), eip := load32 m (of_nat s)\<rparr>" by (simp only: prod.inject)
  with o(1) s(2) show ?thesis by (simp add: add.commute)
qed

definition demo_mem :: mem where
  "demo_mem = poke 0x8000 [1, 2, 3, 4, 0x1234] (poke 0x9000 [0x100777, 0x5000, 0x8000] (\<lambda>_. 0))"

definition demo_cpu :: cpu where
  "demo_cpu = \<lparr>eax = 0, ebx = 21, esi = 22, edi = 23, ebp = 24, esp = 0x9000, eip = 0\<rparr>"

text \<open>The second task calls back with its stack pointer at 0x7000 and its cell at 0x5100.\<close>

definition demo_back :: "mem \<Rightarrow> mem" where
  "demo_back m = poke 0x7004 [0x5100, 0x8FF0] m"

lemma demo_loads:
  "load32 demo_mem 0x9000 = 0x100777" "load32 demo_mem 0x9004 = 0x5000" "load32 demo_mem 0x9008 = 0x8000"
proof -
  have o: "load32 demo_mem (of_nat x) = load32 (poke 0x9000 [0x100777, 0x5000, 0x8000] (\<lambda>_. 0)) (of_nat x)"
    if "0x9000 \<le> x" "x < 0xA000" for x
  proof (rule load32_cong)
    fix k :: nat assume "k < 4"
    with that poke_other [of "x + k" "0x8000" "[1, 2, 3, 4, 0x1234]"]
    show "demo_mem (of_nat (x + k)) = poke 0x9000 [0x100777, 0x5000, 0x8000] (\<lambda>_. 0) (of_nat (x + k))"
      by (simp add: demo_mem_def)
  qed
  note p = load32_poke [of _ "[0x100777, 0x5000, 0x8000 :: u32]" "0x9000" "\<lambda>_. 0"]
  show "load32 demo_mem 0x9000 = 0x100777" using o [of "0x9000"] p [of 0] by simp
  show "load32 demo_mem 0x9004 = 0x5000" using o [of "0x9004"] p [of 1] by simp
  show "load32 demo_mem 0x9008 = 0x8000" using o [of "0x9008"] p [of 2] by simp
qed

lemma demo_call: "switch_call demo_cpu demo_mem 0x9000 0x5000 0x8000"
  using demo_loads by (simp add: switch_call_def demo_cpu_def)

lemma demo_back_loads: "load32 (demo_back m) 0x7004 = 0x5100" "load32 (demo_back m) 0x7008 = 0x8FF0"
  using load32_poke [of 0 "[0x5100, 0x8FF0 :: u32]" "0x7004" m]
    load32_poke [of 1 "[0x5100, 0x8FF0 :: u32]" "0x7004" m] by (simp_all add: demo_back_def)

theorem switch_roundtrip_witness:
  "\<exists>c1 m1 c3 m3. switch_task (demo_cpu, demo_mem) = (c1, m1)
     \<and> switch_task (c1\<lparr>esp := 0x7000\<rparr>, demo_back m1) = (c3, m3)
     \<and> eip c3 = 0x100777 \<and> esp c3 = 0x9004 \<and> ebx c3 = 21 \<and> ebp c3 = 24"
proof -
  obtain c1 m1 where out: "switch_task (demo_cpu, demo_mem) = (c1, m1)" by fastforce
  obtain c3 m3 where bk: "switch_task (c1\<lparr>esp := 0x7000\<rparr>, demo_back m1) = (c3, m3)" by fastforce
  have "demo_back m1 (of_nat x) = m1 (of_nat x)" if "0x9000 - 16 \<le> x" "x < 0x9000 + 4" for x
    using poke_other [of x "0x7004" "[0x5100, 0x8FF0]" m1] that by (simp add: demo_back_def)
  from switch_roundtrip [OF demo_call _ _ out this _ _ _ bk, of "0x7000" "0x5100"] demo_back_loads [of m1]
  have "eip c3 = load32 demo_mem (esp demo_cpu)" "esp c3 = esp demo_cpu + 4" "ebx c3 = ebx demo_cpu"
    "ebp c3 = ebp demo_cpu" by (simp_all add: switch_call_def)
  with out bk demo_loads(1) show ?thesis by (simp add: demo_cpu_def)
qed

text \<open>The first switch to a task that Spawn prepared enters its function: the return address is
  the entry, the stack is empty (the stack pointer is the top of the stack) and the four registers
  are zero.\<close>

theorem switch_first_entry:
  assumes "unat stack + 4096 < 2 ^ 32"
    and frame: "\<And>x. unat stack + 4076 \<le> x \<Longrightarrow> x < unat stack + 4096 \<Longrightarrow>
        m (of_nat x) = format_stack stack entry m0 (of_nat x)"
    and call: "switch_call c m s cell (unat stack + 4076)"
    and apart: "unat stack + 4096 \<le> s - 16 \<or> s + 12 \<le> unat stack"
      "unat stack + 4096 \<le> cell \<or> cell + 4 \<le> unat stack"
  shows "\<exists>c' m'. switch_task (c, m) = (c', m') \<and> eip c' = entry \<and> esp c' = stack + STACK_SIZE
    \<and> ebx c' = 0 \<and> esi c' = 0 \<and> edi c' = 0 \<and> ebp c' = 0"
proof -
  have "frame_at m (unat stack + 4076) = frame_at (format_stack stack entry m0) (unat stack + 4076)"
    by (rule frame_at_cong, rule frame) auto
  also have "\<dots> = [0, 0, 0, 0, entry]"
    using format_stack_words [OF assms(1), of entry m0] by (simp add: frame_at_words ac_simps)
  finally have f: "frame_at m (unat stack + 4076) = [0, 0, 0, 0, entry]" .
  have e: "unat stack + 4076 + 20 = unat stack + 4096" by simp
  obtain m' where "switch_task (c, m) = (c\<lparr>eax := of_nat cell, edi := 0, esi := 0, ebx := 0, ebp := 0,
      esp := of_nat (unat stack + 4096), eip := entry\<rparr>, m')"
    by (rule switch_task_eq [OF call _ _ f, unfolded e]) (use apart in auto)
  then show ?thesis by (simp add: STACK_SIZE_def add.commute)
qed

theorem switch_first_entry_witness:
  "\<exists>c' m'. switch_task (demo_cpu\<lparr>esp := 0x7000\<rparr>,
       poke 0x7004 [0x5100, 0x8FEC] (format_stack 0x8000 0x101234 (\<lambda>_. 0))) = (c', m')
     \<and> eip c' = 0x101234 \<and> esp c' = 0x9000"
proof -
  let ?m = "poke 0x7004 [0x5100, 0x8FEC] (format_stack 0x8000 0x101234 (\<lambda>_. 0))"
  have n: "unat (0x8000 :: u32) = 0x8000" by simp
  have "load32 ?m 0x7004 = 0x5100" "load32 ?m 0x7008 = 0x8FEC"
    using load32_poke [of 0 "[0x5100, 0x8FEC :: u32]" "0x7004"] load32_poke [of 1 "[0x5100, 0x8FEC :: u32]" "0x7004"]
    by simp_all
  then have "switch_call (demo_cpu\<lparr>esp := 0x7000\<rparr>) ?m 0x7000 0x5100 (unat (0x8000 :: u32) + 4076)"
    by (simp add: switch_call_def)
  moreover have "?m (of_nat x) = format_stack 0x8000 0x101234 (\<lambda>_. 0) (of_nat x)"
    if "unat (0x8000 :: u32) + 4076 \<le> x" "x < unat (0x8000 :: u32) + 4096" for x
    using poke_other [of x "0x7004" "[0x5100, 0x8FEC]"] that by simp
  ultimately show ?thesis
    using switch_first_entry [of "0x8000" ?m "0x101234" "\<lambda>_. 0" "demo_cpu\<lparr>esp := 0x7000\<rparr>" "0x7000" "0x5100"]
    by (auto simp: STACK_SIZE_def)
qed

end
