(* ===== verification/C_Library.thy ===== *)
theory C_Library
  imports Prelude
begin

text \<open>
  The string and number routines of the kernel's own C library (src/src/src/libs/string.h,
  stdlib.h, common.h) on the byte memory.  A walk to the terminating zero is a
  \<open>partial_function\<close>: where no zero ever comes the routine does not return.  Each routine is
  related to lists of bytes through \<open>cstr_at\<close>, which is how the other theories use it.
\<close>

section \<open>Memory blocks\<close>

fun memset_loop :: "u32 \<Rightarrow> u8 \<Rightarrow> nat \<Rightarrow> mem \<Rightarrow> mem" where
  "memset_loop p c 0 m = m"
| "memset_loop p c (Suc n) m = memset_loop (p + 1) c n (m(p := c))"

definition C_memset :: "u32 \<Rightarrow> u32 \<Rightarrow> u32 \<Rightarrow> mem \<Rightarrow> mem" where
  "C_memset s c n m = memset_loop s (ucast c) (unat n) m"

definition C_memcpy :: "u32 \<Rightarrow> u32 \<Rightarrow> u32 \<Rightarrow> mem \<Rightarrow> mem" where
  "C_memcpy dst src n m = for_loop (\<lambda>i m. m(dst + i := m (src + i))) 0 n m"

section \<open>Strings\<close>

partial_function (option) strlen_from :: "mem \<Rightarrow> u32 \<Rightarrow> u32 \<Rightarrow> u32 option" where
  "strlen_from m str len = (if m (str + len) = 0 then Some len else strlen_from m str (len + 1))"

definition C_strlen :: "mem \<Rightarrow> u32 \<Rightarrow> u32 option" where
  "C_strlen m str = strlen_from m str 0"

partial_function (option) C_strcmp :: "mem \<Rightarrow> u32 \<Rightarrow> u32 \<Rightarrow> int option" where
  "C_strcmp m a b =
     (if m a \<noteq> 0 \<and> m a = m b then C_strcmp m (a + 1) (b + 1)
      else Some (uint (m a) - uint (m b)))"

partial_function (option) C_strcpy :: "u32 \<Rightarrow> u32 \<Rightarrow> mem \<Rightarrow> mem option" where
  "C_strcpy d s m =
     (let m1 = m(d := m s) in if m1 d \<noteq> 0 then C_strcpy (d + 1) (s + 1) m1 else Some m1)"

partial_function (option) strcat_end :: "mem \<Rightarrow> u32 \<Rightarrow> u32 option" where
  "strcat_end m d = (if m d \<noteq> 0 then strcat_end m (d + 1) else Some d)"

definition C_strcat :: "u32 \<Rightarrow> u32 \<Rightarrow> mem \<Rightarrow> mem option" where
  "C_strcat d s m = Option.bind (strcat_end m d) (\<lambda>e. C_strcpy e s m)"

section \<open>What they do on C strings\<close>

lemma cstr_at_Nil [simp]: "cstr_at m a [] \<longleftrightarrow> m a = 0"
  by (simp add: cstr_at_def)

lemma cstr_at_Cons [simp]: "cstr_at m a (x # xs) \<longleftrightarrow> x \<noteq> 0 \<and> m a = x \<and> cstr_at m (a + 1) xs"
  by (auto simp: cstr_at_def)

lemma strlen_from_cstr:
  "cstr_at m (str + len) s \<Longrightarrow> strlen_from m str len = Some (len + of_nat (length s))"
proof (induction s arbitrary: len)
  case (Cons x xs)
  then have "m (str + len) \<noteq> 0" "cstr_at m (str + (len + 1)) xs" by (auto simp: add.assoc)
  with Cons.IH [of "len + 1"] show ?case by (subst strlen_from.simps) (simp add: ac_simps)
qed (subst strlen_from.simps, simp)

lemma C_strlen_cstr: "cstr_at m a s \<Longrightarrow> C_strlen m a = Some (of_nat (length s))"
  using strlen_from_cstr [of m a 0 s] by (simp add: C_strlen_def)

text \<open>The sign of the difference of the first bytes that differ, the end counting as 0.\<close>

fun byte_diff :: "u8 list \<Rightarrow> u8 list \<Rightarrow> int" where
  "byte_diff (x # xs) (y # ys) = (if x = y then byte_diff xs ys else uint x - uint y)"
| "byte_diff (x # xs) [] = uint x"
| "byte_diff [] (y # ys) = - uint y"
| "byte_diff [] [] = 0"

lemma C_strcmp_cstr:
  "cstr_at m a s \<Longrightarrow> cstr_at m b t \<Longrightarrow> C_strcmp m a b = Some (byte_diff s t)"
proof (induction s t arbitrary: a b rule: byte_diff.induct)
  case (1 x xs y ys)
  then show ?case by (subst C_strcmp.simps) auto
qed (subst C_strcmp.simps, simp)+

lemma byte_diff_zero:
  "0 \<notin> set s \<Longrightarrow> 0 \<notin> set t \<Longrightarrow> byte_diff s t = 0 \<longleftrightarrow> s = t"
  by (induction s t rule: byte_diff.induct) (auto simp: word_uint_eq_iff)

lemma C_strcpy_cstr:
  assumes "cstr_at m (of_nat s) xs" "s + length xs < d \<or> d + length xs < s"
    "s + length xs < 2 ^ 32" "d + length xs < 2 ^ 32"
  shows "\<exists>m'. C_strcpy (of_nat d) (of_nat s) m = Some m' \<and> cstr_at m' (of_nat d) xs
    \<and> (\<forall>x. x < 2 ^ 32 \<longrightarrow> x < d \<or> d + length xs < x \<longrightarrow> m' (of_nat x) = m (of_nat x))"
  using assms
proof (induction xs arbitrary: s d m)
  case Nil
  then show ?case by (subst C_strcpy.simps) (auto simp: of_nat_u32_eq_iff)
next
  case (Cons x xs)
  let ?m = "m(of_nat d := x)"
  have mx: "m (of_nat s) = x" "x \<noteq> 0" "cstr_at m (of_nat (s + 1)) xs"
    using Cons.prems(1) by (simp_all add: add.commute)
  have "cstr_at ?m (of_nat (s + 1)) xs"
  proof -
    have "?m (of_nat (s + 1) + of_nat i) = m (of_nat (s + 1) + of_nat i)" if "i \<le> length xs" for i
    proof -
      have "(of_nat (s + 1 + i) :: u32) \<noteq> of_nat d"
        using Cons.prems that by (subst of_nat_u32_eq_iff) auto
      then show ?thesis by (metis fun_upd_other of_nat_add)
    qed
    then have "bytes_at ?m (of_nat (s + 1)) (xs @ [0]) = bytes_at m (of_nat (s + 1)) (xs @ [0])"
      by (intro bytes_at_cong) simp
    with mx(3) show ?thesis unfolding cstr_at_def by blast
  qed
  moreover have "s + 1 + length xs < d + 1 \<or> d + 1 + length xs < s + 1" "s + 1 + length xs < 2 ^ 32"
    "d + 1 + length xs < 2 ^ 32" using Cons.prems by auto
  ultimately obtain m' where
    m': "C_strcpy (of_nat (d + 1)) (of_nat (s + 1)) ?m = Some m'" "cstr_at m' (of_nat (d + 1)) xs"
      "\<forall>x. x < 2 ^ 32 \<longrightarrow> x < d + 1 \<or> d + 1 + length xs < x \<longrightarrow> m' (of_nat x) = ?m (of_nat x)"
    using Cons.IH [of ?m "s + 1" "d + 1"] by blast
  have "C_strcpy (of_nat d) (of_nat s) m = Some m'"
    using m'(1) mx by (subst C_strcpy.simps) (simp add: add.commute)
  moreover have "m' (of_nat d) = x" using m'(3) Cons.prems by simp
  then have "cstr_at m' (of_nat d) (x # xs)" using m'(2) mx(2) by (simp add: add.commute)
  moreover have "m' (of_nat y) = m (of_nat y)" if "y < 2 ^ 32" "y < d \<or> d + length (x # xs) < y" for y
  proof -
    have "(of_nat y :: u32) \<noteq> of_nat d" using that Cons.prems by (subst of_nat_u32_eq_iff) auto
    with m'(3) that show ?thesis by auto
  qed
  ultimately show ?case by blast
qed

lemma strcat_end_cstr: "cstr_at m a s \<Longrightarrow> strcat_end m a = Some (a + of_nat (length s))"
proof (induction s arbitrary: a)
  case (Cons x xs)
  then show ?case by (subst strcat_end.simps) (auto simp: add.assoc)
qed (subst strcat_end.simps, simp)

lemma memset_loop_apply:
  "n \<le> 2 ^ 32 \<Longrightarrow> memset_loop p c n m x = (if unat (x - p) < n then c else m x)"
proof (induction n arbitrary: p m)
  case (Suc n)
  have "unat (x - (p + 1)) < n \<longleftrightarrow> x \<noteq> p \<and> unat (x - p) < Suc n"
  proof (cases "x = p")
    case True
    have "(-1 :: u32) = 0xFFFFFFFF" by simp
    then have "unat (-1 :: u32) = 2 ^ 32 - 1" by (simp only:) simp
    with Suc.prems True show ?thesis by simp
  next
    case False
    then have "unat (x - p - 1) = unat (x - p) - 1" by (intro unat_minus_one) simp
    moreover have "unat (x - p) \<noteq> 0" using False by (simp add: unat_eq_zero)
    ultimately show ?thesis using False by (simp add: algebra_simps) linarith
  qed
  with Suc show ?case by (auto simp: fun_upd_def)
qed simp

section \<open>Joining strings\<close>

text \<open>
  \<open>concat\<close> of common.h fills a static buffer of 256 bytes: at most 255 bytes, then the zero.
  The result is the list of bytes it holds.
\<close>

definition CONCAT_BUFFER :: nat where "CONCAT_BUFFER = 256"

fun concat_fill :: "u8 list \<Rightarrow> u8 list \<Rightarrow> u8 list" where
  "concat_fill acc [] = acc"
| "concat_fill acc (c # cs) = (if length acc < CONCAT_BUFFER - 1 then concat_fill (acc @ [c]) cs else acc)"

definition C_concat :: "u8 list \<Rightarrow> u8 list \<Rightarrow> u8 list" where
  "C_concat first second = concat_fill (concat_fill [] first) second"

lemma concat_fill_take: "length acc \<le> 255 \<Longrightarrow> concat_fill acc s = take 255 (acc @ s)"
  by (induction acc s rule: concat_fill.induct) (auto simp: CONCAT_BUFFER_def)

lemma C_concat_take: "C_concat a b = take 255 (a @ b)"
  by (simp add: C_concat_def concat_fill_take min_def)

section \<open>Numbers\<close>

text \<open>
  \<open>int2char\<close>: decimal digits written backwards from byte 30 of a static buffer of 32 bytes.
  The remainder of a negative number is negative, and the digit is then read from before the
  literal: \<open>None\<close>.
\<close>

definition digit_string :: "u8 list" where
  "digit_string = [0x30, 0x31, 0x32, 0x33, 0x34, 0x35, 0x36, 0x37, 0x38, 0x39,
     0x61, 0x62, 0x63, 0x64, 0x65, 0x66]"

fun int2char_loop :: "nat \<Rightarrow> int \<Rightarrow> u8 list \<Rightarrow> (nat \<times> u8 list) option" where
  "int2char_loop 0 val buf = Some (0, buf)"
| "int2char_loop (Suc i) val buf =
     (if val = 0 then Some (Suc i, buf)
      else if val < 0 \<and> val mod 10 \<noteq> 0 then None
      else int2char_loop i (if val < 0 then - (- val div 10) else val div 10)
             (buf[Suc i := digit_string ! nat (val mod 10)]))"

definition int2char :: "u32 \<Rightarrow> u8 list \<Rightarrow> (u8 list \<times> u8 list) option" where
  "int2char v buf = map_option (\<lambda>(i, b). (takeWhile (\<lambda>c. c \<noteq> 0) (drop (i + 1) b), b))
     (int2char_loop 30 (sint v) buf)"

section \<open>Pseudo random numbers\<close>

definition RAND_MAX :: u32 where "RAND_MAX = 32767"

definition C_rand :: "u32 \<Rightarrow> u32 \<times> u32" where
  "C_rand nxt = (let n = nxt * 1103515245 + 12345 in ((n div 65536) mod RAND_MAX + 1, n))"

lemma C_rand_range: "1 \<le> fst (C_rand n) \<and> fst (C_rand n) \<le> RAND_MAX"
proof -
  have "1 \<le> x mod RAND_MAX + 1 \<and> x mod RAND_MAX + 1 \<le> RAND_MAX" for x :: u32
  proof -
    have "unat (x mod RAND_MAX) < unat RAND_MAX" by (simp only: unat_mod) (simp add: RAND_MAX_def)
    moreover from this have "unat (x mod RAND_MAX + 1) = unat (x mod RAND_MAX) + 1" by (simp add: RAND_MAX_def unat_word_ariths)
    ultimately show ?thesis by (simp only: word_le_nat_alt) simp
  qed
  then show ?thesis by (simp only: C_rand_def Let_def fst_conv)
qed

end
