(* ===== verification/Text_Lines.thy ===== *)
theory Text_Lines
  imports C_Library "HOL-Library.Monad_Syntax"
begin

text \<open>
  The line buffers of the command shell (src/src/src/classes/commands.class.h) and of the
  status bar (tasks.class.h): \<open>AppendStr\<close>, \<open>IntToStr\<close>, \<open>u32_to_str\<close>, \<open>HexToStr\<close>, the padding
  loops and the unchecked \<open>buf[j++] = c\<close>.  A buffer is the list of its bytes and a write
  outside it is \<open>None\<close>; its first contents are whatever was on the stack.  A line is a list of
  pieces, executed in order; the theory shows what text each list of pieces leaves.
\<close>

section \<open>Bytes of literals\<close>

definition str :: "string \<Rightarrow> u8 list" where
  "str s = map (\<lambda>c. of_nat (of_char c)) s"

lemma str_simps [simp]: "str [] = []" "str (c # s) = of_nat (of_char c) # str s"
  by (simp_all add: str_def)

lemma length_str [simp]: "length (str s) = length s"
  by (simp add: str_def)

lemma zero_in_str: "0 \<in> set (str s) \<longleftrightarrow> CHR 0x00 \<in> set s"
proof -
  have "(of_nat (of_char c) :: u8) = 0 \<longleftrightarrow> c = CHR 0x00" for c :: char
  proof
    assume "(of_nat (of_char c) :: u8) = 0"
    then have "256 dvd (of_char c :: nat)" by (simp add: word_of_nat_eq_0_iff)
    moreover have "(of_char c :: nat) < 256" by simp
    ultimately have "\<not> 0 < (of_char c :: nat)" using nat_dvd_not_less by blast
    then have "(of_char c :: nat) = of_char (CHR 0x00)" by simp
    then show "c = CHR 0x00" by (simp only: of_char_eq_iff)
  qed simp
  then have "0 = (of_nat (of_char c) :: u8) \<longleftrightarrow> CHR 0x00 = c" for c :: char by metis
  then show ?thesis by (induction s) simp_all
qed

section \<open>Buffers\<close>

definition put :: "u8 list \<Rightarrow> nat \<Rightarrow> u8 \<Rightarrow> u8 list option" where
  "put buf i c = (if i < length buf then Some (buf[i := c]) else None)"

fun append_loop :: "u8 list \<Rightarrow> nat \<Rightarrow> int \<Rightarrow> u8 list \<Rightarrow> (u8 list \<times> nat) option" where
  "append_loop dst idx cap [] = Some (dst, idx)"
| "append_loop dst idx cap (c # s) =
     (if int idx < cap - 1 then do { dst' \<leftarrow> put dst idx c; append_loop dst' (idx + 1) cap s }
      else Some (dst, idx))"

definition AppendStr :: "u8 list \<Rightarrow> nat \<Rightarrow> int \<Rightarrow> u8 list \<Rightarrow> (u8 list \<times> nat) option" where
  "AppendStr dst idx cap s = do {
     (dst', idx') \<leftarrow> append_loop dst idx cap s;
     dst'' \<leftarrow> put dst' idx' 0;
     Some (dst'', idx') }"

text \<open>The digits of a number, last one first, in a scratch array of 16 bytes of which 15 are used.\<close>

function dec_loop :: "u32 \<Rightarrow> u8 list \<Rightarrow> u8 list" where
  "dec_loop v tmp =
     (if v \<noteq> 0 \<and> length tmp < 15 then dec_loop (v div 10) (tmp @ [0x30 + ucast (v mod 10)]) else tmp)"
  by pat_completeness auto
termination by (relation "measure (\<lambda>(v, tmp). 15 - length tmp)") auto

declare dec_loop.simps [simp del]

text \<open>Copying them out in reverse: \<open>while (n > 0 && j < cap - 1) buf[j++] = tmp[--n]\<close>.\<close>

fun rev_loop :: "u8 list \<Rightarrow> nat \<Rightarrow> nat \<Rightarrow> int \<Rightarrow> u8 list \<Rightarrow> (u8 list \<times> nat) option" where
  "rev_loop buf off j cap [] = Some (buf, j)"
| "rev_loop buf off j cap (c # tmp) =
     (if int j < cap - 1 then do { buf' \<leftarrow> put buf (off + j) c; rev_loop buf' off (j + 1) cap tmp }
      else Some (buf, j))"

text \<open>\<open>IntToStr(v, buf + off, cap)\<close>; \<open>u32_to_str\<close> of tasks.class.h has the same body.\<close>

definition IntToStr :: "u32 \<Rightarrow> u8 list \<Rightarrow> nat \<Rightarrow> int \<Rightarrow> (u8 list \<times> nat) option" where
  "IntToStr v buf off cap =
     (if cap < 2 then (if cap > 0 then do { b \<leftarrow> put buf off 0; Some (b, 0) } else Some (buf, 0))
      else if v = 0 then do { b \<leftarrow> put buf off 0x30; b' \<leftarrow> put b (off + 1) 0; Some (b', 1) }
      else do {
        (b, j) \<leftarrow> rev_loop buf off 0 cap (rev (dec_loop v []));
        b' \<leftarrow> put b (off + j) 0;
        Some (b', j) })"

function hex_loop :: "u32 \<Rightarrow> u8 list \<Rightarrow> u8 list" where
  "hex_loop v tmp =
     (if v \<noteq> 0 \<and> length tmp < 8
      then hex_loop (drop_bit 4 v) (tmp @ [digit_string ! unat (v AND 0xF)]) else tmp)"
  by pat_completeness auto
termination by (relation "measure (\<lambda>(v, tmp). 8 - length tmp)") auto

declare hex_loop.simps [simp del]

definition HexToStr :: "u32 \<Rightarrow> u8 list \<Rightarrow> nat \<Rightarrow> int \<Rightarrow> (u8 list \<times> nat) option" where
  "HexToStr v buf off cap =
     (if cap < 4 then (if cap > 0 then do { b \<leftarrow> put buf off 0; Some (b, 0) } else Some (buf, 0))
      else do {
        b0 \<leftarrow> put buf off 0x30;
        b1 \<leftarrow> put b0 (off + 1) 0x78;
        (b, j) \<leftarrow> rev_loop b1 off 2 cap (rev (if v = 0 then [0x30] else hex_loop v []));
        b' \<leftarrow> put b (off + j) 0;
        Some (b', j) })"

definition u32_to_2digit :: "u32 \<Rightarrow> u8 list" where
  "u32_to_2digit v = [0x30 + ucast ((v div 10) mod 10), 0x30 + ucast (v mod 10)]"

section \<open>Lines as pieces\<close>

text \<open>
  The statements a line is built with.  \<open>Raw\<close> is the unchecked \<open>buf[j++] = c\<close>, \<open>Back\<close> is
  \<open>j -= 1\<close>, \<open>Pad k\<close> is \<open>while (j < k && j < 79) buf[j++] = ' '\<close>, \<open>Nul\<close> is \<open>buf[j] = '\0'\<close>.
\<close>

datatype piece = Str "u8 list" | Num u32 | Hex u32 | Pad nat | Raw u8 | Back | Nul

function pad_loop :: "nat \<Rightarrow> u8 list \<Rightarrow> nat \<Rightarrow> (u8 list \<times> nat) option" where
  "pad_loop k buf j =
     (if j < k \<and> j < 79 then do { buf' \<leftarrow> put buf j 0x20; pad_loop k buf' (j + 1) } else Some (buf, j))"
  by pat_completeness auto
termination by (relation "measure (\<lambda>(k, buf, j). k - j)") auto

declare pad_loop.simps [simp del]

fun emit :: "nat \<Rightarrow> piece \<Rightarrow> u8 list \<times> nat \<Rightarrow> (u8 list \<times> nat) option" where
  "emit cap (Str s) (buf, j) = AppendStr buf j (int cap) s"
| "emit cap (Num v) (buf, j) = do { (b, n) \<leftarrow> IntToStr v buf j (int cap - int j); Some (b, j + n) }"
| "emit cap (Hex v) (buf, j) = do { (b, n) \<leftarrow> HexToStr v buf j (int cap - int j); Some (b, j + n) }"
| "emit cap (Pad k) (buf, j) = pad_loop k buf j"
| "emit cap (Raw c) (buf, j) = do { b \<leftarrow> put buf j c; Some (b, j + 1) }"
| "emit cap Back (buf, j) = Some (buf, j - 1)"
| "emit cap Nul (buf, j) = do { b \<leftarrow> put buf j 0; Some (b, j) }"

fun emit_all :: "nat \<Rightarrow> piece list \<Rightarrow> u8 list \<times> nat \<Rightarrow> (u8 list \<times> nat) option" where
  "emit_all cap [] s = Some s"
| "emit_all cap (p # ps) s = do { s' \<leftarrow> emit cap p s; emit_all cap ps s' }"

text \<open>The C string a buffer holds; reading on past the end of the array is \<open>None\<close>.\<close>

definition c_string :: "u8 list \<Rightarrow> u8 list option" where
  "c_string buf = (if 0 \<in> set buf then Some (takeWhile (\<lambda>c. c \<noteq> 0) buf) else None)"

definition line :: "u8 list \<Rightarrow> piece list \<Rightarrow> u8 list option" where
  "line stack ps = do { (buf, j) \<leftarrow> emit_all (length stack) ps (stack, 0); c_string buf }"

section \<open>What the loops write\<close>

text \<open>The first bytes of a buffer are \<open>p\<close>, and there is room behind them.\<close>

fun holds :: "nat \<Rightarrow> u8 list \<Rightarrow> u8 list \<times> nat \<Rightarrow> bool" where
  "holds n p (buf, j) \<longleftrightarrow> length buf = n \<and> j = length p \<and> j < n \<and> take j buf = p \<and> 0 \<notin> set p"

lemma put_take:
  assumes "length buf = n" "j < n" "take j buf = p" "length p = j"
  shows "\<exists>b. put buf j c = Some b \<and> length b = n \<and> take (Suc j) b = p @ [c]"
  using assms by (auto simp: put_def take_Suc_conv_app_nth)

lemma put_end:
  assumes "length buf = n" "j < n" "take j buf = p" "length p = j"
  shows "\<exists>b. put buf j 0 = Some b \<and> length b = n \<and> take j b = p \<and> b ! j = 0"
  using assms by (auto simp: put_def)

lemma take_snoc:
  "length p < k \<Longrightarrow> take k (p @ c # cs) = take k ((p @ [c]) @ cs)"
  by simp

lemma append_loop_take:
  assumes "length dst = n" "take j dst = p" "length p = j" "j < n"
  shows "\<exists>b. append_loop dst j (int n) s = Some (b, length (take (n - 1) (p @ s)))
    \<and> length b = n \<and> take (length (take (n - 1) (p @ s))) b = take (n - 1) (p @ s)"
  using assms
proof (induction s arbitrary: dst j p)
  case (Cons c s)
  show ?case
  proof (cases "j < n - 1")
    case True
    with put_take [OF Cons.prems(1,4,2,3), of c] obtain b where
      b: "put dst j c = Some b" "length b = n" "take (Suc j) b = p @ [c]" by blast
    have "length (p @ [c]) = Suc j" "Suc j < n" using True Cons.prems(3) by simp_all
    moreover have "int j < int n - 1" using True by linarith
    ultimately show ?thesis using Cons.IH [OF b(2,3)] b(1) by simp
  next
    case False
    with Cons.prems have "take (n - 1) (p @ c # s) = p" "\<not> int j < int n - 1" by auto
    with Cons.prems show ?thesis by simp
  qed
qed simp

lemma rev_loop_take:
  assumes "length buf = n" "take (off + j) buf = p" "length p = off + j" "off + j < n"
  shows "\<exists>b. rev_loop buf off j (int n - int off) s = Some (b, length (take (n - 1) (p @ s)) - off)
    \<and> length b = n \<and> take (length (take (n - 1) (p @ s))) b = take (n - 1) (p @ s)"
  using assms
proof (induction s arbitrary: buf j p)
  case (Cons c s)
  show ?case
  proof (cases "off + j < n - 1")
    case True
    with put_take [OF Cons.prems(1,4,2,3), of c] obtain b where
      b: "put buf (off + j) c = Some b" "length b = n" "take (Suc (off + j)) b = p @ [c]" by blast
    have n: "take (off + Suc j) b = p @ [c]" "length (p @ [c]) = off + Suc j" "off + Suc j < n"
      using True Cons.prems(3) b(3) by simp_all
    moreover have "int j < int n - int off - 1" using True by linarith
    ultimately show ?thesis using Cons.IH [OF b(2) n] b(1) by simp
  next
    case False
    with Cons.prems have "take (n - 1) (p @ c # s) = p" "\<not> int j < int n - int off - 1" by auto
    with Cons.prems show ?thesis by simp
  qed
qed simp

lemma AppendStr_holds:
  assumes "holds n p (dst, j)" "0 \<notin> set s"
  shows "\<exists>b k. AppendStr dst j (int n) s = Some (b, k) \<and> holds n (take (n - 1) (p @ s)) (b, k) \<and> b ! k = 0"
proof -
  let ?q = "take (n - 1) (p @ s)"
  have "length dst = n" "take j dst = p" "length p = j" "j < n" using assms(1) by auto
  from append_loop_take [OF this, of s] obtain b where
    b: "append_loop dst j (int n) s = Some (b, length ?q)" "length b = n" "take (length ?q) b = ?q" by blast
  have l: "length ?q < n" using assms(1) by (auto simp: min_def)
  from put_end [OF b(2) l b(3)] obtain b' where
    b': "put b (length ?q) 0 = Some b'" "length b' = n" "take (length ?q) b' = ?q" "b' ! length ?q = 0" by auto
  have "0 \<notin> set ?q" using assms by (auto dest: in_set_takeD)
  with b b' l show ?thesis by (simp add: AppendStr_def)
qed

section \<open>Decimal and hexadecimal numerals\<close>

fun dec :: "nat \<Rightarrow> u8 list" where
  "dec n = (if n < 10 then [0x30 + of_nat n] else dec (n div 10) @ [0x30 + of_nat (n mod 10)])"

fun hexa :: "nat \<Rightarrow> u8 list" where
  "hexa n = (if n < 16 then [digit_string ! n] else hexa (n div 16) @ [digit_string ! (n mod 16)])"

declare dec.simps [simp del] hexa.simps [simp del]

lemma dec_length: "n < 10 ^ k \<Longrightarrow> 0 < k \<Longrightarrow> length (dec n) \<le> k"
proof (induction k arbitrary: n)
  case (Suc k)
  show ?case
  proof (cases "n < 10")
    case False
    then have "0 < k" using Suc.prems by (cases k) auto
    moreover have "n div 10 < 10 ^ k" using Suc.prems by (simp add: less_mult_imp_div_less mult.commute)
    ultimately show ?thesis using Suc.IH [of "n div 10"] False by (simp add: dec.simps [of n])
  qed (simp add: dec.simps [of n])
qed simp

lemma hexa_length: "n < 16 ^ k \<Longrightarrow> 0 < k \<Longrightarrow> length (hexa n) \<le> k"
proof (induction k arbitrary: n)
  case (Suc k)
  show ?case
  proof (cases "n < 16")
    case False
    then have "0 < k" using Suc.prems by (cases k) auto
    moreover have "n div 16 < 16 ^ k" using Suc.prems by (simp add: less_mult_imp_div_less mult.commute)
    ultimately show ?thesis using Suc.IH [of "n div 16"] False by (simp add: hexa.simps [of n])
  qed (simp add: hexa.simps [of n])
qed simp

lemma dec_u32_length: "length (dec (unat (v :: u32))) \<le> 10"
  by (rule dec_length) (use unat_u32_less [of v] in simp_all)

lemma hexa_u32_length: "length (hexa (unat (v :: u32))) \<le> 8"
  by (rule hexa_length) (use unat_u32_less [of v] in simp_all)

lemma dec_loop_dec:
  "v \<noteq> 0 \<Longrightarrow> length tmp + length (dec (unat v)) \<le> 15 \<Longrightarrow> dec_loop v tmp = tmp @ rev (dec (unat v))"
proof (induction v tmp rule: dec_loop.induct)
  case (1 v tmp)
  have d: "unat (v div 10) = unat v div 10" "unat (v mod 10) = unat v mod 10"
    by (simp_all add: unat_div unat_mod)
  have c: "(ucast (v mod 10) :: u8) = of_nat (unat v mod 10)"
    unfolding d(2) [symmetric] by (simp only: of_nat_unat)
  show ?case
  proof (cases "unat v < 10")
    case True
    then have "v div 10 = 0" using d(1) by (simp add: unat_eq_zero [symmetric])
    moreover have "length tmp < 15" using "1.prems" True by (simp add: dec.simps [of "unat v"])
    ultimately show ?thesis using "1.prems"(1) c True
      by (simp add: dec_loop.simps [of v] dec_loop.simps [of 0] dec.simps [of "unat v"])
  next
    case False
    then have "v div 10 \<noteq> 0" using d(1) by (simp add: unat_eq_zero [symmetric] div_eq_0_iff)
    moreover have "length tmp < 15" using "1.prems" False by (simp add: dec.simps [of "unat v"])
    ultimately show ?thesis using "1.IH" "1.prems" c d False
      by (simp add: dec_loop.simps [of v] dec.simps [of "unat v"])
  qed
qed

lemma hex_loop_hexa:
  "v \<noteq> 0 \<Longrightarrow> length tmp + length (hexa (unat v)) \<le> 8 \<Longrightarrow> hex_loop v tmp = tmp @ rev (hexa (unat v))"
proof (induction v tmp rule: hex_loop.induct)
  case (1 v tmp)
  have d: "unat (drop_bit 4 v) = unat v div 16" by (simp add: drop_bit_eq_div unat_div)
  have c: "unat (v AND 0xF) = unat v mod 16"
  proof -
    have "v AND 0xF = take_bit 4 v" by (simp add: take_bit_eq_mask mask_eq_exp_minus_1)
    then show ?thesis by (simp add: unat_mod take_bit_eq_mod)
  qed
  show ?case
  proof (cases "unat v < 16")
    case True
    then have "drop_bit 4 v = 0" using d by (simp add: unat_eq_zero [symmetric])
    moreover have "length tmp < 8" using "1.prems" True by (simp add: hexa.simps [of "unat v"])
    ultimately show ?thesis using "1.prems"(1) c True
      by (simp add: hex_loop.simps [of v] hex_loop.simps [of 0] hexa.simps [of "unat v"])
  next
    case False
    then have "drop_bit 4 v \<noteq> 0" using d by (simp add: unat_eq_zero [symmetric] div_eq_0_iff)
    moreover have "length tmp < 8" using "1.prems" False by (simp add: hexa.simps [of "unat v"])
    ultimately show ?thesis using "1.IH" "1.prems" c d False
      by (simp add: hex_loop.simps [of v] hexa.simps [of "unat v"])
  qed
qed

text \<open>No digit is the terminating zero.\<close>

lemma digit_nonzero: "k < 10 \<Longrightarrow> (0x30 + of_nat k :: u8) \<noteq> 0"
proof -
  assume "k < 10"
  then have "unat (0x30 + of_nat k :: u8) = 0x30 + k" by (simp add: unat_word_ariths unat_of_nat)
  then show ?thesis by (metis add_is_0 unat_0 zero_neq_numeral)
qed

lemma dec_nonzero: "0 \<notin> set (dec n)"
  by (induction n rule: dec.induct) (use digit_nonzero in \<open>auto simp: dec.simps dest: sym\<close>)

lemma digit_string_nonzero: "k < 16 \<Longrightarrow> digit_string ! k \<noteq> 0"
proof -
  assume "k < 16"
  then have "digit_string ! k \<in> set digit_string" by (intro nth_mem) (simp add: digit_string_def)
  moreover have "0 \<notin> set digit_string" by (simp add: digit_string_def)
  ultimately show ?thesis by metis
qed

lemma hexa_nonzero: "0 \<notin> set (hexa n)"
  by (induction n rule: hexa.induct) (use digit_string_nonzero in \<open>auto simp: hexa.simps dest: sym\<close>)

lemma rev_dec_loop: "v \<noteq> 0 \<Longrightarrow> rev (dec_loop v []) = dec (unat v)"
  using dec_loop_dec [of v "[]"] dec_u32_length [of v] by simp

lemma rev_hex_loop: "rev (if v = 0 then [0x30] else hex_loop v []) = hexa (unat v)"
proof (cases "v = 0")
  case False
  with hex_loop_hexa [of v "[]"] hexa_u32_length [of v] show ?thesis by simp
qed (simp add: hexa.simps [of 0] digit_string_def)

lemma IntToStr_holds:
  assumes h: "holds n p (buf, j)"
  shows "\<exists>b k. IntToStr v buf j (int n - int j) = Some (b, k)
    \<and> holds n (take (n - 1) (p @ dec (unat v))) (b, j + k) \<and> b ! (j + k) = 0"
proof -
  from h have l: "length buf = n" "j < n" "take j buf = p" "length p = j" "0 \<notin> set p" by auto
  let ?q = "take (n - 1) (p @ dec (unat v))"
  have q: "0 \<notin> set ?q" using l(5) dec_nonzero by (auto dest: in_set_takeD)
  have lq: "length ?q < n" "j \<le> length ?q" using l by auto
  show ?thesis
  proof (cases "n - j < 2")
    case True
    then have "?q = p" "int n - int j < 2" "int n - int j > 0" using l by auto
    moreover obtain b where "put buf j 0 = Some b" "length b = n" "take j b = p" "b ! j = 0"
      using put_end [OF l(1-4)] by blast
    ultimately show ?thesis using l by (simp add: IntToStr_def)
  next
    case False
    then have c: "\<not> int n - int j < 2" by linarith
    obtain b where b: "rev_loop buf j 0 (int n - int j) (dec (unat v)) = Some (b, length ?q - j)"
      "length b = n" "take (length ?q) b = ?q"
      using rev_loop_take [of buf n j 0 p "dec (unat v)"] l by auto
    obtain b' where b': "put b (length ?q) 0 = Some b'" "length b' = n" "take (length ?q) b' = ?q" "b' ! length ?q = 0"
      using put_end [OF b(2) lq(1) b(3)] by auto
    have "IntToStr v buf j (int n - int j) = Some (b', length ?q - j)"
    proof (cases "v = 0")
      case True
      then have d: "dec (unat v) = [0x30]" by (simp add: dec.simps [of 0])
      have "int 0 < int n - int j - 1" using False by linarith
      then have "put buf j 0x30 = Some b" using b(1) unfolding d by (cases "put buf j 0x30") auto
      moreover have "length ?q = Suc j" using False l unfolding d by simp
      ultimately show ?thesis using c True b'(1) by (simp add: IntToStr_def)
    next
      case False
      then show ?thesis using c b(1) b'(1) lq(2) by (simp add: IntToStr_def rev_dec_loop)
    qed
    then show ?thesis using b'(2-4) q lq by simp
  qed
qed

definition hex_text :: "u32 \<Rightarrow> u8 list" where
  "hex_text v = [0x30, 0x78] @ hexa (unat v)"

lemma HexToStr_holds:
  assumes h: "holds n p (buf, j)"
  shows "\<exists>b k. HexToStr v buf j (int n - int j) = Some (b, k)
    \<and> holds n (if n - j < 4 then p else take (n - 1) (p @ hex_text v)) (b, j + k) \<and> b ! (j + k) = 0"
proof -
  from h have l: "length buf = n" "j < n" "take j buf = p" "length p = j" "0 \<notin> set p" by auto
  show ?thesis
  proof (cases "n - j < 4")
    case True
    then have "int n - int j < 4" "int n - int j > 0" using l by auto
    moreover obtain b where "put buf j 0 = Some b" "length b = n" "take j b = p" "b ! j = 0"
      using put_end [OF l(1-4)] by blast
    ultimately show ?thesis using l True by (simp add: HexToStr_def)
  next
    case False
    then have c: "\<not> int n - int j < 4" by linarith
    let ?p = "p @ [0x30, 0x78]" and ?q = "take (n - 1) (p @ hex_text v)"
    obtain b0 where b0: "put buf j 0x30 = Some b0" "length b0 = n" "take (Suc j) b0 = p @ [0x30]"
      using put_take [OF l(1-4)] by blast
    have "Suc j < n" "length (p @ [0x30]) = Suc j" using False l by auto
    with put_take [OF b0(2) _ b0(3), where c = "0x78"] obtain b1 where
      b1: "put b0 (Suc j) 0x78 = Some b1" "length b1 = n" "take (Suc (Suc j)) b1 = ?p" by auto
    have e: "?p @ hexa (unat v) = p @ hex_text v" by (simp add: hex_text_def)
    have "take (j + 2) b1 = ?p" "length ?p = j + 2" "j + 2 < n" using b1(3) l False by auto
    from rev_loop_take [OF b1(2) this, of "hexa (unat v)", unfolded e] obtain b where
      b: "rev_loop b1 j 2 (int n - int j) (hexa (unat v)) = Some (b, length ?q - j)"
        "length b = n" "take (length ?q) b = ?q" by blast
    have lq: "length ?q < n" "j \<le> length ?q" using l by auto
    obtain b' where b': "put b (length ?q) 0 = Some b'" "length b' = n" "take (length ?q) b' = ?q" "b' ! length ?q = 0"
      using put_end [OF b(2) lq(1) b(3)] by auto
    have "0 \<notin> set ?q" using l(5) hexa_nonzero by (auto simp: hex_text_def dest!: in_set_takeD)
    moreover have "HexToStr v buf j (int n - int j) = Some (b', length ?q - j)"
      using c b0(1) b1(1) b(1) b'(1) lq(2) by (simp add: HexToStr_def rev_hex_loop)
    ultimately show ?thesis using b'(2-4) lq False by simp
  qed
qed

section \<open>The text of a line\<close>

text \<open>
  What a list of pieces leaves in a buffer of \<open>n\<close> bytes: the pieces one after the other, cut at
  \<open>n - 1\<close> bytes; a hexadecimal number with fewer than four bytes of room is left out.
\<close>

fun piece_text :: "nat \<Rightarrow> u8 list \<Rightarrow> piece \<Rightarrow> u8 list" where
  "piece_text n p (Str s) = take (n - 1) (p @ s)"
| "piece_text n p (Num v) = take (n - 1) (p @ dec (unat v))"
| "piece_text n p (Hex v) = (if n - length p < 4 then p else take (n - 1) (p @ hex_text v))"
| "piece_text n p (Pad k) = p @ replicate (min k 79 - length p) 0x20"
| "piece_text n p (Raw c) = p @ [c]"
| "piece_text n p Back = butlast p"
| "piece_text n p Nul = p"

definition text_of :: "nat \<Rightarrow> piece list \<Rightarrow> u8 list" where
  "text_of n ps = foldl (piece_text n) [] ps"

text \<open>The unchecked writes fit, and no zero byte is written as text.\<close>

fun piece_ok :: "nat \<Rightarrow> u8 list \<Rightarrow> piece \<Rightarrow> bool" where
  "piece_ok n p (Str s) \<longleftrightarrow> 0 \<notin> set s"
| "piece_ok n p (Pad k) \<longleftrightarrow> 79 < n \<or> k < n"
| "piece_ok n p (Raw c) \<longleftrightarrow> c \<noteq> 0 \<and> Suc (length p) < n"
| "piece_ok n p Back \<longleftrightarrow> p \<noteq> []"
| "piece_ok n p _ \<longleftrightarrow> True"

fun pieces_ok :: "nat \<Rightarrow> u8 list \<Rightarrow> piece list \<Rightarrow> bool" where
  "pieces_ok n p [] \<longleftrightarrow> True"
| "pieces_ok n p (x # xs) \<longleftrightarrow> piece_ok n p x \<and> pieces_ok n (piece_text n p x) xs"

fun ends_string :: "piece \<Rightarrow> bool" where
  "ends_string (Pad k) = False"
| "ends_string (Raw c) = False"
| "ends_string Back = False"
| "ends_string _ = True"

lemma pad_loop_holds:
  assumes "holds n p (buf, j)" "79 < n \<or> k < n"
  shows "\<exists>b m. pad_loop k buf j = Some (b, m) \<and> holds n (p @ replicate (min k 79 - length p) 0x20) (b, m)"
  using assms
proof (induction k buf j arbitrary: p rule: pad_loop.induct)
  case (1 k buf j)
  show ?case
  proof (cases "j < k \<and> j < 79")
    case True
    from "1.prems" have l: "length buf = n" "j < n" "take j buf = p" "length p = j" "0 \<notin> set p" by auto
    from put_take [OF l(1-4)] obtain b where
      b: "put buf j 0x20 = Some b" "length b = n" "take (Suc j) b = p @ [0x20]" by blast
    with l True "1.prems"(2) have "holds n (p @ [0x20]) (b, j + 1)" by auto
    from "1.IH" [OF True b(1) this "1.prems"(2)] obtain b' m where
      r: "pad_loop k b (j + 1) = Some (b', m)" "holds n ((p @ [0x20]) @ replicate (min k 79 - length (p @ [0x20])) 0x20) (b', m)"
      by blast
    have "min k 79 - length p = Suc (min k 79 - length (p @ [0x20]))" using True l(4) by auto
    then have "(p @ [0x20]) @ replicate (min k 79 - length (p @ [0x20])) 0x20
        = p @ replicate (min k 79 - length p) (0x20 :: u8)" by (simp only: replicate_Suc append_assoc append.simps)
    with r b(1) True show ?thesis by (subst pad_loop.simps) (simp del: holds.simps)
  next
    case False
    with "1.prems" have "min k 79 - length p = 0" by auto
    with False "1.prems"(1) show ?thesis by (subst pad_loop.simps) auto
  qed
qed

lemma emit_holds:
  assumes h: "holds n p (buf, j)" and ok: "piece_ok n p x"
  shows "\<exists>b m. emit n x (buf, j) = Some (b, m) \<and> holds n (piece_text n p x) (b, m)
    \<and> (ends_string x \<longrightarrow> b ! m = 0)"
proof (cases x)
  case (Str s)
  with ok AppendStr_holds [OF h, of s] show ?thesis by (auto simp del: holds.simps)
next
  case (Num v)
  from IntToStr_holds [OF h, of v] Num show ?thesis by (auto simp del: holds.simps)
next
  case (Hex v)
  have "j = length p" using h by simp
  with HexToStr_holds [OF h, of v] Hex show ?thesis by (auto simp del: holds.simps)
next
  case (Pad k)
  with pad_loop_holds [OF h, of k] ok show ?thesis by (auto simp del: holds.simps)
next
  case (Raw c)
  from h have l: "length buf = n" "j < n" "take j buf = p" "length p = j" "0 \<notin> set p" by auto
  from put_take [OF l(1-4)] obtain b where
    "put buf j c = Some b" "length b = n" "take (Suc j) b = p @ [c]" by blast
  with Raw ok l show ?thesis by auto
next
  case Back
  from h have l: "length buf = n" "j < n" "take j buf = p" "length p = j" "0 \<notin> set p" by auto
  have "take (j - 1) buf = butlast p" using butlast_take [of j buf] l(1-3) by simp
  with Back ok l show ?thesis by (auto dest: in_set_butlastD)
next
  case Nul
  from h have l: "length buf = n" "j < n" "take j buf = p" "length p = j" "0 \<notin> set p" by auto
  from put_end [OF l(1-4)] obtain b where
    "put buf j 0 = Some b" "length b = n" "take j b = p" "b ! j = 0" by blast
  with Nul l show ?thesis by auto
qed

lemma emit_all_holds:
  "holds n p s \<Longrightarrow> pieces_ok n p ps \<Longrightarrow> (ps = [] \<longrightarrow> fst s ! snd s = 0) \<Longrightarrow> (ps \<noteq> [] \<longrightarrow> ends_string (last ps)) \<Longrightarrow>
    \<exists>b m. emit_all n ps s = Some (b, m) \<and> holds n (foldl (piece_text n) p ps) (b, m) \<and> b ! m = 0"
proof (induction ps arbitrary: p s)
  case Nil
  then show ?case by (cases s) auto
next
  case (Cons x ps)
  obtain buf j where s: "s = (buf, j)" by (cases s)
  from emit_holds [of n p buf j x] Cons.prems obtain b m where
    e: "emit n x s = Some (b, m)" "holds n (piece_text n p x) (b, m)" "ends_string x \<longrightarrow> b ! m = 0"
    by (auto simp: s simp del: holds.simps)
  have "ps = [] \<longrightarrow> fst (b, m) ! snd (b, m) = 0" "ps \<noteq> [] \<longrightarrow> ends_string (last ps)"
    using Cons.prems(4) e(3) by (cases "ps = []"; simp)+
  with Cons.IH [OF e(2)] Cons.prems(2) e(1) show ?case by (auto simp del: holds.simps)
qed

theorem line_text:
  assumes "pieces_ok (length stack) [] ps" "ps \<noteq> []" "ends_string (last ps)" "stack \<noteq> []"
  shows "line stack ps = Some (text_of (length stack) ps)"
proof -
  have "holds (length stack) [] (stack, 0)" using assms(4) by simp
  from emit_all_holds [OF this assms(1)] assms(2,3) obtain b m where
    b: "emit_all (length stack) ps (stack, 0) = Some (b, m)"
      "holds (length stack) (text_of (length stack) ps) (b, m)" "b ! m = 0"
    by (auto simp: text_of_def simp del: holds.simps)
  let ?q = "text_of (length stack) ps"
  have q: "take m b = ?q" "m < length b" "0 \<notin> set ?q" "length ?q = m" using b(2) by auto
  have "b = ?q @ 0 # drop (Suc m) b"
    using id_take_nth_drop [OF q(2)] q(1) b(3) by simp
  moreover have "takeWhile (\<lambda>c. c \<noteq> 0) (?q @ 0 # drop (Suc m) b) = ?q" using q(3) by (intro takeWhile_tail [THEN trans] takeWhile_append2 [THEN trans]) auto
  moreover have "0 \<in> set (?q @ 0 # drop (Suc m) b)" by simp
  ultimately have "c_string b = Some ?q" unfolding c_string_def by metis
  with b(1) show ?thesis by (simp add: line_def)
qed

end
