(* ===== verification/Screen.thy ===== *)
theory Screen
  imports PIC Text_Lines
begin

text \<open>
  The text screen: cells of 16 bits at 0xB8000 (vga.class.h, text.mode.class.h), the hardware
  cursor (cursor.class.h) and the two writers of the panic screen (\<open>WriteAt\<close>, \<open>HexAt\<close> of
  panic.class.h).
\<close>

unbundle bit_operations_syntax

section \<open>Colours and cells\<close>

datatype vga_colour = VGA_COLOUR_BLACK | VGA_COLOUR_BLUE | VGA_COLOUR_GREEN | VGA_COLOUR_CYAN
  | VGA_COLOUR_RED | VGA_COLOUR_MAGENTA | VGA_COLOUR_BROWN | VGA_COLOUR_LIGHT_GREY
  | VGA_COLOUR_DARK_GREY | VGA_COLOUR_LIGHT_BLUE | VGA_COLOUR_LIGHT_GREEN | VGA_COLOUR_LIGHT_CYAN
  | VGA_COLOUR_LIGHT_RED | VGA_COLOUR_LIGHT_MAGENTA | VGA_COLOUR_LIGHT_BROWN | VGA_COLOUR_WHITE

fun colour_code :: "vga_colour \<Rightarrow> u8" where
  "colour_code VGA_COLOUR_BLACK = 0" | "colour_code VGA_COLOUR_BLUE = 1"
| "colour_code VGA_COLOUR_GREEN = 2" | "colour_code VGA_COLOUR_CYAN = 3"
| "colour_code VGA_COLOUR_RED = 4" | "colour_code VGA_COLOUR_MAGENTA = 5"
| "colour_code VGA_COLOUR_BROWN = 6" | "colour_code VGA_COLOUR_LIGHT_GREY = 7"
| "colour_code VGA_COLOUR_DARK_GREY = 8" | "colour_code VGA_COLOUR_LIGHT_BLUE = 9"
| "colour_code VGA_COLOUR_LIGHT_GREEN = 10" | "colour_code VGA_COLOUR_LIGHT_CYAN = 11"
| "colour_code VGA_COLOUR_LIGHT_RED = 12" | "colour_code VGA_COLOUR_LIGHT_MAGENTA = 13"
| "colour_code VGA_COLOUR_LIGHT_BROWN = 14" | "colour_code VGA_COLOUR_WHITE = 15"

definition selectColors :: "vga_colour \<Rightarrow> vga_colour \<Rightarrow> u8" where
  "selectColors fg bg = colour_code fg OR push_bit 4 (colour_code bg)"

definition setColor :: "u8 \<Rightarrow> u8 \<Rightarrow> u16" where
  "setColor content color = ucast content OR push_bit 8 (ucast color)"

text \<open>\<open>setColorContent\<close> stores the same cell in a pointer-sized word.\<close>

definition setColorContent :: "u8 \<Rightarrow> u8 \<Rightarrow> u32" where
  "setColorContent content color = ucast (setColor content color)"

lemma setColor_bytes [simp]:
  "ucast (setColor c a) = c" "ucast (drop_bit 8 (setColor c a)) = a"
  by (rule bit_word_eqI; auto simp: setColor_def bit_simps dest: bit_imp_le_length)+

lemma setColorContent_cell [simp]: "(ucast (setColorContent c a) :: u16) = setColor c a"
  by (rule bit_word_eqI) (auto simp: setColorContent_def bit_simps)

section \<open>Video memory\<close>

definition SCREEN_ADDR :: u32 where "SCREEN_ADDR = 0xB8000"

definition store16 :: "mem \<Rightarrow> u32 \<Rightarrow> u16 \<Rightarrow> mem" where
  "store16 m a v = m(a := ucast v, a + 1 := ucast (drop_bit 8 v))"

definition load16 :: "mem \<Rightarrow> u32 \<Rightarrow> u16" where
  "load16 m a = ucast (m a) OR push_bit 8 (ucast (m (a + 1)))"

definition set_cell :: "nat \<Rightarrow> u16 \<Rightarrow> mem \<Rightarrow> mem" where
  "set_cell i v m = store16 m (SCREEN_ADDR + of_nat (2 * i)) v"

definition cell :: "mem \<Rightarrow> nat \<Rightarrow> u16" where
  "cell m i = load16 m (SCREEN_ADDR + of_nat (2 * i))"

lemma load16_store16 [simp]: "load16 (store16 m a v) a = v"
proof -
  have "ucast (ucast v :: u8) OR push_bit 8 (ucast (ucast (drop_bit 8 v) :: u8)) = v"
    by (rule bit_word_eqI) (auto simp: bit_simps)
  then show ?thesis by (simp add: load16_def store16_def)
qed

lemma screen_addr_nat: "SCREEN_ADDR + of_nat k = of_nat (0xB8000 + k)"
  by (simp add: SCREEN_ADDR_def)

lemma set_cell_bytes:
  assumes "x < 2 ^ 32" "i < 2 ^ 30"
  shows "set_cell i v m (of_nat x) = (if x = 0xB8000 + 2 * i then ucast v
     else if x = 0xB8000 + 2 * i + 1 then ucast (drop_bit 8 v) else m (of_nat x))"
proof -
  have "(of_nat x :: u32) = of_nat (0xB8000 + 2 * i) \<longleftrightarrow> x = 0xB8000 + 2 * i"
    "(of_nat x :: u32) = of_nat (0xB8000 + 2 * i + 1) \<longleftrightarrow> x = 0xB8000 + 2 * i + 1"
    using assms by (auto simp: of_nat_u32_eq_iff simp del: of_nat_add)
  moreover have "SCREEN_ADDR + of_nat (2 * i) + 1 = of_nat (0xB8000 + 2 * i + 1)"
    by (simp add: SCREEN_ADDR_def)
  ultimately show ?thesis
    unfolding set_cell_def store16_def screen_addr_nat by (simp del: of_nat_add)
qed

lemma cell_set_cell [simp]:
  assumes "i < 2 ^ 30" "k < 2 ^ 30"
  shows "cell (set_cell i v m) k = (if k = i then v else cell m k)"
proof (cases "k = i")
  case True
  then show ?thesis by (simp add: cell_def set_cell_def)
next
  case False
  have a: "SCREEN_ADDR + of_nat (2 * k) + 1 = of_nat (0xB8000 + 2 * k + 1)" by (simp add: SCREEN_ADDR_def)
  have "set_cell i v m (of_nat x) = m (of_nat x)" if "x = 0xB8000 + 2 * k \<or> x = 0xB8000 + 2 * k + 1" for x
    using that False assms set_cell_bytes [of x i v m] by auto
  then show ?thesis unfolding cell_def load16_def a unfolding screen_addr_nat using False
    by (simp del: of_nat_add)
qed

lemma set_cell_outside:
  "x < 0xB8000 \<or> 0xB8000 + 2 * i + 2 \<le> x \<Longrightarrow> x < 2 ^ 32 \<Longrightarrow> i < 2 ^ 30 \<Longrightarrow>
     set_cell i v m (of_nat x) = m (of_nat x)"
  by (subst set_cell_bytes) auto

section \<open>The cursor\<close>

definition Cursor_enable :: "mach \<Rightarrow> mach" where
  "Cursor_enable M0 =
     (let M = log_line [LStr ''> Enabling Cursor''] M0;
          M1 = outb 0x3D4 0x0A M;
          (a, M2) = inb 0x3D5 M1;
          M3 = outb 0x3D5 ((a AND 0xC0) OR 0) M2;
          M4 = outb 0x3D4 0x0B M3;
          (b, M5) = inb 0x3D5 M4
      in outb 0x3D5 ((b AND 0xE0) OR 15) M5)"

definition Cursor_moveTo :: "u32 \<Rightarrow> u32 \<Rightarrow> mach \<Rightarrow> mach" where
  "Cursor_moveTo x y M =
     (let pos = (ucast (y * 80 + x) :: u16);
          M1 = outb 0x3D4 0x0F M;
          M2 = outb 0x3D5 (ucast (pos AND 0xFF)) M1;
          M3 = outb 0x3D4 0x0E M2
      in outb 0x3D5 (ucast (drop_bit 8 pos AND 0xFF)) M3)"

lemma ram_Cursor_moveTo [simp]: "ram (Cursor_moveTo x y M) = ram M"
  by (simp add: Cursor_moveTo_def Let_def)

lemma ucast_low_byte: "(ucast ((w :: u16) AND 0xFF) :: u8) = ucast w"
proof -
  have "w AND 0xFF = take_bit 8 w" by (simp add: take_bit_eq_mask mask_eq_exp_minus_1)
  then show ?thesis by (simp only:) (rule bit_word_eqI, auto simp: bit_simps)
qed

lemma unat_low_byte: "unat (ucast ((w :: u16) AND 0xFF) :: u8) = unat w mod 256"
  unfolding ucast_low_byte by (simp add: unsigned_ucast_eq take_bit_eq_mod)

lemma unat_high_byte: "unat (ucast (drop_bit 8 (w :: u16) AND 0xFF) :: u8) = unat w div 256"
proof -
  have "unat w < 2 ^ LENGTH(16)" by (rule unsigned_less)
  then have "unat w div 256 < 256" by simp
  then show ?thesis unfolding ucast_low_byte unsigned_ucast_eq drop_bit_eq_div
    by (simp add: unat_div take_bit_eq_mod)
qed

text \<open>The position the controller is left with: high byte from index 0x0E, low byte from 0x0F.\<close>

fun cursor_regs :: "io_event list \<Rightarrow> u8 \<times> u8 \<times> u8 \<Rightarrow> u8 \<times> u8 \<times> u8" where
  "cursor_regs [] s = s"
| "cursor_regs (Out p v # es) (i, lo, hi) = cursor_regs es
     (if p = 0x3D4 then (v, lo, hi)
      else if p = 0x3D5 \<and> i = 0x0F then (i, v, hi)
      else if p = 0x3D5 \<and> i = 0x0E then (i, lo, v) else (i, lo, hi))"
| "cursor_regs (In p v # es) s = cursor_regs es s"

lemma cursor_regs_append: "cursor_regs (xs @ ys) s = cursor_regs ys (cursor_regs xs s)"
  by (induction xs s rule: cursor_regs.induct) auto

lemma cursor_at:
  assumes "y * 80 + x < 2 ^ 16"
  shows "\<exists>i lo hi. cursor_regs (io (Cursor_moveTo (of_nat x) (of_nat y) M)) s = (i, lo, hi)
    \<and> unat hi * 256 + unat lo = y * 80 + x"
proof -
  let ?pos = "ucast (of_nat y * 80 + of_nat x :: u32) :: u16"
  have e: "of_nat y * 80 + of_nat x = (of_nat (y * 80 + x) :: u32)" by simp
  have "unat (of_nat (y * 80 + x) :: u32) = y * 80 + x" using assms by (intro unat_of_nat_u32) simp
  then have "unat ?pos = y * 80 + x"
    using assms unfolding e unsigned_ucast_eq by (simp only:) (simp add: take_bit_eq_mod)
  obtain i lo hi where s: "cursor_regs (io M) s = (i, lo, hi)" by (cases "cursor_regs (io M) s")
  have "cursor_regs (io (Cursor_moveTo (of_nat x) (of_nat y) M)) s
      = (0x0E, ucast (?pos AND 0xFF), ucast (drop_bit 8 ?pos AND 0xFF))"
    by (simp add: Cursor_moveTo_def Let_def cursor_regs_append s)
  moreover have "unat (ucast (drop_bit 8 ?pos AND 0xFF) :: u8) * 256 + unat (ucast (?pos AND 0xFF) :: u8) = y * 80 + x"
    unfolding unat_high_byte unfolding unat_low_byte \<open>unat ?pos = y * 80 + x\<close> by simp
  ultimately show ?thesis by blast
qed

section \<open>Writing text to the screen\<close>

text \<open>\<open>WriteAt\<close> of panic.class.h; \<open>char\<close> is signed, so a byte from 0x80 on would spill into the
  attribute.  \<open>HexAt\<close> writes 10 cells.\<close>

definition sign_cell :: "u8 \<Rightarrow> u8 \<Rightarrow> u16" where
  "sign_cell c attr = scast c OR push_bit 8 (ucast attr)"

fun WriteAt :: "nat \<Rightarrow> u8 list \<Rightarrow> u8 \<Rightarrow> mem \<Rightarrow> mem" where
  "WriteAt off [] attr m = m"
| "WriteAt off (c # s) attr m = WriteAt (Suc off) s attr (set_cell off (sign_cell c attr) m)"

definition HEX_DIGITS :: "u8 list" where
  "HEX_DIGITS = [0x30, 0x31, 0x32, 0x33, 0x34, 0x35, 0x36, 0x37, 0x38, 0x39,
     0x41, 0x42, 0x43, 0x44, 0x45, 0x46]"

definition HexAt :: "nat \<Rightarrow> nat \<Rightarrow> u32 \<Rightarrow> u8 \<Rightarrow> mem \<Rightarrow> mem" where
  "HexAt row col v attr m =
     (let m1 = set_cell (row * 80 + col) (sign_cell 0x30 attr) m;
          m2 = set_cell (row * 80 + col + 1) (sign_cell 0x78 attr) m1
      in fold (\<lambda>i. set_cell (row * 80 + col + 2 + i)
           (sign_cell (HEX_DIGITS ! unat (drop_bit (28 - i * 4) v AND 0xF)) attr)) [0..<8] m2)"

lemma sign_cell_ascii: "c < 0x80 \<Longrightarrow> sign_cell c attr = setColor c attr"
proof -
  assume "c < 0x80"
  then have "\<not> bit c 7" by (simp add: bit_iff_odd_drop_bit word_less_nat_alt drop_bit_eq_div odd_iff_mod_2_eq_one
      word_arith_nat_div)
  have "n < 7" if "bit c n" for n
  proof -
    have "n < 8" using bit_imp_le_length [OF that] by simp
    moreover have "n \<noteq> 7" using that \<open>\<not> bit c 7\<close> by auto
    ultimately show ?thesis by linarith
  qed
  with \<open>\<not> bit c 7\<close> show ?thesis
    by (intro bit_word_eqI) (fastforce simp: sign_cell_def setColor_def bit_simps min_def split: if_splits dest: bit_imp_le_length)
qed

end
