(* ===== verification/Panic.thy ===== *)
theory Panic
  imports Screen
begin

text \<open>
  The frame an interrupt stub builds and takes down (src/src/src/boot/asm/isr.asm,
  libs/registers.h) and \<open>System::Panic\<close> (panic.class.h), which paints it on the screen.  What
  the processor itself pushes, and for which vectors it pushes an error code, is the
  documented behaviour of the i386.
\<close>

section \<open>The register frame\<close>

record registers =
  r_ds :: u32
  r_edi :: u32
  r_esi :: u32
  r_ebp :: u32
  r_esp :: u32
  r_ebx :: u32
  r_edx :: u32
  r_ecx :: u32
  r_eax :: u32
  int_no :: u32
  err_code :: u32
  r_eip :: u32
  r_cs :: u32
  r_eflags :: u32
  useresp :: u32
  r_ss :: u32

text \<open>The state of the interrupted code; \<open>c_stack\<close> is its stack from the stack pointer upwards.\<close>

record icontext =
  c_eax :: u32
  c_ecx :: u32
  c_edx :: u32
  c_ebx :: u32
  c_ebp :: u32
  c_esi :: u32
  c_edi :: u32
  c_ds :: u16
  c_eip :: u32
  c_cs :: u32
  c_eflags :: u32
  c_stack :: "u32 list"

text \<open>The processor pushes an error code for these vectors only.\<close>

definition has_error_code :: "nat \<Rightarrow> bool" where
  "has_error_code vec \<longleftrightarrow> vec \<in> {8, 10, 11, 12, 13, 14, 17}"

definition cpu_entry :: "nat \<Rightarrow> u32 \<Rightarrow> icontext \<Rightarrow> u32 list" where
  "cpu_entry vec err c =
     (if has_error_code vec then [err] else []) @ [c_eip c, c_cs c, c_eflags c] @ c_stack c"

text \<open>
  The stub of every vector is \<open>ISR_NOERRCODE\<close>: it pushes a zero and the vector, then \<open>pusha\<close>
  (with the stack pointer \<open>sp\<close> from before it) and the data segment, for which only the low half of
  \<open>eax\<close> is replaced.
\<close>

definition ISR_NOERRCODE :: "nat \<Rightarrow> u32 list \<Rightarrow> u32 list" where
  "ISR_NOERRCODE vec stack = of_nat vec # 0 # stack"

definition isr_common_entry :: "u32 \<Rightarrow> icontext \<Rightarrow> u32 list \<Rightarrow> u32 list" where
  "isr_common_entry sp c stack =
     ((c_eax c AND 0xFFFF0000) OR ucast (c_ds c)) #
     [c_edi c, c_esi c, c_ebp c, sp, c_ebx c, c_edx c, c_ecx c, c_eax c] @ stack"

text \<open>The parameter of \<open>isr_handler\<close> is this part of the stack, read as a struct.\<close>

definition read_registers :: "u32 list \<Rightarrow> registers" where
  "read_registers s = \<lparr>r_ds = s ! 0, r_edi = s ! 1, r_esi = s ! 2, r_ebp = s ! 3, r_esp = s ! 4,
     r_ebx = s ! 5, r_edx = s ! 6, r_ecx = s ! 7, r_eax = s ! 8, int_no = s ! 9, err_code = s ! 10,
     r_eip = s ! 11, r_cs = s ! 12, r_eflags = s ! 13, useresp = s ! 14, r_ss = s ! 15\<rparr>"

definition isr_registers :: "nat \<Rightarrow> u32 \<Rightarrow> u32 \<Rightarrow> icontext \<Rightarrow> registers" where
  "isr_registers vec err sp c =
     read_registers (isr_common_entry sp c (ISR_NOERRCODE vec (cpu_entry vec err c)))"

text \<open>Back from the handler: the segment, \<open>popa\<close> (which skips the stack pointer), 8 bytes dropped, \<open>iret\<close>.\<close>

fun isr_common_exit :: "u32 list \<Rightarrow> icontext option" where
  "isr_common_exit (ds # edi # esi # ebp # sp # ebx # edx # ecx # eax # vec # err # ip # cs # fl # stack) =
     Some \<lparr>c_eax = eax, c_ecx = ecx, c_edx = edx, c_ebx = ebx, c_ebp = ebp, c_esi = esi, c_edi = edi,
           c_ds = ucast ds, c_eip = ip, c_cs = cs, c_eflags = fl, c_stack = stack\<rparr>"
| "isr_common_exit _ = None"

section \<open>The panic screen\<close>

definition exception_names :: "string list" where
  "exception_names = [''Division by Zero'', ''Debug'', ''Non-Maskable Interrupt'', ''Breakpoint'',
     ''Overflow'', ''Bound Range Exceeded'', ''Invalid Opcode'', ''Device Not Available'',
     ''Double Fault'', ''Coprocessor Segment Overrun'', ''Invalid TSS'', ''Segment Not Present'',
     ''Stack-Segment Fault'', ''General Protection Fault'', ''Page Fault'', ''Reserved'',
     ''x87 Floating-Point Exception'', ''Alignment Check'', ''Machine Check'',
     ''SIMD Floating-Point Exception'', ''Virtualization Exception'', ''Control Protection Exception'']"

definition ExceptionName :: "u32 \<Rightarrow> string" where
  "ExceptionName n = (if unat n < 22 then exception_names ! unat n else ''Reserved Exception'')"

definition panic_attr :: u8 where "panic_attr = 0x4F"

definition panic_text :: "nat \<Rightarrow> string \<Rightarrow> mem \<Rightarrow> mem" where
  "panic_text off s = WriteAt off (str s) panic_attr"

definition panic_hex :: "nat \<Rightarrow> nat \<Rightarrow> u32 \<Rightarrow> mem \<Rightarrow> mem" where
  "panic_hex row col v = HexAt row col v panic_attr"

definition panic_log :: "registers \<Rightarrow> u32 \<Rightarrow> mach \<Rightarrow> mach" where
  "panic_log R cr =
     log_line [LStr ''===================================================='']
     \<circ> log_line [LStr ''esi='', LInt (r_esi R), LStr '' edi='', LInt (r_edi R), LStr '' ebp='', LInt (r_ebp R),
         LStr '' esp='', LInt (r_esp R)]
     \<circ> log_line [LStr ''eax='', LInt (r_eax R), LStr '' ebx='', LInt (r_ebx R), LStr '' ecx='', LInt (r_ecx R),
         LStr '' edx='', LInt (r_edx R)]
     \<circ> log_line [LStr ''eip='', LInt (r_eip R), LStr '' cs='', LInt (r_cs R), LStr '' eflags='', LInt (r_eflags R)]
     \<circ> log_line [LStr ''err_code='', LInt (err_code R), LStr '' cr2='', LInt cr]
     \<circ> log_line [LStr ''Exception '', LInt (int_no R), LStr '': '', LStr (ExceptionName (int_no R))]
     \<circ> log_line [LStr ''=================== KERNEL PANIC ==================='']"

definition panic_clear :: "mem \<Rightarrow> mem" where
  "panic_clear = fold (\<lambda>i. set_cell i (setColor 0x20 panic_attr)) [0..<80 * 25]"

text \<open>The title line; \<open>num\<close> is what \<open>int2char\<close> returned for the vector.\<close>

definition panic_title :: "u8 list \<Rightarrow> registers \<Rightarrow> mem \<Rightarrow> mem" where
  "panic_title num R m =
     (let m1 = panic_text 28 ''*** KERNEL PANIC ***'' m;
          off = 160; m2 = panic_text off ''  Exception #'' m1;
          off = off + 13; m3 = WriteAt off num panic_attr m2;
          off = off + length num; m4 = panic_text off '': '' m3
      in panic_text (off + 2) (ExceptionName (int_no R)) m4)"

definition panic_registers :: "registers \<Rightarrow> u32 \<Rightarrow> mem \<Rightarrow> mem" where
  "panic_registers R cr m = fold (\<lambda>f. f)
     [panic_text 322 ''EAX='', panic_hex 4 6 (r_eax R), panic_text 342 ''EBX='', panic_hex 4 26 (r_ebx R),
      panic_text 362 ''ECX='', panic_hex 4 46 (r_ecx R), panic_text 382 ''EDX='', panic_hex 4 66 (r_edx R),
      panic_text 402 ''ESI='', panic_hex 5 6 (r_esi R), panic_text 422 ''EDI='', panic_hex 5 26 (r_edi R),
      panic_text 442 ''EBP='', panic_hex 5 46 (r_ebp R), panic_text 462 ''ESP='', panic_hex 5 66 (r_esp R),
      panic_text 562 ''EIP='', panic_hex 7 6 (r_eip R), panic_text 582 ''EFLAGS='', panic_hex 7 29 (r_eflags R),
      panic_text 605 ''ERR='', panic_hex 7 49 (err_code R),
      panic_text 722 ''CR2 (faulting linear addr)= '', panic_hex 9 30 cr] m"

definition panic_cause :: "registers \<Rightarrow> mem \<Rightarrow> mem" where
  "panic_cause R m =
     (if int_no R = 14 then
        let e = err_code R;
            p = (if e AND 1 \<noteq> 0 then ''protection-fault'' else ''page-not-present'');
            rw = (if e AND 2 \<noteq> 0 then ''write'' else ''read'');
            us = (if e AND 4 \<noteq> 0 then ''user-mode'' else ''kernel-mode'');
            m1 = panic_text 802 ''Cause: '' m;
            off = 809; m2 = panic_text off p m1;
            off = off + length p; m3 = panic_text off '' on '' m2;
            off = off + 4; m4 = panic_text off rw m3;
            off = off + length rw; m5 = panic_text off '' in '' m4
        in panic_text (off + 4) us m5
      else m)"

definition panic_stack_line :: "registers \<Rightarrow> nat \<Rightarrow> mem \<Rightarrow> mem" where
  "panic_stack_line R i m =
     (let m1 = panic_text (80 * (13 + i) + 4) ''[esp+'' m;
          m2 = panic_hex (13 + i) 9 (of_nat (i * 4)) m1;
          m3 = panic_text (80 * (13 + i) + 19) ''] = '' m2
      in panic_hex (13 + i) 23 (load32 m3 (r_esp R + of_nat (4 * i))) m3)"

definition panic_stack :: "registers \<Rightarrow> mem \<Rightarrow> mem" where
  "panic_stack R m = fold (panic_stack_line R) [0..<8] (panic_text 962 ''Top of stack:'' m)"

text \<open>
  The machine it halts in for ever.  \<open>ibuf\<close> is the static buffer of \<open>int2char\<close>; the vector is
  below 32 here, so \<open>int2char\<close> has a result.
\<close>

definition Panic_Trigger :: "u8 list \<Rightarrow> registers \<Rightarrow> mach \<Rightarrow> mach option" where
  "Panic_Trigger ibuf R M0 =
     (let M1 = panic_log R (cr2 M0) (M0\<lparr>if_flag := False\<rparr>)
      in map_option (\<lambda>(num, _).
           M1\<lparr>ram := panic_text 1842 ''System halted. Reboot to recover.''
             (panic_stack R (panic_cause R (panic_registers R (cr2 M0)
               (panic_title num R (panic_clear (ram M1))))))\<rparr>)
         (int2char (int_no R) ibuf))"

end
