(* ===== verification/Keyboard.thy ===== *)
theory Keyboard
  imports PIC Text_Lines
begin

text \<open>
  \<open>System::Drivers::Keyboard\<close> (src/src/src/classes/keyboard.class.h): the scancode decoder and the
  line buffer of 50 bytes it fills.  The controller's answers on ports 0x64 and 0x60 are the
  machine's \<open>dev\<close>.  A write outside the buffer, and reading a string on past its end, is
  \<open>None\<close>.  In \<open>BufferAdd\<close> the comparison of \<open>command\<close> with the literal compares addresses
  of two different arrays, so it always says that they differ.
\<close>

section \<open>State\<close>

record keyboard =
  kb_buffer :: "u8 list"
  was_updated :: bool
  function_key :: u16
  shift_pressed :: bool
  ctrl_pressed :: bool
  alt_pressed :: bool
  caps_lock :: bool
  extended_prefix :: bool

definition keyboard0 :: keyboard where
  "keyboard0 = \<lparr>kb_buffer = replicate 50 0, was_updated = False, function_key = 0, shift_pressed = False,
     ctrl_pressed = False, alt_pressed = False, caps_lock = False, extended_prefix = False\<rparr>"

section \<open>Scancodes\<close>

text \<open>The two \<open>switch\<close> statements, as (scancode, character) pairs.\<close>

definition unshifted_table :: "(u8 \<times> u8) list" where
  "unshifted_table =
    [(0x01, 0x1B), (0x02, 0x31), (0x03, 0x32), (0x04, 0x33), (0x05, 0x34), (0x06, 0x35), (0x07,
     0x36), (0x08, 0x37), (0x09, 0x38), (0x0A, 0x39), (0x0B, 0x30), (0x0C, 0x2D), (0x0D, 0x3D),
     (0x0E, 0x08), (0x0F, 0x09), (0x10, 0x71), (0x11, 0x77), (0x12, 0x65), (0x13, 0x72), (0x14,
     0x74), (0x15, 0x79), (0x16, 0x75), (0x17, 0x69), (0x18, 0x6F), (0x19, 0x70), (0x1A, 0x5B),
     (0x1B, 0x5D), (0x1C, 0x0A), (0x1E, 0x61), (0x1F, 0x73), (0x20, 0x64), (0x21, 0x66), (0x22,
     0x67), (0x23, 0x68), (0x24, 0x6A), (0x25, 0x6B), (0x26, 0x6C), (0x27, 0x3B), (0x28, 0x27),
     (0x29, 0x60), (0x2B, 0x5C), (0x2C, 0x7A), (0x2D, 0x78), (0x2E, 0x63), (0x2F, 0x76), (0x30,
     0x62), (0x31, 0x6E), (0x32, 0x6D), (0x33, 0x2C), (0x34, 0x2E), (0x35, 0x2F), (0x37, 0x2A),
     (0x39, 0x20)]"

definition shifted_table :: "(u8 \<times> u8) list" where
  "shifted_table =
    [(0x01, 0x1B), (0x02, 0x21), (0x03, 0x40), (0x04, 0x23), (0x05, 0x24), (0x06, 0x25), (0x07,
     0x5E), (0x08, 0x26), (0x09, 0x2A), (0x0A, 0x28), (0x0B, 0x29), (0x0C, 0x5F), (0x0D, 0x2B),
     (0x0E, 0x08), (0x0F, 0x09), (0x10, 0x51), (0x11, 0x57), (0x12, 0x45), (0x13, 0x52), (0x14,
     0x54), (0x15, 0x59), (0x16, 0x55), (0x17, 0x49), (0x18, 0x4F), (0x19, 0x50), (0x1A, 0x7B),
     (0x1B, 0x7D), (0x1C, 0x0A), (0x1E, 0x41), (0x1F, 0x53), (0x20, 0x44), (0x21, 0x46), (0x22,
     0x47), (0x23, 0x48), (0x24, 0x4A), (0x25, 0x4B), (0x26, 0x4C), (0x27, 0x3A), (0x28, 0x22),
     (0x29, 0x7E), (0x2B, 0x7C), (0x2C, 0x5A), (0x2D, 0x58), (0x2E, 0x43), (0x2F, 0x56), (0x30,
     0x42), (0x31, 0x4E), (0x32, 0x4D), (0x33, 0x3C), (0x34, 0x3E), (0x35, 0x3F), (0x37, 0x2A),
     (0x39, 0x20)]"

definition Unshifted :: "u8 \<Rightarrow> u8" where
  "Unshifted code = (case map_of unshifted_table code of Some c \<Rightarrow> c | None \<Rightarrow> 0)"

definition Shifted :: "u8 \<Rightarrow> u8" where
  "Shifted code = (case map_of shifted_table code of Some c \<Rightarrow> c | None \<Rightarrow> 0)"

definition Key2ASCII :: "u8 \<Rightarrow> u8" where
  "Key2ASCII key = Unshifted key"

section \<open>The line buffer\<close>

definition UpdateNotification :: "bool \<Rightarrow> keyboard \<Rightarrow> keyboard" where
  "UpdateNotification flag K = K\<lparr>was_updated := flag\<rparr>"

definition WasUpdated :: "keyboard \<Rightarrow> bool \<times> keyboard" where
  "WasUpdated K =
     (let wupd = was_updated K in (wupd, if wupd then UpdateNotification False K else K))"

definition GetBufferSize :: "keyboard \<Rightarrow> nat option" where
  "GetBufferSize K = map_option length (c_string (kb_buffer K))"

definition SetFunctionKey :: "u16 \<Rightarrow> keyboard \<Rightarrow> keyboard" where
  "SetFunctionKey key K = K\<lparr>function_key := key\<rparr>"

definition GetFunctionKey :: "keyboard \<Rightarrow> u16 \<times> keyboard" where
  "GetFunctionKey K = (function_key K, K\<lparr>function_key := 0\<rparr>)"

definition BufferRemoveOne :: "keyboard \<Rightarrow> keyboard option" where
  "BufferRemoveOne K = do {
     n \<leftarrow> GetBufferSize K;
     b \<leftarrow> (if n > 0 then put (kb_buffer K) (n - 1) 0 else Some (kb_buffer K));
     Some (UpdateNotification True (K\<lparr>kb_buffer := b\<rparr>)) }"

text \<open>\<open>strcpy\<close> into the buffer of a string of bytes: the bytes and the terminating zero.\<close>

definition strcpy_into :: "u8 list \<Rightarrow> u8 list \<Rightarrow> u8 list option" where
  "strcpy_into buf s =
     (if length s < length buf then Some (s @ [0] @ drop (Suc (length s)) buf) else None)"

definition BufferAdd :: "u8 list \<Rightarrow> keyboard \<Rightarrow> keyboard option" where
  "BufferAdd command K = do {
     string \<leftarrow> c_string (kb_buffer K);
     (if length string \<ge> 50 then Some K
      else do {
        b \<leftarrow> strcpy_into (kb_buffer K) (if length string > 0 then C_concat string command else command);
        Some (UpdateNotification True (K\<lparr>kb_buffer := b\<rparr>)) }) }"

definition BufferReset :: "keyboard \<Rightarrow> keyboard option" where
  "BufferReset K = do {
     b \<leftarrow> put (kb_buffer K) 0 0;
     Some (UpdateNotification True (K\<lparr>kb_buffer := b\<rparr>)) }"

section \<open>The interrupt handler\<close>

definition Keyboard_Start :: "mach \<Rightarrow> mach" where
  "Keyboard_Start M = PIC_Unmask 1 (log_line [LStr ''> Enabling Keyboard (IRQ1 -> INT 0x21)''] M)"

text \<open>The character of a press: shift chooses the table, caps lock inverts the case of letters.\<close>

definition key_char :: "u8 \<Rightarrow> keyboard \<Rightarrow> u8" where
  "key_char code K =
     (let c = (if shift_pressed K then Shifted code else Unshifted code)
      in if c = 0 then 0
         else if caps_lock K \<and> 0x61 \<le> c \<and> c \<le> 0x7A then c - 32
         else if caps_lock K \<and> 0x41 \<le> c \<and> c \<le> 0x5A then c + 32
         else c)"

text \<open>What one scancode does, the part of the handler behind the two port reads.\<close>

definition scancode :: "u8 \<Rightarrow> keyboard \<Rightarrow> keyboard option" where
  "scancode sc K =
     (if sc = 0xE0 then Some (K\<lparr>extended_prefix := True\<rparr>)
      else let released = (sc AND 0x80 \<noteq> 0); code = sc AND 0x7F
      in if extended_prefix K then Some (K\<lparr>extended_prefix := False\<rparr>)
      else if code = 0x2A \<or> code = 0x36 then Some (K\<lparr>shift_pressed := \<not> released\<rparr>)
      else if code = 0x1D then Some (K\<lparr>ctrl_pressed := \<not> released\<rparr>)
      else if code = 0x38 then Some (K\<lparr>alt_pressed := \<not> released\<rparr>)
      else if code = 0x3A then Some (if released then K else K\<lparr>caps_lock := \<not> caps_lock K\<rparr>)
      else if released then Some K
      else if 0x3B \<le> code \<and> code \<le> 0x3F then Some (SetFunctionKey (ucast (code - 0x3A)) K)
      else let c = key_char code K
      in if c = 0 then Some K
      else if c = 0x08 then do {
        n \<leftarrow> GetBufferSize K;
        if n > 0 then BufferRemoveOne K else Some K }
      else if c = 0x0A then do {
        n \<leftarrow> GetBufferSize K;
        if n = 0 then Some K else BufferAdd [0x0A] K }
      else BufferAdd [c] K)"

definition Keyboard_Handler :: "mach \<times> keyboard \<Rightarrow> (mach \<times> keyboard) option" where
  "Keyboard_Handler = (\<lambda>(M, K).
     let (status, M1) = inb 0x64 M
     in if status AND 1 = 0 then Some (M1, K)
        else let (sc, M2) = inb 0x60 M1
             in map_option (\<lambda>K'. (M2, K')) (scancode sc K))"

section \<open>The buffer as a text\<close>

definition kb_text :: "keyboard \<Rightarrow> u8 list" where
  "kb_text K = takeWhile (\<lambda>c. c \<noteq> 0) (kb_buffer K)"

definition kb_ok :: "keyboard \<Rightarrow> bool" where
  "kb_ok K \<longleftrightarrow> length (kb_buffer K) = 50 \<and> 0 \<in> set (kb_buffer K)"

lemma takeWhile_neq_length: "x \<in> set xs \<Longrightarrow> length (takeWhile (\<lambda>c. c \<noteq> x) xs) < length xs"
  by (induction xs) auto

lemma kb_text_length: "kb_ok K \<Longrightarrow> length (kb_text K) < 50"
  using takeWhile_neq_length [of 0 "kb_buffer K"] by (simp add: kb_ok_def kb_text_def)

lemma kb_string: "kb_ok K \<Longrightarrow> c_string (kb_buffer K) = Some (kb_text K)"
  by (simp add: kb_ok_def c_string_def kb_text_def)

lemma kb_text_nonzero: "0 \<notin> set (kb_text K)"
  by (auto simp: kb_text_def dest: set_takeWhileD)

lemma kb_upd [simp]:
  "kb_text (K\<lparr>was_updated := u\<rparr>) = kb_text K" "kb_ok (K\<lparr>was_updated := u\<rparr>) = kb_ok K"
  "kb_text (K\<lparr>shift_pressed := b\<rparr>) = kb_text K" "kb_ok (K\<lparr>shift_pressed := b\<rparr>) = kb_ok K"
  "kb_text (K\<lparr>ctrl_pressed := b\<rparr>) = kb_text K" "kb_ok (K\<lparr>ctrl_pressed := b\<rparr>) = kb_ok K"
  "kb_text (K\<lparr>alt_pressed := b\<rparr>) = kb_text K" "kb_ok (K\<lparr>alt_pressed := b\<rparr>) = kb_ok K"
  "kb_text (K\<lparr>caps_lock := b\<rparr>) = kb_text K" "kb_ok (K\<lparr>caps_lock := b\<rparr>) = kb_ok K"
  "kb_text (K\<lparr>extended_prefix := b\<rparr>) = kb_text K" "kb_ok (K\<lparr>extended_prefix := b\<rparr>) = kb_ok K"
  "kb_text (K\<lparr>function_key := f\<rparr>) = kb_text K" "kb_ok (K\<lparr>function_key := f\<rparr>) = kb_ok K"
  by (simp_all add: kb_text_def kb_ok_def)

lemma takeWhile_nonzero_append [simp]:
  "0 \<notin> set s \<Longrightarrow> takeWhile (\<lambda>c. c \<noteq> (0 :: u8)) (s @ 0 # r) = s"
  by (induction s) auto

lemma BufferAdd_text:
  assumes ok: "kb_ok K" and c: "c \<noteq> 0"
  shows "BufferAdd [c] K = (if length (kb_text K) < 49
    then Some (K\<lparr>kb_buffer := kb_text K @ [c, 0] @ drop (length (kb_text K) + 2) (kb_buffer K), was_updated := True\<rparr>)
    else None)"
proof -
  have l: "length (kb_text K) < 50" using kb_text_length [OF ok] .
  have "C_concat (kb_text K) [c] = kb_text K @ [c]" using l by (simp add: C_concat_take)
  with ok l show ?thesis
    by (auto simp: BufferAdd_def kb_string [OF ok] strcpy_into_def kb_ok_def UpdateNotification_def)
qed

lemma BufferAdd_ok:
  assumes "kb_ok K" "c \<noteq> 0" "BufferAdd [c] K = Some K'"
  shows "kb_ok K' \<and> kb_text K' = kb_text K @ [c] \<and> was_updated K'"
proof -
  have l: "length (kb_text K) < 49" and K': "K' = K\<lparr>kb_buffer := (kb_text K @ [c]) @ 0 #
      drop (length (kb_text K) + 2) (kb_buffer K), was_updated := True\<rparr>"
    using assms by (simp_all add: BufferAdd_text split: if_splits)
  have "0 \<notin> set (kb_text K @ [c])" using assms(2) kb_text_nonzero by auto
  from takeWhile_nonzero_append [OF this] have "kb_text K' = kb_text K @ [c]"
    by (simp add: K' kb_text_def del: append_assoc)
  moreover have "kb_ok K'" using assms(1) l by (simp add: K' kb_ok_def)
  ultimately show ?thesis by (simp add: K')
qed

lemma BufferRemoveOne_ok:
  assumes ok: "kb_ok K"
  shows "\<exists>K'. BufferRemoveOne K = Some K' \<and> kb_ok K' \<and> kb_text K' = butlast (kb_text K) \<and> was_updated K'"
proof (cases "kb_text K = []")
  case True
  with ok show ?thesis
    by (simp add: BufferRemoveOne_def GetBufferSize_def kb_string UpdateNotification_def)
next
  case False
  let ?n = "length (kb_text K)"
  have l: "?n < 50" "length (kb_buffer K) = 50" using kb_text_length [OF ok] ok by (auto simp: kb_ok_def)
  define b where "b = (kb_buffer K)[?n - 1 := 0]"
  have p: "put (kb_buffer K) (?n - 1) 0 = Some b" using l False by (simp add: put_def b_def)
  have t: "take ?n (kb_buffer K) = kb_text K"
    unfolding kb_text_def by (metis takeWhile_eq_take)
  have "b = take (?n - 1) (kb_buffer K) @ 0 # drop ?n (kb_buffer K)"
    using l False unfolding b_def by (simp add: upd_conv_take_nth_drop)
  moreover have "take (?n - 1) (kb_buffer K) = butlast (kb_text K)"
    using butlast_take [of ?n "kb_buffer K"] l t by simp
  ultimately have b: "b = butlast (kb_text K) @ 0 # drop ?n (kb_buffer K)" by simp
  have "0 \<notin> set (butlast (kb_text K))" using kb_text_nonzero by (blast dest: in_set_butlastD)
  then have "takeWhile (\<lambda>c. c \<noteq> 0) b = butlast (kb_text K)" unfolding b by simp
  moreover have "length b = 50" using l by (simp add: b_def)
  moreover have "0 \<in> set b" by (simp add: b)
  ultimately show ?thesis using False p
    by (simp add: BufferRemoveOne_def GetBufferSize_def kb_string [OF ok] UpdateNotification_def)
      (simp add: kb_ok_def kb_text_def)
qed

section \<open>What a scancode does to the text\<close>

text \<open>A press that appends a character, and one that removes one.\<close>

definition press :: "u8 \<Rightarrow> keyboard \<Rightarrow> bool" where
  "press sc K \<longleftrightarrow> sc \<noteq> 0xE0 \<and> \<not> extended_prefix K \<and> sc AND 0x80 = 0
     \<and> sc AND 0x7F \<notin> {0x2A, 0x36, 0x1D, 0x38, 0x3A} \<and> \<not> (0x3B \<le> sc AND 0x7F \<and> sc AND 0x7F \<le> 0x3F)"

definition appends :: "u8 \<Rightarrow> keyboard \<Rightarrow> bool" where
  "appends sc K \<longleftrightarrow> press sc K \<and> key_char (sc AND 0x7F) K \<notin> {0, 0x08}
     \<and> (key_char (sc AND 0x7F) K = 0x0A \<longrightarrow> kb_text K \<noteq> [])"

definition removes :: "u8 \<Rightarrow> keyboard \<Rightarrow> bool" where
  "removes sc K \<longleftrightarrow> press sc K \<and> key_char (sc AND 0x7F) K = 0x08"

lemma scancode_other:
  "\<not> press sc K \<Longrightarrow> \<exists>K'. scancode sc K = Some K' \<and> kb_buffer K' = kb_buffer K"
  by (auto simp: scancode_def press_def Let_def SetFunctionKey_def)

lemma scancode_press:
  "press sc K \<Longrightarrow> scancode sc K =
     (let c = key_char (sc AND 0x7F) K
      in if c = 0 then Some K
      else if c = 0x08 then do {
        n \<leftarrow> GetBufferSize K;
        if n > 0 then BufferRemoveOne K else Some K }
      else if c = 0x0A then do {
        n \<leftarrow> GetBufferSize K;
        if n = 0 then Some K else BufferAdd [0x0A] K }
      else BufferAdd [c] K)"
  by (auto simp: press_def scancode_def Let_def)

lemma same_buffer: "kb_buffer K' = kb_buffer K \<Longrightarrow> kb_text K' = kb_text K \<and> kb_ok K' = kb_ok K"
  by (simp add: kb_text_def kb_ok_def)

lemma scancode_text:
  assumes ok: "kb_ok K"
  shows "scancode sc K = None \<longleftrightarrow> appends sc K \<and> length (kb_text K) = 49"
    "scancode sc K = Some K' \<Longrightarrow> kb_ok K' \<and>
       kb_text K' = (if appends sc K then kb_text K @ [key_char (sc AND 0x7F) K]
                     else if removes sc K then butlast (kb_text K) else kb_text K)"
proof -
  let ?c = "key_char (sc AND 0x7F) K"
  have size: "GetBufferSize K = Some (length (kb_text K))"
    by (simp add: GetBufferSize_def kb_string [OF ok])
  have l: "length (kb_text K) < 50" by (rule kb_text_length [OF ok])
  consider (no) "\<not> press sc K" | (zero) "press sc K" "?c = 0" | (bksp) "press sc K" "?c = 0x08"
    | (enter) "press sc K" "?c = 0x0A" "kb_text K = []" | (add) "appends sc K" "press sc K" "?c \<notin> {0, 0x08}"
    by (auto simp: appends_def)
  then have "(scancode sc K = None \<longleftrightarrow> appends sc K \<and> length (kb_text K) = 49)
    \<and> (\<forall>K'. scancode sc K = Some K' \<longrightarrow> kb_ok K' \<and>
       kb_text K' = (if appends sc K then kb_text K @ [?c] else if removes sc K then butlast (kb_text K) else kb_text K))"
  proof cases
    case no
    obtain K1 where "scancode sc K = Some K1" "kb_buffer K1 = kb_buffer K" using scancode_other [OF no] by blast
    with same_buffer [of K1 K] no ok show ?thesis by (simp add: appends_def removes_def)
  next
    case zero
    with ok show ?thesis by (auto simp: scancode_press appends_def removes_def)
  next
    case bksp
    from BufferRemoveOne_ok [OF ok] obtain K1 where
      "BufferRemoveOne K = Some K1" "kb_ok K1" "kb_text K1 = butlast (kb_text K)" by blast
    with bksp size ok show ?thesis by (auto simp: scancode_press appends_def removes_def Let_def)
  next
    case enter
    with size ok show ?thesis by (auto simp: scancode_press appends_def removes_def Let_def)
  next
    case add
    then have s: "scancode sc K = BufferAdd [?c] K" "?c \<noteq> 0"
      using size by (auto simp: scancode_press appends_def Let_def)
    from BufferAdd_text [OF ok s(2)] l have "scancode sc K = None \<longleftrightarrow> length (kb_text K) = 49"
      by (auto simp: s(1))
    moreover have "kb_ok K' \<and> kb_text K' = kb_text K @ [?c]" if "scancode sc K = Some K'" for K'
      using BufferAdd_ok [OF ok s(2)] that s(1) by simp
    ultimately show ?thesis using add(1) by simp
  qed
  then show "scancode sc K = None \<longleftrightarrow> appends sc K \<and> length (kb_text K) = 49"
    "scancode sc K = Some K' \<Longrightarrow> kb_ok K' \<and>
       kb_text K' = (if appends sc K then kb_text K @ [key_char (sc AND 0x7F) K]
                     else if removes sc K then butlast (kb_text K) else kb_text K)" by blast+
qed

section \<open>The two tables\<close>

definition lower :: "u8 \<Rightarrow> bool" where "lower c \<longleftrightarrow> 0x61 \<le> c \<and> c \<le> 0x7A"
definition upper :: "u8 \<Rightarrow> bool" where "upper c \<longleftrightarrow> 0x41 \<le> c \<and> c \<le> 0x5A"

lemma list_all2_map_of:
  "list_all2 (\<lambda>(k, u) (k', s). k = k' \<and> R u s) xs ys \<Longrightarrow> rel_option R (map_of xs x) (map_of ys x)"
  by (induction rule: list_all2_induct) auto

lemma table_pairs:
  "list_all2 (\<lambda>(k, u) (k', s). k = k' \<and>
     (if lower u then s = u - 32 \<and> upper s else \<not> upper u \<and> \<not> lower s \<and> \<not> upper s) \<and> u \<noteq> 0 \<and> s \<noteq> 0)
   unshifted_table shifted_table"
  by (simp add: unshifted_table_def shifted_table_def lower_def upper_def)

lemma shifted_letters:
  "lower (Unshifted code) \<Longrightarrow> Shifted code = Unshifted code - 32 \<and> upper (Shifted code)"
  "\<not> lower (Unshifted code) \<Longrightarrow> \<not> upper (Unshifted code) \<and> \<not> lower (Shifted code) \<and> \<not> upper (Shifted code)"
  using list_all2_map_of [OF table_pairs, of code]
  by (cases "map_of unshifted_table code"; cases "map_of shifted_table code";
      auto simp: Unshifted_def Shifted_def lower_def upper_def split: if_splits)+

section \<open>Properties\<close>

text \<open>C31: what a scancode does to the line buffer. A press of a printable key, or of Enter on a
  non-empty line, appends its character as long as the line has fewer than 49; Backspace
  removes the last; nothing else changes the line. On a line of 49 characters the next
  character overflows the buffer: the terminating zero is written one byte past its end.\<close>

theorem keyboard_line:
  assumes "kb_ok K"
  shows "case scancode sc K of
      None \<Rightarrow> appends sc K \<and> length (kb_text K) = 49
    | Some K' \<Rightarrow> kb_ok K' \<and> \<not> (appends sc K \<and> length (kb_text K) = 49)
        \<and> kb_text K' = (if appends sc K then kb_text K @ [key_char (sc AND 0x7F) K]
                        else if removes sc K then butlast (kb_text K) else kb_text K)"
  using scancode_text [OF assms, of sc] by (auto split: option.split)

definition full_line :: keyboard where
  "full_line = keyboard0\<lparr>kb_buffer := replicate 49 0x61 @ [0]\<rparr>"

lemma full_line_ok: "kb_ok full_line" "kb_text full_line = replicate 49 0x61"
  using takeWhile_nonzero_append [of "replicate 49 0x61" "[]"]
  by (simp_all add: kb_ok_def kb_text_def full_line_def del: takeWhile_nonzero_append)

lemma a_key: "key_char 0x1E full_line = 0x61" "(0x1E :: u8) AND 0x7F = 0x1E" "(0x1E :: u8) AND 0x80 = 0"
  by (simp_all add: key_char_def Unshifted_def unshifted_table_def full_line_def keyboard0_def)

theorem keyboard_line_witness: "scancode 0x1E full_line = None"
proof (rule ccontr)
  have "appends 0x1E full_line"
    using a_key full_line_ok by (simp add: appends_def press_def) (simp add: full_line_def keyboard0_def)
  moreover assume "scancode 0x1E full_line \<noteq> None"
  ultimately show False
    using keyboard_line [OF full_line_ok(1), where sc = "0x1E"] full_line_ok(2) by auto
qed

text \<open>Shift and caps lock. A letter comes out in upper case exactly when one of the two is on but
  not both; caps lock has no effect on any other key.\<close>

theorem keyboard_case:
  "key_char code K =
     (if lower (Unshifted code)
      then (if shift_pressed K \<noteq> caps_lock K then Unshifted code - 32 else Unshifted code)
      else (if shift_pressed K then Shifted code else Unshifted code))"
proof (cases "lower (Unshifted code)")
  case True
  with shifted_letters(1) [OF True] have "Shifted code = Unshifted code - 32" "upper (Unshifted code - 32)" by auto
  moreover have "\<not> lower (Unshifted code - 32)" using calculation(2)
    by (auto simp: lower_def upper_def word_le_nat_alt)
  moreover have "Unshifted code \<noteq> 0" "Unshifted code - 32 \<noteq> 0" using True calculation(2) by (auto simp: lower_def upper_def)
  ultimately show ?thesis using True by (auto simp: key_char_def Let_def lower_def upper_def)
next
  case False
  with shifted_letters(2) [OF False] show ?thesis by (auto simp: key_char_def Let_def lower_def upper_def)
qed

text \<open>Backspace undoes a key. After a key that appended a character, pressing Backspace restores
  the line, with shift and caps lock in any state.\<close>

theorem keyboard_backspace:
  assumes "kb_ok K" "appends sc K" "scancode sc K = Some K1"
  shows "\<exists>K2. scancode 0x0E K1 = Some K2 \<and> kb_ok K2 \<and> kb_text K2 = kb_text K"
proof -
  from scancode_text(2) [OF assms(1,3)] assms(2) have K1: "kb_ok K1" "kb_text K1 = kb_text K @ [key_char (sc AND 0x7F) K]"
    by auto
  have "\<not> extended_prefix K1"
    using assms(2,3) by (auto simp: appends_def press_def scancode_def Let_def BufferAdd_def UpdateNotification_def
        split: if_splits bind_splits)
  moreover have "key_char 0x0E K1 = 0x08"
    by (simp add: key_char_def Unshifted_def Shifted_def unshifted_table_def shifted_table_def)
  ultimately have r: "removes 0x0E K1" by (simp add: removes_def press_def)
  then have na: "\<not> appends 0x0E K1" by (simp add: removes_def appends_def)
  with scancode_text(1) [OF K1(1)] obtain K2 where "scancode 0x0E K1 = Some K2" by fastforce
  with scancode_text(2) [OF K1(1)] r na K1(2) show ?thesis by auto
qed

theorem keyboard_backspace_witness:
  "\<exists>K1 K2. scancode 0x1E keyboard0 = Some K1 \<and> scancode 0x0E K1 = Some K2 \<and> kb_text K2 = []"
proof -
  have k: "kb_ok keyboard0" "kb_text keyboard0 = []" by (simp_all add: keyboard0_def kb_ok_def kb_text_def)
  have "key_char 0x1E keyboard0 = 0x61" by (simp add: key_char_def Unshifted_def unshifted_table_def keyboard0_def)
  then have a: "appends 0x1E keyboard0" using a_key(2,3) by (simp add: appends_def press_def) (simp add: keyboard0_def)
  with scancode_text(1) [OF k(1)] k(2) obtain K1 where s: "scancode 0x1E keyboard0 = Some K1" by fastforce
  from keyboard_backspace [OF k(1) a s] s k(2) show ?thesis by auto
qed

end
