(* ===== verification/ISR.thy ===== *)
theory ISR
  imports Panic Keyboard Timer
begin

text \<open>
  \<open>System::ISR\<close> (src/src/src/classes/isr.class.h): the handler every stub calls, and what the
  frames of \<open>Panic\<close> mean for it: interrupts of devices are transparent to the code they
  interrupt, while the exceptions with an error code reach the panic screen shifted by a word.
\<close>

section \<open>The handler\<close>

text \<open>
  \<open>call\<close> is the preemption callback; it may switch to other tasks, and is the whole effect until
  the interrupted task runs again.  A panic does not return.
\<close>

datatype 's isr_result = Resumed 's | Halted mach

definition ISR_Handler ::
    "(u32 \<Rightarrow> timer \<times> (mach \<times> keyboard) \<times> 's \<Rightarrow> timer \<times> (mach \<times> keyboard) \<times> 's) \<Rightarrow> u8 list \<Rightarrow> registers \<Rightarrow>
     timer \<times> (mach \<times> keyboard) \<times> 's \<Rightarrow> (timer \<times> (mach \<times> keyboard) \<times> 's) isr_result option" where
  "ISR_Handler call ibuf R = (\<lambda>(T, (M, K), s).
     if int_no R < 32 then map_option Halted (Panic_Trigger ibuf R M)
     else if int_no R \<le> 47 then
       (let irq = (ucast (int_no R - 32) :: u8)
        in map_option (\<lambda>(T1, (M1, K1), s1). Resumed (T1, (PIC_EndOfInterrupt irq M1, K1), s1))
             (if irq = 0 then Some (Timer_Handler call (T, (M, K), s))
              else if irq = 1 then map_option (\<lambda>MK. (T, MK, s)) (Keyboard_Handler (M, K))
              else Some (T, (M, K), s)))
     else Some (Resumed (T, (outb 0x20 0x20 M, K), s)))"

section \<open>The decimal number of the panic screen\<close>

lemma digit_string_dec: "k < 10 \<Longrightarrow> digit_string ! k = 0x30 + of_nat k"
proof -
  assume "k < 10"
  then have "k \<in> {0, 1, 2, 3, 4, 5, 6, 7, 8, 9}" by auto
  then show ?thesis by (elim insertE) (simp_all add: digit_string_def)
qed

lemma int2char_loop_zero [simp]: "int2char_loop i 0 buf = Some (i, buf)"
  by (cases i) auto

lemma int2char_loop_dec:
  "0 < n \<Longrightarrow> length (dec n) \<le> i \<Longrightarrow> i < length buf \<Longrightarrow>
   \<exists>b. int2char_loop i (int n) buf = Some (i - length (dec n), b) \<and> length b = length buf
     \<and> drop (Suc (i - length (dec n))) b = dec n @ drop (Suc i) buf"
proof (induction n arbitrary: i buf rule: dec.induct)
  case (1 n)
  have dig: "digit_string ! nat (int n mod 10) = 0x30 + of_nat (n mod 10)"
    by (metis digit_string_dec mod_less_divisor nat_int of_nat_mod of_nat_numeral zero_less_numeral)
  obtain k where i: "i = Suc k" using "1.prems" dec.simps [of n] by (cases i) (auto split: if_splits)
  let ?b = "buf[i := 0x30 + of_nat (n mod 10)]"
  have step: "int2char_loop i (int n) buf = int2char_loop k (int (n div 10)) ?b"
    using "1.prems"(1) dig by (simp add: i zdiv_int)
  have dr: "drop i ?b = (0x30 + of_nat (n mod 10)) # drop (Suc i) buf"
    using "1.prems"(3) by (simp add: drop_update_swap Cons_nth_drop_Suc [symmetric])
  show ?case
  proof (cases "n < 10")
    case True
    then show ?thesis using step dr by (simp add: dec.simps [of n] i)
  next
    case False
    then have "0 < n div 10" "length (dec (n div 10)) \<le> k" "k < length ?b"
      using "1.prems" by (simp_all add: dec.simps [of n] i)
    from "1.IH" [OF False this] obtain b where
      "int2char_loop k (int (n div 10)) ?b = Some (k - length (dec (n div 10)), b)" "length b = length buf"
      "drop (Suc (k - length (dec (n div 10)))) b = dec (n div 10) @ drop (Suc k) ?b" by auto
    with step dr False show ?thesis by (simp add: dec.simps [of n] i)
  qed
qed

lemma int2char_text:
  assumes "unat v < 2 ^ 31" "length buf = 32" "buf ! 31 = 0"
  shows "\<exists>b. int2char v buf = Some (if v = 0 then [] else dec (unat v), b) \<and> length b = 32 \<and> b ! 31 = 0"
proof -
  have s: "sint v = int (unat v)"
  proof -
    have "\<not> bit v 31" using assms(1) by (simp add: bit_iff_odd_drop_bit drop_bit_eq_div odd_iff_mod_2_eq_one
      word_arith_nat_div)
    moreover have "take_bit 31 (uint v) = uint v"
    proof (rule take_bit_int_eq_self)
      have "int (unat v) < int (2 ^ 31)" using assms(1) by (simp only: of_nat_less_iff)
      then show "uint v < 2 ^ 31" by simp
    qed simp
    ultimately show ?thesis by (simp add: sint_uint signed_take_bit_eq_if_positive bit_uint_iff)
  qed
  have d31: "drop 31 buf = [0]" using assms(2,3) by (simp add: Cons_nth_drop_Suc [symmetric])
  show ?thesis
  proof (cases "v = 0")
    case True
    with assms d31 s show ?thesis by (simp add: int2char_def)
  next
    case False
    then have "0 < unat v" by (simp add: unat_gt_0)
    moreover have "length (dec (unat v)) \<le> 30" using dec_u32_length [of v] by simp
    ultimately obtain b where b: "int2char_loop 30 (int (unat v)) buf = Some (30 - length (dec (unat v)), b)"
      "length b = 32" "drop (Suc (30 - length (dec (unat v)))) b = dec (unat v) @ [0]"
      using int2char_loop_dec [of "unat v" 30 buf] assms(2) d31 by auto
    from arg_cong [OF b(3), of last] have "b ! 31 = 0"
      using b(2) \<open>length (dec (unat v)) \<le> 30\<close> by (simp add: last_conv_nth last_drop)
    with b False dec_nonzero [of "unat v"] show ?thesis by (simp add: int2char_def s)
  qed
qed

section \<open>Reading fields off the screen\<close>

lemma cell_WriteAt:
  "off + length s < 2 ^ 30 \<Longrightarrow> k < 2 ^ 30 \<Longrightarrow>
     cell (WriteAt off s a m) k = (if off \<le> k \<and> k < off + length s then sign_cell (s ! (k - off)) a else cell m k)"
proof (induction off s a m rule: WriteAt.induct)
  case (2 off c s attr m)
  then show ?case by (auto simp: nth_Cons')
qed auto

lemma cell_fold_cells:
  "(\<And>i. i \<in> set is \<Longrightarrow> f i < 2 ^ 30) \<Longrightarrow> k < 2 ^ 30 \<Longrightarrow> k \<notin> f ` set is \<Longrightarrow>
     cell (fold (\<lambda>i. set_cell (f i) (g i)) is m) k = cell m k"
  by (induction "is" arbitrary: m) auto

lemma cell_HexAt_other:
  assumes "row * 80 + col + 10 < 2 ^ 30" "k < 2 ^ 30" "k < row * 80 + col \<or> row * 80 + col + 10 \<le> k"
  shows "cell (HexAt row col v a m) k = cell m k"
proof -
  have "k \<notin> (\<lambda>i. row * 80 + col + 2 + i) ` set [0..<8]" using assms(3) by auto
  moreover have "k \<noteq> row * 80 + col" "k \<noteq> row * 80 + col + 1" using assms(3) by auto
  moreover have "cell (fold (\<lambda>i. set_cell (row * 80 + col + 2 + i) (g i)) [0..<8] m') k = cell m' k" for g m'
    by (rule cell_fold_cells) (use assms calculation(1) in auto)
  ultimately show ?thesis using assms unfolding HexAt_def Let_def by simp
qed

text \<open>The eight digits of \<open>HexAt\<close>.\<close>

definition hex8 :: "u32 \<Rightarrow> u8 list" where
  "hex8 v = map (\<lambda>i. HEX_DIGITS ! unat (drop_bit (28 - i * 4) v AND 0xF)) [0..<8]"

lemma cell_HexAt_digit:
  assumes "row * 80 + col + 10 < 2 ^ 30" "i < 8"
  shows "cell (HexAt row col v a m) (row * 80 + col + 2 + i) = sign_cell (hex8 v ! i) a"
proof -
  have f: "fold (\<lambda>i. set_cell (row * 80 + col + 2 + i) (g i)) [0..<8] m'
      = fold (\<lambda>i. set_cell (row * 80 + col + 2 + i) (g i)) [Suc i..<8]
          (set_cell (row * 80 + col + 2 + i) (g i) (fold (\<lambda>i. set_cell (row * 80 + col + 2 + i) (g i)) [0..<i] m'))" for g m'
  proof -
    have "[0..<8] = [0..<i] @ i # [Suc i..<8]"
      using assms(2) by (metis less_imp_le_nat upt_add_eq_append upt_conv_Cons le_add_diff_inverse zero_le)
    then show ?thesis by simp
  qed
  have "row * 80 + col + 2 + i \<notin> (\<lambda>i. row * 80 + col + 2 + i) ` set [Suc i..<8]" by auto
  from cell_fold_cells [OF _ _ this] assms show ?thesis
    unfolding HexAt_def Let_def f by (simp add: hex8_def)
qed

text \<open>A field is a range of cells; every statement of the panic screen leaves the others alone.\<close>

definition field :: "nat \<Rightarrow> nat \<Rightarrow> mem \<Rightarrow> u16 list" where
  "field a n m = map (\<lambda>i. cell m (a + i)) [0..<n]"

lemma field_eqI: "(\<And>i. i < n \<Longrightarrow> cell m (a + i) = cell m' (a + i)) \<Longrightarrow> field a n m = field a n m'"
  by (simp add: field_def)

lemma field_text [simp]:
  assumes "off + length s < 2000" "a + n < 2000" "off + length s \<le> a \<or> a + n \<le> off"
  shows "field a n (panic_text off s m) = field a n m"
  by (rule field_eqI) (use assms in \<open>auto simp: panic_text_def cell_WriteAt\<close>)

lemma field_hex [simp]:
  assumes "row * 80 + col + 10 \<le> 2000" "a + n < 2000" "row * 80 + col + 10 \<le> a \<or> a + n \<le> row * 80 + col"
  shows "field a n (panic_hex row col v m) = field a n m"
  by (rule field_eqI) (use assms in \<open>auto simp: panic_hex_def intro!: cell_HexAt_other\<close>)

lemma field_hex_digits:
  assumes "row * 80 + col + 10 \<le> 2000" "a = row * 80 + col + 2"
  shows "field a 8 (panic_hex row col v m) = map (\<lambda>c. sign_cell c panic_attr) (hex8 v)"
proof -
  have "cell (panic_hex row col v m) (a + i) = sign_cell (hex8 v ! i) panic_attr" if "i < 8" for i
    using cell_HexAt_digit [of row col i v panic_attr m] assms that by (simp add: panic_hex_def)
  then show ?thesis by (auto simp: field_def hex8_def intro!: map_cong)
qed

lemma field_stack:
  assumes "a + n \<le> 960"
  shows "field a n (panic_stack R m) = field a n m"
proof -
  have line: "field a n (panic_stack_line R i m') = field a n m'" if "i < 8" for i m'
    using that assms by (simp add: panic_stack_line_def Let_def)
  have "field a n (fold (panic_stack_line R) is m') = field a n m'" if "\<forall>i \<in> set is. i < 8" for "is" m'
    using that by (induction "is" arbitrary: m') (simp_all add: line)
  then show ?thesis using assms by (simp add: panic_stack_def)
qed

lemma field_cause:
  assumes "a + n \<le> 800"
  shows "field a n (panic_cause R m) = field a n m"
  using assms by (simp add: panic_cause_def Let_def)

text \<open>The EIP and the ERR field.\<close>

lemma panic_fields:
  "field 568 8 (panic_registers R cr m) = map (\<lambda>c. sign_cell c panic_attr) (hex8 (r_eip R))"
  "field 611 8 (panic_registers R cr m) = map (\<lambda>c. sign_cell c panic_attr) (hex8 (err_code R))"
  by (simp_all add: panic_registers_def field_hex_digits)

section \<open>The frame\<close>

lemma ds_half [simp]: "ucast (((x :: u32) AND 0xFFFF0000) OR ucast (d :: u16)) = d"
proof (rule bit_word_eqI)
  fix n assume "n < LENGTH(16)"
  moreover have "(0xFFFF0000 :: u32) = push_bit 16 0xFFFF" by simp
  moreover have "\<not> bit (push_bit 16 0xFFFF :: u32) n" if "n < 16" using that by (simp only: bit_push_bit_iff) simp
  ultimately show "bit (ucast ((x AND 0xFFFF0000) OR ucast d) :: u16) n = bit d n"
    by (auto simp: bit_simps)
qed

lemma isr_registers_sel:
  "int_no (isr_registers vec err sp c) = of_nat vec"
  "err_code (isr_registers vec err sp c) = 0"
  "r_eip (isr_registers vec err sp c) = (if has_error_code vec then err else c_eip c)"
  by (simp_all add: isr_registers_def read_registers_def isr_common_entry_def ISR_NOERRCODE_def cpu_entry_def)

lemma Panic_Trigger_eq:
  assumes "unat (int_no R) < 32" "length ibuf = 32" "ibuf ! 31 = 0"
  obtains num M' where "Panic_Trigger ibuf R M = Some M'" "\<not> if_flag M'"
    "ram M' = panic_text 1842 ''System halted. Reboot to recover.''
       (panic_stack R (panic_cause R (panic_registers R (cr2 M) num)))"
proof -
  from int2char_text [of "int_no R" ibuf] assms obtain n b where "int2char (int_no R) ibuf = Some (n, b)" by auto
  then show thesis using that by (simp add: Panic_Trigger_def Let_def panic_log_def)
qed

lemma isr_irq:
  assumes "32 \<le> (v :: u32)" "v \<le> 47"
  shows "(ucast (v - 32) = (0 :: u8)) = (v = 32)" "(ucast (v - 32) = (1 :: u8)) = (v = 33)"
    "(8 \<le> (ucast (v - 32) :: u8)) = (40 \<le> v)"
proof -
  have r: "32 \<le> unat v" "unat v \<le> 47" using assms by (simp_all add: word_le_nat_alt)
  then have "unat (v - 32) = unat v - 32" by (simp add: unat_sub_if_size word_le_nat_alt)
  then have u: "unat (ucast (v - 32) :: u8) = unat v - 32"
    using r by (simp add: unsigned_ucast_eq take_bit_eq_mod)
  have c: "unat (0 :: u8) = 0" "unat (1 :: u8) = 1" "unat (8 :: u8) = 8" "unat (32 :: u32) = 32"
    "unat (33 :: u32) = 33" "unat (40 :: u32) = 40" by simp_all
  show "(ucast (v - 32) = (0 :: u8)) = (v = 32)"
    using r unfolding word_unat_eq_iff u c by arith
  show "(ucast (v - 32) = (1 :: u8)) = (v = 33)"
    using r unfolding word_unat_eq_iff u c by arith
  show "(8 \<le> (ucast (v - 32) :: u8)) = (40 \<le> v)"
    using r unfolding word_le_nat_alt u c by arith
qed

lemma Keyboard_Handler_pics: "Keyboard_Handler (M, K) = Some (M1, K1) \<Longrightarrow> pics c0 M1 = pics c0 M"
  using inb_simps(2) [of c0 "0x64" M] inb_simps(2) [of c0 "0x60" "snd (inb 0x64 M)"]
  by (auto simp: Keyboard_Handler_def Let_def case_prod_beta split: if_splits simp del: inb_simps)

section \<open>Properties\<close>

text \<open>C32: an interrupt without an error code of the processor is transparent: the frame the stub
  builds shows the handler the interrupted registers and the vector, and taking it down gives back
  the interrupted state with its data segment and its stack.\<close>

theorem isr_roundtrip:
  assumes "\<not> has_error_code vec"
  shows "isr_common_exit (isr_common_entry sp c (ISR_NOERRCODE vec (cpu_entry vec err c))) = Some c
    \<and> int_no (isr_registers vec err sp c) = of_nat vec \<and> err_code (isr_registers vec err sp c) = 0
    \<and> r_eip (isr_registers vec err sp c) = c_eip c \<and> r_eflags (isr_registers vec err sp c) = c_eflags c
    \<and> r_eax (isr_registers vec err sp c) = c_eax c \<and> r_esp (isr_registers vec err sp c) = sp"
  using assms
  by (simp add: isr_registers_def read_registers_def isr_common_entry_def ISR_NOERRCODE_def cpu_entry_def)

definition demo_context :: icontext where
  "demo_context = \<lparr>c_eax = 1, c_ecx = 2, c_edx = 3, c_ebx = 4, c_ebp = 5, c_esi = 6, c_edi = 7, c_ds = 16,
     c_eip = 0x00104000, c_cs = 8, c_eflags = 0x202, c_stack = [0xAA, 0xBB]\<rparr>"

theorem isr_roundtrip_witness:
  "isr_common_exit (isr_common_entry 0x9000 demo_context (ISR_NOERRCODE 32 (cpu_entry 32 0 demo_context)))
     = Some demo_context"
  using isr_roundtrip [where vec = 32 and sp = "0x9000" and c = demo_context and err = 0]
  by (simp add: has_error_code_def)

text \<open>C29: a panic halts with interrupts off and leaves, behind \<open>EIP=\<close> and \<open>ERR=\<close>, the eight digits of
  these values: the interrupted instruction and zero for a vector without an error code; for one
  with an error code the error code stands where the instruction should be, and zero where the
  error code should be.\<close>

theorem panic_screen_fields:
  assumes "vec < 32" "length ibuf = 32" "ibuf ! 31 = 0"
  shows "\<exists>M'. Panic_Trigger ibuf (isr_registers vec err sp c) M = Some M' \<and> \<not> if_flag M'
    \<and> field 568 8 (ram M') = map (\<lambda>d. sign_cell d panic_attr)
        (hex8 (if has_error_code vec then err else c_eip c))
    \<and> field 611 8 (ram M') = map (\<lambda>d. sign_cell d panic_attr) (hex8 0)"
proof -
  let ?R = "isr_registers vec err sp c"
  have "unat (int_no ?R) < 32"
    using assms(1) by (simp add: isr_registers_sel unat_of_nat take_bit_eq_mod)
  then obtain num M' where "Panic_Trigger ibuf ?R M = Some M'" "\<not> if_flag M'"
    "ram M' = panic_text 1842 ''System halted. Reboot to recover.''
       (panic_stack ?R (panic_cause ?R (panic_registers ?R (cr2 M) num)))"
    using assms(2,3) by (rule Panic_Trigger_eq)
  then show ?thesis by (simp add: field_stack field_cause panic_fields isr_registers_sel)
qed

theorem panic_screen_fields_witness:
  "\<exists>M'. Panic_Trigger (replicate 32 0) (isr_registers 14 2 0x9000 demo_context) blank = Some M'
     \<and> field 568 8 (ram M') = map (\<lambda>d. sign_cell d panic_attr) (hex8 2)"
  using panic_screen_fields [where vec = 14 and ibuf = "replicate 32 0" and err = 2 and sp = "0x9000"
      and c = demo_context and M = blank]
  by (auto simp: has_error_code_def)

text \<open>A device interrupt is acknowledged when its handler returns: the master chip counts one more
  end-of-interrupt, the slave chip too if the line is one of its own, and masks and vector offsets
  stay.  Only the timer line counts a tick and only the keyboard line touches the keyboard.  (For
  the timer line this is the case of no preemption callback; the callback may leave the handler
  before the acknowledgement.)\<close>

theorem isr_acknowledges:
  assumes "32 \<le> int_no R" "int_no R \<le> 47" "int_no R = 32 \<longrightarrow> preempt_cb T = 0"
    "ISR_Handler call ibuf R (T, (M, K), s) = Some r"
  shows "\<exists>T1 M1 K1. r = Resumed (T1, (M1, K1), s)
    \<and> ticks T1 = (if int_no R = 32 then ticks T + 1 else ticks T) \<and> (int_no R = 33 \<or> K1 = K)
    \<and> (case (pics c0 M, pics c0 M1) of ((c1, c2), (d1, d2)) \<Rightarrow>
         d1 = c1\<lparr>chip_eois := Suc (chip_eois c1)\<rparr>
         \<and> d2 = (if 40 \<le> int_no R then c2\<lparr>chip_eois := Suc (chip_eois c2)\<rparr> else c2))"
proof -
  have n: "\<not> int_no R < 32" using assms(1) by simp
  note split_prems = assms(4) [unfolded ISR_Handler_def Let_def prod.case, simplified n assms(2) if_False if_True]
  have irq: "(ucast (int_no R - 32) = (0 :: u8)) = (int_no R = 32)"
    "(ucast (int_no R - 32) = (1 :: u8)) = (int_no R = 33)"
    "(8 \<le> (ucast (int_no R - 32) :: u8)) = (40 \<le> int_no R)"
    using isr_irq [OF assms(1,2)] by auto
  obtain c1 c2 where c: "pics c0 M = (c1, c2)" by (cases "pics c0 M")
  have eoi: "pics c0 (PIC_EndOfInterrupt (ucast (int_no R - 32)) M') =
      (c1\<lparr>chip_eois := Suc (chip_eois c1)\<rparr>,
       if 40 \<le> int_no R then c2\<lparr>chip_eois := Suc (chip_eois c2)\<rparr> else c2)" if "pics c0 M' = pics c0 M" for M'
    using that c by (simp add: PIC_EndOfInterrupt_def pic_consts chip_cmd_def irq)
  consider "int_no R = 32" | "int_no R = 33" | "int_no R \<noteq> 32" "int_no R \<noteq> 33" by blast
  then show ?thesis
  proof cases
    case 1
    with assms(3) have "Timer_Handler call (T, (M, K), s) = (T\<lparr>ticks := ticks T + 1\<rparr>, (M, K), s)"
      by (simp add: Timer_Handler_def)
    with 1 split_prems irq eoi [of M] c show ?thesis by auto
  next
    case 2
    with split_prems irq obtain M1 K1 where k: "Keyboard_Handler (M, K) = Some (M1, K1)"
      "r = Resumed (T, (PIC_EndOfInterrupt (ucast (int_no R - 32)) M1, K1), s)" by auto
    with eoi [OF Keyboard_Handler_pics [OF k(1)]] 2 c show ?thesis by auto
  next
    case 3
    with split_prems irq eoi [of M] c show ?thesis by auto
  qed
qed

definition demo_regs :: "u32 \<Rightarrow> registers" where
  "demo_regs n = isr_registers (unat n) 0 0x9000 demo_context"

theorem isr_acknowledges_witness:
  "\<exists>r. ISR_Handler (\<lambda>_ s. s) (replicate 32 0) (demo_regs 44) (timer0, (pic_mach, keyboard0), ()) = Some r
     \<and> (\<exists>T1 M1 K1. r = Resumed (T1, (M1, K1), ())
          \<and> chip_eois (snd (pics (reset_chip, reset_chip) M1)) = 1)"
proof -
  have n: "int_no (demo_regs 44) = 44" by (simp add: demo_regs_def isr_registers_sel)
  then obtain r where r: "ISR_Handler (\<lambda>_ s. s) (replicate 32 0) (demo_regs 44) (timer0, (pic_mach, keyboard0), ())
      = Some r" by (auto simp: ISR_Handler_def)
  have "chip_eois (snd (pics (reset_chip, reset_chip) pic_mach)) = 0"
    by (simp add: pics_def pic_state_def pic_mach_def blank_def reset_chip_def)
  with isr_acknowledges [OF _ _ _ r, of "(reset_chip, reset_chip)"] n r show ?thesis
    by (fastforce split: prod.splits)
qed

end
