(* ===== verification/Preemption.thy ===== *)
theory Preemption
  imports Scheduler_Reach
begin

text \<open>
  Preemption: \<open>Scheduler::PreemptiveYield\<close> (scheduler.class.h) called from the timer interrupt
  (timer.class.h, isr.class.h, boot/asm/isr.asm), and its interplay with the tasks' own calls of
  \<open>Yield\<close> and \<open>Sleep\<close> and with the idle loop of kernel.cpp.  A switch inside the interrupt
  leaves the rest of the handler (clearing \<open>in_preempt\<close>, the end-of-interrupt, \<open>sti\<close> and \<open>iret\<close>)
  to the moment at which the interrupted task is resumed.
\<close>

section \<open>State\<close>

text \<open>
  Where a task goes on when it gets the processor: \<open>Fresh\<close> at its entry, \<open>Coop\<close> behind its own
  call of \<open>Yield\<close>, \<open>InIsr\<close> behind the \<open>Yield\<close> of \<open>PreemptiveYield\<close>.  The running task is \<open>Running\<close>.
\<close>

datatype resume_point = Running | Fresh | Coop | InIsr

text \<open>\<open>irq0_busy\<close>: the timer line is in service; \<open>at_hlt\<close>: task 0 is between \<open>Yield\<close> and \<open>hlt\<close>.\<close>

record psys =
  p_timer :: timer
  p_sched :: sched
  p_susp :: "resume_point list"
  in_preempt :: bool
  p_if :: bool
  irq0_busy :: bool
  at_hlt :: bool
  p_dead :: bool

section \<open>Operations\<close>

text \<open>The end of the interrupt: acknowledgement, then \<open>sti\<close> and \<open>iret\<close>.\<close>

definition isr_return :: "psys \<Rightarrow> psys" where
  "isr_return P = P\<lparr>irq0_busy := False, p_if := True\<rparr>"

text \<open>\<open>switch_task\<close> from slot \<open>prev\<close>, which stops at \<open>mark\<close>, to \<open>nxt\<close>; it keeps the interrupt flag.\<close>

definition switch_to :: "resume_point \<Rightarrow> nat \<Rightarrow> nat \<Rightarrow> psys \<Rightarrow> psys" where
  "switch_to mark prev nxt P =
     (let P1 = P\<lparr>p_susp := (p_susp P)[prev := mark, nxt := Running]\<rparr>
      in if p_susp P ! nxt = InIsr then isr_return (P1\<lparr>in_preempt := False\<rparr>) else P1)"

text \<open>The result says whether the call returned to the handler.\<close>

definition PreemptiveYield :: "u32 \<Rightarrow> psys \<Rightarrow> psys \<times> bool" where
  "PreemptiveYield now P =
     (if \<not> sched_ready (p_sched P) then (P, True)
      else if in_preempt P then (P, True)
      else let P1 = P\<lparr>in_preempt := True\<rparr> in
        case Yield now (p_sched P1) of
          (S, None) \<Rightarrow> (P1\<lparr>p_sched := S, in_preempt := False\<rparr>, True)
        | (S, Some (prev, nxt)) \<Rightarrow> (switch_to InIsr prev nxt (P1\<lparr>p_sched := S\<rparr>), False))"

definition timer_interrupt :: "psys \<Rightarrow> psys" where
  "timer_interrupt P0 =
     (let P = P0\<lparr>p_if := False, irq0_busy := True\<rparr>;
          (T, (P1, returned)) =
            Timer_Handler (\<lambda>cb (T, (Q, _)). (T, PreemptiveYield (ticks T) Q)) (p_timer P, (P, True));
          P2 = P1\<lparr>p_timer := T\<rparr>
      in if returned then isr_return P2 else P2)"

text \<open>A task's own call.\<close>

datatype call = CYield | CSleep u32

fun call_sched :: "call \<Rightarrow> u32 \<Rightarrow> sched \<Rightarrow> sched \<times> (nat \<times> nat) option" where
  "call_sched CYield now S = Yield now S"
| "call_sched (CSleep ms) now S = Sleep now ms S"

definition task_call :: "call \<Rightarrow> psys \<Rightarrow> psys" where
  "task_call c P = (case call_sched c (ticks (p_timer P)) (p_sched P) of
       (S, None) \<Rightarrow> P\<lparr>p_sched := S\<rparr>
     | (S, Some (prev, nxt)) \<Rightarrow> switch_to Coop prev nxt (P\<lparr>p_sched := S\<rparr>))"

text \<open>The loop of task 0: \<open>Yield\<close>, then \<open>hlt\<close>, which only an interrupt ends.\<close>

definition loop_yield :: "psys \<Rightarrow> psys" where
  "loop_yield P = task_call CYield (P\<lparr>at_hlt := True\<rparr>)"

definition loop_hlt :: "psys \<Rightarrow> psys" where
  "loop_hlt P = (if p_if P then P\<lparr>at_hlt := False\<rparr> else P\<lparr>p_dead := True\<rparr>)"

text \<open>The next step of whichever flow runs: a background task calls \<open>c\<close>, task 0 goes on in its loop.\<close>

definition flow_step :: "call \<Rightarrow> psys \<Rightarrow> psys" where
  "flow_step c P = (if current (p_sched P) \<noteq> 0 then task_call c P
     else if at_hlt P then loop_hlt P else loop_yield P)"

definition preempt_boot :: "timer \<Rightarrow> sched \<Rightarrow> psys" where
  "preempt_boot T S = \<lparr>p_timer = T, p_sched = S, p_susp = (replicate 8 Fresh)[0 := Running],
     in_preempt = False, p_if = True, irq0_busy = False, at_hlt = False, p_dead = False\<rparr>"

definition spawned :: "int \<Rightarrow> sched \<Rightarrow> psys \<Rightarrow> psys" where
  "spawned r S P = P\<lparr>p_sched := S, p_susp := (if r = -1 then p_susp P else (p_susp P)[nat r := Fresh])\<rparr>"

inductive preempt_reach :: "mach \<Rightarrow> heap \<Rightarrow> psys \<Rightarrow> bool" where
  boot: "heap_inv M H \<Longrightarrow> length (tasks S0) = 8 \<Longrightarrow> cb \<noteq> 0 \<Longrightarrow>
    Scheduler_Start cb (M, T0, S0) = (M', T, S) \<Longrightarrow> preempt_reach M' H (preempt_boot T S)"
| tick: "preempt_reach M H P \<Longrightarrow> \<not> p_dead P \<Longrightarrow> p_if P \<Longrightarrow> \<not> irq0_busy P \<Longrightarrow>
    preempt_reach M H (timer_interrupt P)"
| yield: "preempt_reach M H P \<Longrightarrow> \<not> p_dead P \<Longrightarrow> current (p_sched P) = 0 \<Longrightarrow> \<not> at_hlt P \<Longrightarrow>
    preempt_reach M H (loop_yield P)"
| hlt: "preempt_reach M H P \<Longrightarrow> \<not> p_dead P \<Longrightarrow> current (p_sched P) = 0 \<Longrightarrow> at_hlt P \<Longrightarrow>
    preempt_reach M H (loop_hlt P)"
| call: "preempt_reach M H P \<Longrightarrow> \<not> p_dead P \<Longrightarrow> current (p_sched P) \<noteq> 0 \<Longrightarrow>
    preempt_reach M H (task_call c P)"
| spawn: "preempt_reach M H P \<Longrightarrow> \<not> p_dead P \<Longrightarrow>
    Spawn entry name (M, H, p_sched P) = Some (r, M', H', S) \<Longrightarrow> preempt_reach M' H' (spawned r S P)"

section \<open>The invariant\<close>

definition isr_tasks :: "psys \<Rightarrow> nat set" where
  "isr_tasks P = {i. i < 8 \<and> p_susp P ! i = InIsr}"

definition preempt_ok :: "psys \<Rightarrow> bool" where
  "preempt_ok P \<longleftrightarrow> sched_ok (p_sched P) \<and> length (p_susp P) = 8
     \<and> (\<forall>i < 8. p_susp P ! i = Running \<longleftrightarrow> i = current (p_sched P))
     \<and> in_preempt P = (\<not> p_if P) \<and> irq0_busy P = (\<not> p_if P) \<and> preempt_cb (p_timer P) \<noteq> 0
     \<and> isr_tasks P \<subseteq> used_slots (p_sched P)
     \<and> (if p_if P then isr_tasks P = {} else \<exists>i. isr_tasks P = {i})"

text \<open>What a scheduler call can answer.\<close>

lemma Yield_result:
  assumes "sched_ok S"
  obtains S' where "Yield now S = (S', None)" "sched_ok S'" "used_slots S' = used_slots S" "current S' = current S"
  | S' i where "Yield now S = (S', Some (current S, i))" "sched_ok S'" "used_slots S' = used_slots S" "current S' = i" "i < 8" "i \<noteq> current S"
proof (cases "\<exists>j < 8. runnable now (tasks S ! j)")
  case False
  with Yield_idle [OF assms, of now] assms that(1) show thesis by simp
next
  case True
  then obtain j where j: "j < 8" "runnable now (tasks S ! j)" by blast
  have ok: "sched_ok (fst (Yield now S))" "used_slots (fst (Yield now S)) = used_slots S"
    using Yield_ok [OF assms] by blast+
  show thesis
    using assms j
  proof (cases rule: Yield_pick)
    case stay
    with ok that(1) show thesis by simp
  next
    case (switch i)
    with ok that(2) show thesis by simp
  qed
qed

lemma call_result:
  assumes "sched_ok S"
  obtains S' where "call_sched c now S = (S', None)" "sched_ok S'" "used_slots S' = used_slots S" "current S' = current S"
  | S' i where "call_sched c now S = (S', Some (current S, i))" "sched_ok S'" "used_slots S' = used_slots S" "current S' = i" "i < 8" "i \<noteq> current S"
proof (cases c)
  case CYield
  show thesis
    by (rule Yield_result [OF assms, of now]) (use that CYield in simp_all)
next
  case (CSleep ms)
  note s = sleep_mark_ok(1,3,2) [OF assms, where now = now and ms = ms]
  have "call_sched c now S = Yield now (sleep_mark now ms S)"
    using CSleep Sleep_Yield sched_ok_sel(3) [OF assms] by simp
  with s(2,3) that show thesis
    by (cases rule: Yield_result [OF s(1), of now, case_names None Some]) metis+
qed

lemma isr_tasks_sel [simp]:
  "isr_tasks (P\<lparr>p_sched := S\<rparr>) = isr_tasks P" "isr_tasks (P\<lparr>p_timer := T\<rparr>) = isr_tasks P"
  "isr_tasks (P\<lparr>in_preempt := b\<rparr>) = isr_tasks P" "isr_tasks (isr_return P) = isr_tasks P"
  "isr_tasks (P\<lparr>at_hlt := b\<rparr>) = isr_tasks P" "isr_tasks (P\<lparr>p_dead := b\<rparr>) = isr_tasks P"
  "isr_tasks (P\<lparr>p_if := b\<rparr>) = isr_tasks P" "isr_tasks (P\<lparr>irq0_busy := b\<rparr>) = isr_tasks P"
  by (simp_all add: isr_tasks_def isr_return_def)

lemma isr_tasks_switch:
  assumes "length (p_susp P) = 8" "prev < 8" "nxt < 8" "prev \<noteq> nxt" "prev \<notin> isr_tasks P"
  shows "isr_tasks (switch_to mark prev nxt P) = (if mark = InIsr then insert prev (isr_tasks P) else isr_tasks P) - {nxt}"
  using assms by (auto simp: switch_to_def isr_tasks_def isr_return_def Let_def nth_list_update split: if_splits)

lemma preempt_ok_call:
  assumes "preempt_ok P"
  shows "preempt_ok (task_call c P)"
    "p_if (task_call c P) \<longleftrightarrow> p_if P \<or> current (p_sched (task_call c P)) \<in> isr_tasks P"
    "p_if P \<or> p_if (task_call c P) \<or> isr_tasks (task_call c P) = isr_tasks P"
proof -
  have ok: "sched_ok (p_sched P)" and l: "length (p_susp P) = 8"
    and r: "\<And>i. i < 8 \<Longrightarrow> p_susp P ! i = Running \<longleftrightarrow> i = current (p_sched P)"
    and f: "in_preempt P = (\<not> p_if P)" "irq0_busy P = (\<not> p_if P)" "preempt_cb (p_timer P) \<noteq> 0"
      "isr_tasks P \<subseteq> used_slots (p_sched P)" "if p_if P then isr_tasks P = {} else \<exists>i. isr_tasks P = {i}"
    using assms by (auto simp: preempt_ok_def)
  have cur: "current (p_sched P) < 8" "current (p_sched P) \<notin> isr_tasks P"
    using sched_ok_sel(1) [OF ok] r [OF sched_ok_sel(1) [OF ok]] by (auto simp: isr_tasks_def)
  consider S' where "call_sched c (ticks (p_timer P)) (p_sched P) = (S', None)" "sched_ok S'" "used_slots S' = used_slots (p_sched P)"
        "current S' = current (p_sched P)"
    | S' i where "call_sched c (ticks (p_timer P)) (p_sched P) = (S', Some (current (p_sched P), i))" "sched_ok S'"
      "used_slots S' = used_slots (p_sched P)" "current S' = i" "i < 8" "i \<noteq> current (p_sched P)"
    using call_result [OF ok] by metis
  then have "preempt_ok (task_call c P)
    \<and> (p_if (task_call c P) \<longleftrightarrow> p_if P \<or> current (p_sched (task_call c P)) \<in> isr_tasks P)
    \<and> (p_if P \<or> p_if (task_call c P) \<or> isr_tasks (task_call c P) = isr_tasks P)"
  proof cases
    case 1
    with l r f cur show ?thesis by (auto simp: task_call_def preempt_ok_def)
  next
    case (2 S' i)
    let ?Q = "switch_to Coop (current (p_sched P)) i (P\<lparr>p_sched := S'\<rparr>)"
    have Q: "task_call c P = ?Q" using 2(1) by (simp add: task_call_def)
    have it: "isr_tasks ?Q = isr_tasks P - {i}"
      using isr_tasks_switch [of "P\<lparr>p_sched := S'\<rparr>" "current (p_sched P)" i Coop] l cur 2 by simp
    have run: "p_susp ?Q ! k = Running \<longleftrightarrow> k = i" if "k < 8" for k
      using that r [OF that] l 2(5,6) cur(1)
      by (auto simp: switch_to_def isr_return_def Let_def nth_list_update)
    show ?thesis
    proof (cases "p_susp P ! i = InIsr")
      case True
      then have "i \<in> isr_tasks P" using 2(5) by (simp add: isr_tasks_def)
      with f(5) have i: "isr_tasks P = {i}" "\<not> p_if P" by (auto split: if_splits)
      have sel: "p_sched ?Q = S'" "p_timer ?Q = p_timer P" "length (p_susp ?Q) = 8" "p_if ?Q" "\<not> in_preempt ?Q"
        "\<not> irq0_busy ?Q" using True l by (simp_all add: switch_to_def isr_return_def Let_def)
      show ?thesis
        using run 2(2-4) f(3) i unfolding Q preempt_ok_def it by (simp add: sel)
    next
      case False
      then have "isr_tasks P - {i} = isr_tasks P" "i \<notin> isr_tasks P" by (auto simp: isr_tasks_def)
      have sel: "p_sched ?Q = S'" "p_timer ?Q = p_timer P" "length (p_susp ?Q) = 8" "p_if ?Q = p_if P"
        "in_preempt ?Q = in_preempt P" "irq0_busy ?Q = irq0_busy P"
        using False l by (simp_all add: switch_to_def Let_def)
      show ?thesis
        using run 2(2-4) f \<open>isr_tasks P - {i} = isr_tasks P\<close> \<open>i \<notin> isr_tasks P\<close>
        unfolding Q preempt_ok_def it sel by simp
    qed
  qed
  then show "preempt_ok (task_call c P)"
    "p_if (task_call c P) \<longleftrightarrow> p_if P \<or> current (p_sched (task_call c P)) \<in> isr_tasks P"
    "p_if P \<or> p_if (task_call c P) \<or> isr_tasks (task_call c P) = isr_tasks P" by blast+
qed

text \<open>The interrupt: whether the callback runs, and what it does then.\<close>

lemma timer_interrupt_eq:
  "timer_interrupt P =
     (let now = ticks (p_timer P) + 1;
          T = (p_timer P)\<lparr>ticks := now\<rparr>;
          (Q, returned) = (if preempt_cb (p_timer P) \<noteq> 0 \<and> now mod PREEMPT_EVERY = 0
            then PreemptiveYield now (P\<lparr>p_if := False, irq0_busy := True\<rparr>)
            else (P\<lparr>p_if := False, irq0_busy := True\<rparr>, True))
      in if returned then isr_return (Q\<lparr>p_timer := T\<rparr>) else Q\<lparr>p_timer := T\<rparr>)"
  by (simp add: timer_interrupt_def Timer_Handler_def Let_def split: prod.splits)

lemma preempt_ok_boot:
  assumes "sched_ok S" "current S = 0" "preempt_cb T \<noteq> 0"
  shows "preempt_ok (preempt_boot T S)"
  using assms by (auto simp: preempt_ok_def preempt_boot_def isr_tasks_def nth_list_update)

lemma preempt_ok_tick:
  assumes "preempt_ok P" "p_if P"
  shows "preempt_ok (timer_interrupt P)"
proof -
  have ok: "sched_ok (p_sched P)" and l: "length (p_susp P) = 8"
    and r: "\<And>i. i < 8 \<Longrightarrow> p_susp P ! i = Running \<longleftrightarrow> i = current (p_sched P)"
    and f: "in_preempt P = (\<not> p_if P)" "irq0_busy P = (\<not> p_if P)" "preempt_cb (p_timer P) \<noteq> 0" "isr_tasks P = {}"
    using assms by (auto simp: preempt_ok_def)
  have cur: "current (p_sched P) < 8" using sched_ok_sel(1) [OF ok] .
  let ?now = "ticks (p_timer P) + 1" and ?P = "P\<lparr>p_if := False, irq0_busy := True\<rparr>"
    and ?T = "(p_timer P)\<lparr>ticks := ticks (p_timer P) + 1\<rparr>"
  have cu: "current (p_sched P) \<in> used_slots (p_sched P)" using ok by (simp add: sched_ok_def)
  have T: "preempt_cb ?T \<noteq> 0" using f(3) by simp
  have none: "preempt_ok (isr_return (?P\<lparr>p_timer := ?T\<rparr>))"
    using assms T by (auto simp: preempt_ok_def isr_return_def isr_tasks_def)
  show ?thesis
  proof (cases "?now mod PREEMPT_EVERY = 0")
    case False
    with none f(3) show ?thesis by (simp add: timer_interrupt_eq Let_def)
  next
    case True
    have E: "timer_interrupt P = (case PreemptiveYield ?now ?P of (Q, returned) \<Rightarrow>
        if returned then isr_return (Q\<lparr>p_timer := ?T\<rparr>) else Q\<lparr>p_timer := ?T\<rparr>)"
      using True f(3) by (simp add: timer_interrupt_eq Let_def)
    have en: "sched_ready (p_sched ?P)" "\<not> in_preempt ?P" using sched_ok_sel(3) [OF ok] f(1) assms(2) by simp_all
    from ok show ?thesis
    proof (cases rule: Yield_result [of "p_sched P" ?now, case_names None Some])
      case (None S')
      then have "timer_interrupt P = isr_return (?P\<lparr>p_sched := S', in_preempt := False, p_timer := ?T\<rparr>)"
        using en E by (simp add: PreemptiveYield_def)
      with None l r f T show ?thesis by (auto simp: preempt_ok_def isr_return_def isr_tasks_def)
    next
      case (Some S' i)
      let ?Q = "switch_to InIsr (current (p_sched P)) i (?P\<lparr>in_preempt := True, p_sched := S'\<rparr>)"
      have Q: "timer_interrupt P = ?Q\<lparr>p_timer := ?T\<rparr>"
        using Some(1) en E by (simp add: PreemptiveYield_def)
      have it: "isr_tasks ?Q = {current (p_sched P)}"
        using isr_tasks_switch [of "?P\<lparr>in_preempt := True, p_sched := S'\<rparr>" "current (p_sched P)" i InIsr]
          l cur Some(5,6) f(4) by auto
      have ni: "p_susp P ! i \<noteq> InIsr" using f(4) Some(5) by (auto simp: isr_tasks_def)
      have run: "p_susp ?Q ! k = Running \<longleftrightarrow> k = i" if "k < 8" for k
        using that r [OF that] l Some(5,6) cur ni by (auto simp: switch_to_def Let_def nth_list_update)
      have sel: "p_sched ?Q = S'" "length (p_susp ?Q) = 8" "\<not> p_if ?Q" "in_preempt ?Q" "irq0_busy ?Q"
        using ni l by (simp_all add: switch_to_def Let_def)
      show ?thesis unfolding Q using run it sel Some(2-4) T cu by (simp add: preempt_ok_def)
    qed
  qed
qed

lemma preempt_ok_spawn:
  assumes ok: "preempt_ok P" and inv: "heap_inv M H"
    and sp: "Spawn entry name (M, H, p_sched P) = Some (r, M', H', S)"
  shows "preempt_ok (spawned r S P)" "heap_inv M' H'"
proof -
  have s: "sched_ok (p_sched P)" "current (p_sched P) \<in> used_slots (p_sched P)"
    using ok by (auto simp: preempt_ok_def sched_ok_def)
  have "preempt_ok (spawned r S P) \<and> heap_inv M' H'"
    using s(1) inv
  proof (cases rule: Spawn_cases [of _ _ _ entry name])
    case full
    with sp ok inv show ?thesis by (auto simp: spawned_def)
  next
    case (oom M1)
    with sp ok show ?thesis by (auto simp: spawned_def)
  next
    case (new slot stack M1 H1 t)
    have ne: "slot \<noteq> current (p_sched P)" using new(2) s(2) by blast
    have r: "r = int slot" "M' = M1" "H' = H1"
      "S = (p_sched P)\<lparr>tasks := (tasks (p_sched P))[slot := t], spawned_count := spawned_count (p_sched P) + 1\<rparr>"
      using sp new(4) by auto
    have nt: "slot \<notin> isr_tasks P" using ok new(2) by (auto simp: preempt_ok_def)
    have su: "p_susp (spawned r S P) = (p_susp P)[slot := Fresh]" by (simp add: spawned_def r)
    have it: "isr_tasks (spawned r S P) = isr_tasks P"
      using nt ok new(1) by (auto simp: isr_tasks_def su preempt_ok_def nth_list_update split: if_splits)
    have run: "p_susp (spawned r S P) ! k = Running \<longleftrightarrow> k = current (p_sched P)" if "k < 8" for k
      using that ok ne by (cases "k = slot") (auto simp: su preempt_ok_def)
    have sc: "p_sched (spawned r S P) = S" "current S = current (p_sched P)" "sched_ok S"
      "used_slots S = insert slot (used_slots (p_sched P))"
      using sched_ok_spawn [OF s(1) new(1,2,11,12,16)] by (simp_all add: spawned_def r)
    have fl: "p_if (spawned r S P) = p_if P" "in_preempt (spawned r S P) = in_preempt P"
      "irq0_busy (spawned r S P) = irq0_busy P" "p_timer (spawned r S P) = p_timer P"
      by (simp_all add: spawned_def)
    show ?thesis
      using ok new(5) run unfolding preempt_ok_def it sc(1) fl su r(2,3) sc(2,4)
      by (auto simp: sc(3))
  qed
  then show "preempt_ok (spawned r S P)" "heap_inv M' H'" by blast+
qed

lemma preempt_reach_ok: "preempt_reach M H P \<Longrightarrow> preempt_ok P \<and> heap_inv M H"
proof (induction rule: preempt_reach.induct)
  case (boot M H S0 cb T0 M' T S)
  have "heap_inv M' H"
    using Scheduler_Start_ok(6) [OF boot(4,2)] boot(1) by auto
  with preempt_ok_boot Scheduler_Start_ok(1,3,4) [OF boot(4,2)] boot(3) show ?case by simp
next
  case (yield M H P)
  then have "preempt_ok (P\<lparr>at_hlt := True\<rparr>)" by (simp add: preempt_ok_def)
  with preempt_ok_call(1) yield show ?case by (simp add: loop_yield_def)
next
  case (hlt M H P)
  then show ?case by (auto simp: loop_hlt_def preempt_ok_def)
next
  case (spawn M H P entry name r M' H' S)
  then have "preempt_ok P" "heap_inv M H" by simp_all
  from preempt_ok_spawn [OF this spawn(3)] show ?case by simp
next
  case (tick M H P)
  then show ?case using preempt_ok_tick by simp
next
  case (call M H P c)
  then show ?case using preempt_ok_call(1) by simp
qed

section \<open>A run of two tasks\<close>

definition two_ready :: "sched \<Rightarrow> bool" where
  "two_ready S \<longleftrightarrow> sched_ok S \<and> used_slots S = {0, 1}
     \<and> t_state (tasks S ! 0) = TASK_READY \<and> t_state (tasks S ! 1) = TASK_READY"

lemma two_ready_Yield:
  assumes "two_ready S"
  shows "\<exists>S'. Yield now S = (S', Some (current S, 1 - current S)) \<and> two_ready S' \<and> current S' = 1 - current S"
proof -
  have ok: "sched_ok S" and u: "used_slots S = {0, 1}" and r: "\<And>i. i \<in> {0, 1} \<Longrightarrow> t_state (tasks S ! i) = TASK_READY"
    using assms by (auto simp: two_ready_def)
  have cur: "current S \<in> {0, 1}" using ok u by (simp add: sched_ok_def)
  then have o: "1 - current S < 8" "1 - current S \<noteq> current S" "1 - current S \<in> {0, 1}" by auto
  have ro: "runnable now (tasks S ! (1 - current S))" using r [OF o(3)] by (simp add: runnable_def)
  show ?thesis
    using ok o(1) ro
  proof (cases rule: Yield_pick)
    case stay
    from stay(3) [OF o(1) ro] o(2) show ?thesis by simp
  next
    case (switch i)
    have "i \<in> {0, 1}" using sched_ok_sel(4) [OF ok switch(1,3)] u by simp
    with switch(2) cur have i: "i = 1 - current S" by auto
    have ok': "sched_ok (fst (Yield now S))" "used_slots (fst (Yield now S)) = {0, 1}"
      using Yield_ok [OF ok, of now] u by auto
    have "woken (tasks S ! i) = tasks S ! i" using r [of i] i o(3) by (simp add: woken_def)
    then have Y: "Yield now S = (S\<lparr>tasks := (tasks S)[current S := (tasks S ! current S)
        \<lparr>t_yields := t_yields (tasks S ! current S) + 1\<rparr>], current := i\<rparr>, Some (current S, i))"
      using switch(5) by simp
    have "t_state (tasks (fst (Yield now S)) ! k) = TASK_READY" if "k \<in> {0, 1}" for k
      using r [OF that] sched_ok_sel(1,2) [OF ok] unfolding Y
      by (cases "k = current S") simp_all
    then have "two_ready (fst (Yield now S))" using ok' by (simp add: two_ready_def)
    then show ?thesis using Y i by (intro exI [of _ "fst (Yield now S)"]) simp
  qed
qed

lemma boot_alloc_stack:
  assumes "heap_ok M H [(2 ^ 22 - 16, False)]"
  shows "\<exists>p M1 H1. Heap_Alloc STACK_SIZE M H = Some (p, M1, H1) \<and> p \<noteq> 0"
proof -
  have r: "Heap_Round STACK_SIZE = 4096" by (simp add: Heap_Round_def STACK_SIZE_def)
  show ?thesis
    by (rule Heap_Alloc_cases [OF assms, of STACK_SIZE]) (auto simp: r alloc_blks_def carve_def HDR_def)
qed

lemma not_full: "{0 :: nat} \<noteq> {0..<8}"
proof
  assume e: "{0 :: nat} = {0..<8}"
  have "(1 :: nat) \<in> {0..<8}" by simp
  then have "(1 :: nat) \<in> {0}" unfolding e [symmetric] .
  then show False by simp
qed

lemma boot_spawn:
  assumes "heap_ok M H [(2 ^ 22 - 16, False)]" "sched_ok S" "used_slots S = {0}" "t_state (tasks S ! 0) = TASK_READY"
  shows "\<exists>M' H' S'. Spawn entry name (M, H, S) = Some (1, M', H', S') \<and> two_ready S' \<and> current S' = current S"
  using assms(2) heap_okI [OF assms(1), THEN conjunct1]
proof (cases rule: Spawn_cases [of _ _ _ entry name])
  case full
  with assms(3) not_full show ?thesis by simp
next
  case (oom M1)
  obtain slot where "find_slot (tasks S) = Some slot"
    using find_slot_None [of S] not_full
    unfolding assms(3) by blast
  moreover from boot_alloc_stack [OF assms(1)] obtain p M2 H2 where "Heap_Alloc STACK_SIZE M H = Some (p, M2, H2)" "p \<noteq> 0"
    by blast
  ultimately show ?thesis using oom(1) sched_ok_sel(3) [OF assms(2)] by (simp add: Spawn_def Let_def)
next
  case (new slot stack M1 H1 t)
  have s: "slot = 1"
  proof (rule ccontr)
    assume "slot \<noteq> 1"
    with new(2) assms(3) have "1 < slot" by (cases "slot = 0") auto
    with new(3) assms(3) show False by auto
  qed
  let ?S = "S\<lparr>tasks := (tasks S)[slot := t], spawned_count := spawned_count S + 1\<rparr>"
  have "sched_ok ?S" "used_slots ?S = {0, 1}"
    using sched_ok_spawn [OF assms(2) new(1,2,11,12,16)] unfolding s assms(3) by (simp_all add: insert_commute)
  moreover have "t_state (tasks ?S ! 0) = TASK_READY" "t_state (tasks ?S ! 1) = TASK_READY"
    using assms(4) new(11) sched_ok_sel(2) [OF assms(2)] by (simp_all add: s)
  ultimately have "two_ready ?S" unfolding two_ready_def by blast
  with new(4) s show ?thesis by simp
qed

section \<open>Giving the processor back\<close>

lemma p_sched_switch [simp]:
  "p_sched (switch_to mark prev nxt P) = p_sched P" "p_timer (switch_to mark prev nxt P) = p_timer P"
  "p_dead (switch_to mark prev nxt P) = p_dead P" "at_hlt (switch_to mark prev nxt P) = at_hlt P"
  by (simp_all add: switch_to_def isr_return_def Let_def)

lemma quiet_tick:
  assumes "preempt_ok P" "p_if P" "(ticks (p_timer P) + 1) mod PREEMPT_EVERY \<noteq> 0"
  shows "timer_interrupt P = P\<lparr>p_timer := (p_timer P)\<lparr>ticks := ticks (p_timer P) + 1\<rparr>\<rparr>"
  using assms by (cases P) (simp add: timer_interrupt_eq Let_def isr_return_def preempt_ok_def)

section \<open>The kernel's own task\<close>

text \<open>Task 0 is ready at all times, so the round robin that starts behind any other task comes to it
  before it comes back to that task.\<close>

lemma Yield_ready0:
  assumes "sched_ok S" "t_state (tasks S ! 0) = TASK_READY"
  shows "t_state (tasks (fst (Yield now S)) ! 0) = TASK_READY"
proof -
  have r: "runnable now (tasks S ! 0)" using assms(2) by (simp add: runnable_def)
  show ?thesis
    using assms(1) zero_less_numeral r
    by (cases rule: Yield_pick) (use assms(2) in \<open>simp_all add: nth_list_update woken_def sched_ok_sel [OF assms(1)]\<close>)
qed

lemma Yield_towards0:
  assumes "sched_ok S" "t_state (tasks S ! 0) = TASK_READY" "current S \<noteq> 0"
  shows "current (fst (Yield now S)) = 0 \<or> current S < current (fst (Yield now S))"
proof -
  have r: "runnable now (tasks S ! 0)" using assms(2) by (simp add: runnable_def)
  show ?thesis
    using assms(1) zero_less_numeral r
  proof (cases rule: Yield_pick)
    case stay
    from stay(3) [OF zero_less_numeral r] assms(3) show ?thesis by simp
  next
    case (switch i)
    from switch(4) [OF zero_less_numeral r] sched_ok_sel(1) [OF assms(1)] assms(3) switch(1,2)
    have "i = 0 \<or> current S < i" by (auto simp: slot_dist_def MAX_TASKS_def split: if_splits)
    with switch(5) show ?thesis by simp
  qed
qed

lemma call_towards0:
  assumes "sched_ok S" "t_state (tasks S ! 0) = TASK_READY" "current S \<noteq> 0"
  shows "t_state (tasks (fst (call_sched c now S)) ! 0) = TASK_READY"
    "current (fst (call_sched c now S)) = 0 \<or> current S < current (fst (call_sched c now S))"
proof -
  have "\<exists>S0. fst (call_sched c now S) = fst (Yield now S0) \<and> sched_ok S0
    \<and> t_state (tasks S0 ! 0) = TASK_READY \<and> current S0 = current S"
  proof (cases c)
    case CYield
    with assms show ?thesis by (intro exI [of _ S]) simp
  next
    case (CSleep ms)
    note m = sleep_mark_ok(1,3) [OF assms(1), where now = now and ms = ms]
    have "t_state (tasks (sleep_mark now ms S) ! 0) = TASK_READY" using assms(2,3) by (simp add: sleep_mark_def)
    with m CSleep Sleep_Yield sched_ok_sel(3) [OF assms(1)] show ?thesis
      by (intro exI [of _ "sleep_mark now ms S"]) simp
  qed
  then obtain S0 where S0: "fst (call_sched c now S) = fst (Yield now S0)" "sched_ok S0"
    "t_state (tasks S0 ! 0) = TASK_READY" "current S0 = current S" by blast
  show "t_state (tasks (fst (call_sched c now S)) ! 0) = TASK_READY"
    using Yield_ready0 [OF S0(2,3)] by (simp add: S0(1))
  show "current (fst (call_sched c now S)) = 0 \<or> current S < current (fst (call_sched c now S))"
    using Yield_towards0 [OF S0(2,3), of now] assms(3) by (simp add: S0(1,4))
qed

text \<open>Task 0 stops only behind the Yield of its loop or inside the interrupt.  As long as another task
  is suspended inside the interrupt, the processor is with a task behind that one in slot order, or
  with task 0 at its \<open>hlt\<close>.\<close>

definition task0_ok :: "psys \<Rightarrow> bool" where
  "task0_ok P \<longleftrightarrow> t_state (tasks (p_sched P) ! 0) = TASK_READY \<and> p_susp P ! 0 \<noteq> Fresh
     \<and> (p_susp P ! 0 = Coop \<longrightarrow> at_hlt P)
     \<and> (\<forall>i \<in> isr_tasks P. i = 0 \<or> i < current (p_sched P) \<or> current (p_sched P) = 0 \<and> at_hlt P)"

lemma task0_switch:
  assumes ok: "sched_ok (p_sched P)" and l: "length (p_susp P) = 8" and c: "c < 8" "c \<notin> isr_tasks P"
    and i: "i < 8" "i \<noteq> c" "current (p_sched P) = i"
    and t: "t_state (tasks (p_sched P) ! 0) = TASK_READY" "p_susp P ! 0 \<noteq> Fresh" "p_susp P ! 0 = Coop \<longrightarrow> at_hlt P"
    and r: "p_susp P ! 0 = Running \<longleftrightarrow> c = 0" and m: "mark = InIsr \<or> mark = Coop \<and> (c = 0 \<longrightarrow> at_hlt P)"
    and o: "c \<noteq> 0 \<longrightarrow> i = 0 \<or> c < i"
    and js: "\<And>j. j \<in> isr_tasks P \<Longrightarrow> isr_tasks P = {j} \<and> mark = Coop \<and> c \<noteq> 0 \<and> (j = 0 \<or> j < c)"
  shows "task0_ok (switch_to mark c i P)"
proof -
  have it: "isr_tasks (switch_to mark c i P) = (if mark = InIsr then insert c (isr_tasks P) else isr_tasks P) - {i}"
    using isr_tasks_switch l c i by auto
  have su: "p_susp (switch_to mark c i P) ! 0 = (if i = 0 then Running else if c = 0 then mark else p_susp P ! 0)"
    using l i by (auto simp: switch_to_def isr_return_def Let_def nth_list_update)
  have hlt: "at_hlt P" if "i = 0" "0 \<notin> isr_tasks P"
  proof -
    have "p_susp P ! 0 \<noteq> InIsr" using that(2) by (simp add: isr_tasks_def)
    with t(2,3) r that(1) i(2) show ?thesis by (cases "p_susp P ! 0") auto
  qed
  have "j = 0 \<or> j < i \<or> i = 0 \<and> at_hlt P" if "j \<in> isr_tasks (switch_to mark c i P)" for j
  proof (cases "j \<in> isr_tasks P")
    case True
    from js [OF True] have j: "isr_tasks P = {j}" "c \<noteq> 0" "j = 0 \<or> j < c" by simp_all
    with hlt o show ?thesis by auto
  next
    case False
    with that it have j: "mark = InIsr" "j = c" by (auto split: if_splits)
    with js have "isr_tasks P = {}" by auto
    with hlt o j show ?thesis by auto
  qed
  with t m su show ?thesis by (auto simp: task0_ok_def i(3))
qed

lemma task0_ok_upd [simp]:
  "task0_ok (P\<lparr>p_timer := T\<rparr>) = task0_ok P" "task0_ok (P\<lparr>p_dead := b\<rparr>) = task0_ok P"
  "task0_ok (P\<lparr>p_if := b\<rparr>) = task0_ok P" "task0_ok (P\<lparr>irq0_busy := b\<rparr>) = task0_ok P"
  "task0_ok (P\<lparr>in_preempt := b\<rparr>) = task0_ok P" "task0_ok (isr_return P) = task0_ok P"
  by (simp_all add: task0_ok_def isr_return_def)

lemma preempt_ok_sel:
  assumes "preempt_ok P"
  shows "sched_ok (p_sched P)" "length (p_susp P) = 8" "p_susp P ! 0 = Running \<longleftrightarrow> current (p_sched P) = 0"
    "current (p_sched P) < 8" "current (p_sched P) \<notin> isr_tasks P" "i \<in> isr_tasks P \<Longrightarrow> isr_tasks P = {i}"
    "p_if P \<longleftrightarrow> isr_tasks P = {}"
proof -
  show o: "sched_ok (p_sched P)" "length (p_susp P) = 8" using assms by (simp_all add: preempt_ok_def)
  show c: "current (p_sched P) < 8" by (rule sched_ok_sel(1) [OF o(1)])
  show "p_susp P ! 0 = Running \<longleftrightarrow> current (p_sched P) = 0" using assms by (auto simp: preempt_ok_def)
  show "current (p_sched P) \<notin> isr_tasks P" using assms c by (auto simp: preempt_ok_def isr_tasks_def)
  show "i \<in> isr_tasks P \<Longrightarrow> isr_tasks P = {i}" "p_if P \<longleftrightarrow> isr_tasks P = {}"
    using assms by (auto simp: preempt_ok_def split: if_splits)
qed

lemma task0_call:
  assumes "preempt_ok P" "task0_ok P" "current (p_sched P) = 0 \<longrightarrow> at_hlt P \<and> c = CYield \<and> isr_tasks P = {}"
  shows "task0_ok (task_call c P)"
proof -
  note ok = preempt_ok_sel [OF assms(1)]
  have t: "t_state (tasks (p_sched P) ! 0) = TASK_READY" "p_susp P ! 0 \<noteq> Fresh" "p_susp P ! 0 = Coop \<longrightarrow> at_hlt P"
    "\<And>i. i \<in> isr_tasks P \<Longrightarrow> i = 0 \<or> i < current (p_sched P) \<or> current (p_sched P) = 0 \<and> at_hlt P"
    using assms(2) by (auto simp: task0_ok_def)
  let ?now = "ticks (p_timer P)"
  have rdy: "t_state (tasks (fst (call_sched c ?now (p_sched P))) ! 0) = TASK_READY"
    using Yield_ready0 [OF ok(1) t(1)] call_towards0(1) [OF ok(1) t(1)] assms(3)
    by (cases "current (p_sched P) = 0") simp_all
  have tow: "current (p_sched P) \<noteq> 0 \<longrightarrow> current (fst (call_sched c ?now (p_sched P))) = 0
      \<or> current (p_sched P) < current (fst (call_sched c ?now (p_sched P)))"
    using call_towards0(2) [OF ok(1) t(1)] by blast
  show ?thesis
    using ok(1)
  proof (cases rule: call_result [of _ c ?now, case_names None Some])
    case (None S')
    with rdy t show ?thesis by (simp add: task_call_def task0_ok_def)
  next
    case (Some S' i)
    let ?P = "P\<lparr>p_sched := S'\<rparr>"
    have "task0_ok (switch_to Coop (current (p_sched P)) i ?P)"
    proof (rule task0_switch)
      show "current (p_sched P) \<noteq> 0 \<longrightarrow> i = 0 \<or> current (p_sched P) < i" using tow Some(1,4) by simp
      show "isr_tasks ?P = {j} \<and> Coop = Coop \<and> current (p_sched P) \<noteq> 0 \<and> (j = 0 \<or> j < current (p_sched P))"
        if "j \<in> isr_tasks ?P" for j
      proof -
        from that have j: "j \<in> isr_tasks P" by simp
        with assms(3) have "current (p_sched P) \<noteq> 0" by auto
        with t(4) [OF j] ok(6) [OF j] show ?thesis by simp
      qed
    qed (use Some ok rdy t assms(3) in simp_all)
    with Some(1) show ?thesis by (simp add: task_call_def)
  qed
qed

lemma task0_tick:
  assumes "preempt_ok P" "task0_ok P" "p_if P"
  shows "task0_ok (timer_interrupt P)"
proof -
  note ok = preempt_ok_sel [OF assms(1)]
  have t: "t_state (tasks (p_sched P) ! 0) = TASK_READY" "p_susp P ! 0 \<noteq> Fresh" "p_susp P ! 0 = Coop \<longrightarrow> at_hlt P"
    using assms(2) by (auto simp: task0_ok_def)
  have n: "isr_tasks P = {}" using ok(7) assms(3) by blast
  let ?now = "ticks (p_timer P) + 1" and ?P = "P\<lparr>p_if := False, irq0_busy := True\<rparr>"
  have rdy: "t_state (tasks (fst (Yield ?now (p_sched P))) ! 0) = TASK_READY" by (rule Yield_ready0 [OF ok(1) t(1)])
  have en: "sched_ready (p_sched ?P)" "\<not> in_preempt ?P" "preempt_cb (p_timer P) \<noteq> 0"
    using sched_ok_sel(3) [OF ok(1)] assms(1,3) by (simp_all add: preempt_ok_def)
  show ?thesis
  proof (cases "?now mod PREEMPT_EVERY = 0")
    case False
    with assms(2) show ?thesis by (simp add: timer_interrupt_eq Let_def)
  next
    case True
    have E: "timer_interrupt P = (case PreemptiveYield ?now ?P of (Q, returned) \<Rightarrow>
        if returned then isr_return (Q\<lparr>p_timer := (p_timer P)\<lparr>ticks := ?now\<rparr>\<rparr>)
        else Q\<lparr>p_timer := (p_timer P)\<lparr>ticks := ?now\<rparr>\<rparr>)"
      using True en(3) by (simp add: timer_interrupt_eq Let_def)
    show ?thesis
      using ok(1)
    proof (cases rule: Yield_result [of _ ?now, case_names None Some])
      case (None S')
      with en E rdy t n show ?thesis by (simp add: PreemptiveYield_def task0_ok_def isr_return_def)
    next
      case (Some S' i)
      let ?Q = "?P\<lparr>in_preempt := True, p_sched := S'\<rparr>"
      have "current (p_sched P) \<noteq> 0 \<longrightarrow> i = 0 \<or> current (p_sched P) < i"
        using Yield_towards0 [OF ok(1) t(1), of ?now] Some(1,4) by simp
      then have "task0_ok (switch_to InIsr (current (p_sched P)) i ?Q)"
        by (intro task0_switch) (use Some ok rdy t n in simp_all)
      with en E Some(1) show ?thesis by (simp add: PreemptiveYield_def)
    qed
  qed
qed

lemma task0_spawn:
  assumes "preempt_ok P" "task0_ok P" "heap_inv M H" "Spawn entry name (M, H, p_sched P) = Some (r, M', H', S)"
  shows "task0_ok (spawned r S P)"
proof -
  note ok = preempt_ok_sel [OF assms(1)]
  have u0: "0 \<in> used_slots (p_sched P)" using assms(2) by (simp add: task0_ok_def used_slots_def)
  show ?thesis
    using ok(1) assms(3)
  proof (cases rule: Spawn_cases [of _ _ _ entry name])
    case (new slot stack M1 H1 t)
    have ne: "slot \<noteq> 0" using new(2) u0 by (cases slot) auto
    have r: "r = int slot"
      "S = (p_sched P)\<lparr>tasks := (tasks (p_sched P))[slot := t], spawned_count := spawned_count (p_sched P) + 1\<rparr>"
      using assms(4) new(4) by auto
    have "isr_tasks (spawned r S P) \<subseteq> isr_tasks P"
      using ok(2) new(1) by (auto simp: isr_tasks_def spawned_def r(1) nth_list_update split: if_splits)
    then show ?thesis using assms(2) ne by (auto simp: task0_ok_def spawned_def r)
  qed (use assms(2,4) in \<open>auto simp: task0_ok_def spawned_def isr_tasks_def\<close>)
qed

lemma preempt_reach_task0: "preempt_reach M H P \<Longrightarrow> task0_ok P"
proof (induction rule: preempt_reach.induct)
  case (boot M H S0 cb T0 M' T S)
  have "t_state (tasks S ! 0) = TASK_READY" using boot(2,4) by (auto simp: Scheduler_Start_def Let_def)
  then show ?case by (auto simp: task0_ok_def preempt_boot_def isr_tasks_def nth_list_update split: if_splits)
next
  case (tick M H P)
  have ok: "preempt_ok P" using preempt_reach_ok [OF tick(1)] by blast
  show ?case by (rule task0_tick [OF ok tick(5,3)])
next
  case (yield M H P)
  have ok: "preempt_ok P" using preempt_reach_ok [OF yield(1)] by blast
  from yield(3-5) preempt_ok_sel(5) [OF ok] have n: "isr_tasks P = {}" by (auto simp: task0_ok_def)
  have "preempt_ok (P\<lparr>at_hlt := True\<rparr>)" using ok by (simp add: preempt_ok_def)
  moreover have "task0_ok (P\<lparr>at_hlt := True\<rparr>)" using yield(5) n by (simp add: task0_ok_def)
  ultimately show ?case unfolding loop_yield_def by (rule task0_call) (simp add: n)
next
  case (hlt M H P)
  have ok: "preempt_ok P" using preempt_reach_ok [OF hlt(1)] by blast
  show ?case
  proof (cases "p_if P")
    case True
    then have n: "isr_tasks P = {}" using preempt_ok_sel(7) [OF ok] by blast
    have "p_susp P ! 0 = Running" using preempt_ok_sel(3) [OF ok] hlt(3) by blast
    with True n hlt(5) show ?thesis by (simp add: loop_hlt_def task0_ok_def)
  next
    case False
    with hlt(5) show ?thesis by (simp add: loop_hlt_def)
  qed
next
  case (call M H P c)
  have ok: "preempt_ok P" using preempt_reach_ok [OF call(1)] by blast
  show ?case by (rule task0_call [OF ok call(4)]) (use call(3) in simp)
next
  case (spawn M H P entry name r M' H' S)
  have ok: "preempt_ok P" "heap_inv M H" using preempt_reach_ok [OF spawn(1)] by blast+
  show ?case by (rule task0_spawn [OF ok(1) spawn(4) ok(2) spawn(3)])
qed

section \<open>Runs of the flows\<close>

lemma task_call_sched:
  "p_sched (task_call c P) = fst (call_sched c (ticks (p_timer P)) (p_sched P))" "p_dead (task_call c P) = p_dead P"
  unfolding task_call_def by (simp_all split: prod.splits option.splits)

text \<open>With one task suspended inside the interrupt, the calls of the others lead to task 0.\<close>

lemma flow_call:
  assumes "preempt_reach M H P" "\<not> p_dead P" "isr_tasks P = {i}" "current (p_sched P) \<noteq> 0"
  shows "preempt_reach M H (task_call c P)" "\<not> p_dead (task_call c P)"
    "current (p_sched (task_call c P)) = 0 \<or> current (p_sched P) < current (p_sched (task_call c P))"
    "p_if (task_call c P) \<longleftrightarrow> current (p_sched (task_call c P)) = i"
    "\<not> p_if (task_call c P) \<Longrightarrow> isr_tasks (task_call c P) = {i}"
    "i \<noteq> 0 \<Longrightarrow> i < current (p_sched P)"
proof -
  have ok: "preempt_ok P" and t: "task0_ok P"
    using preempt_reach_ok [OF assms(1)] preempt_reach_task0 [OF assms(1)] by blast+
  note call = preempt_ok_call(2,3) [OF ok, of c]
  have n: "\<not> p_if P" using preempt_ok_sel(7) [OF ok] assms(3) by blast
  show "preempt_reach M H (task_call c P)" by (rule preempt_reach.call [OF assms(1,2,4)])
  show "\<not> p_dead (task_call c P)" using assms(2) by (simp add: task_call_sched)
  show "current (p_sched (task_call c P)) = 0 \<or> current (p_sched P) < current (p_sched (task_call c P))"
    using call_towards0(2) [OF preempt_ok_sel(1) [OF ok] _ assms(4)] t by (simp add: task_call_sched task0_ok_def)
  show "p_if (task_call c P) \<longleftrightarrow> current (p_sched (task_call c P)) = i" using call(1) n assms(3) by simp
  show "\<not> p_if (task_call c P) \<Longrightarrow> isr_tasks (task_call c P) = {i}" using call(2) n assms(3) by simp
  show "i \<noteq> 0 \<Longrightarrow> i < current (p_sched P)" using t assms(3,4) by (simp add: task0_ok_def)
qed

lemma flow_reaches:
  assumes "preempt_reach M H P" "\<not> p_dead P" "isr_tasks P = {i}" "current (p_sched P) \<noteq> 0"
    "8 - current (p_sched P) \<le> length cs"
  shows "\<exists>k Q. k \<le> 8 - current (p_sched P) \<and> Q = fold flow_step (take k cs) P \<and> preempt_reach M H Q \<and> \<not> p_dead Q
    \<and> current (p_sched Q) = 0 \<and> (if i = 0 then p_if Q else \<not> p_if Q \<and> isr_tasks Q = {i})"
  using assms
proof (induction cs arbitrary: P)
  case Nil
  have "preempt_ok P" using preempt_reach_ok [OF Nil(1)] by blast
  from preempt_ok_sel(4) [OF this] Nil(5) show ?case by simp
next
  case (Cons c cs)
  let ?P = "task_call c P"
  have f: "flow_step c P = ?P" using Cons.prems(4) by (simp add: flow_step_def)
  have b: "current (p_sched P) < 8" using preempt_ok_sel(4) preempt_reach_ok [OF Cons.prems(1)] by blast
  note call = flow_call(1-5) [OF Cons.prems(1-4), of c] flow_call(6) [OF Cons.prems(1-4)]
  show ?case
  proof (cases "current (p_sched ?P) = 0")
    case True
    moreover have "1 \<le> 8 - current (p_sched P)" using b by simp
    ultimately show ?thesis using call(1,2,4,5)
      by (intro exI [of _ 1] exI [of _ ?P]) (simp add: f)
  next
    case False
    then have lt: "current (p_sched P) < current (p_sched ?P)" using call(3) by simp
    have "current (p_sched ?P) \<noteq> i" using call(6) lt False by auto
    then have n: "isr_tasks ?P = {i}" using call(4,5) by simp
    have "8 - current (p_sched ?P) \<le> length cs" using Cons.prems(5) lt b by simp
    from Cons.IH [OF call(1,2) n False this] obtain k Q where
      k: "k \<le> 8 - current (p_sched ?P)" "Q = fold flow_step (take k cs) ?P" "preempt_reach M H Q" "\<not> p_dead Q"
      "current (p_sched Q) = 0" "if i = 0 then p_if Q else \<not> p_if Q \<and> isr_tasks Q = {i}" by blast
    have "Suc k \<le> 8 - current (p_sched P)" using k(1) lt b by simp
    with k(2-) show ?thesis by (intro exI [of _ "Suc k"] exI [of _ Q]) (simp add: f)
  qed
qed

text \<open>Task 0 with interrupts off dies at its \<open>hlt\<close>.\<close>

lemma flow_dies:
  assumes "preempt_reach M H P" "\<not> p_dead P" "isr_tasks P = {i}" "i \<noteq> 0" "current (p_sched P) = 0"
  shows "preempt_reach M H (flow_step c P)" "p_dead (flow_step c P)" "\<not> p_if (flow_step c P)"
    "current (p_sched (flow_step c P)) = 0" "isr_tasks (flow_step c P) = {i}"
proof -
  have ok: "preempt_ok P" and t: "task0_ok P"
    using preempt_reach_ok [OF assms(1)] preempt_reach_task0 [OF assms(1)] by blast+
  have n: "\<not> p_if P" using preempt_ok_sel(7) [OF ok] assms(3) by blast
  have h: "at_hlt P" using t assms(3-5) by (simp add: task0_ok_def)
  then have f: "flow_step c P = loop_hlt P" using assms(5) by (simp add: flow_step_def)
  show "preempt_reach M H (flow_step c P)" unfolding f by (rule preempt_reach.hlt [OF assms(1,2,5) h])
  show "p_dead (flow_step c P)" "\<not> p_if (flow_step c P)" "current (p_sched (flow_step c P)) = 0"
    "isr_tasks (flow_step c P) = {i}" using n assms(3,5) by (simp_all add: f loop_hlt_def)
qed

section \<open>Properties\<close>

text \<open>C10: in every reachable state the preemption guard is set, the timer line is in service and the
  interrupt flag is off exactly together, and then exactly one task is suspended inside the
  interrupt.  So after a preemptive switch no further tick is taken (the system is cooperative, and
  every device interrupt waits) until that one task is given the processor back by a call.\<close>

theorem preempt_window:
  assumes "preempt_reach M H P"
  shows "in_preempt P = (\<not> p_if P) \<and> irq0_busy P = (\<not> p_if P)
    \<and> card (isr_tasks P) = (if p_if P then 0 else 1)
    \<and> (\<forall>c. p_if (task_call c P) = (p_if P \<or> current (p_sched (task_call c P)) \<in> isr_tasks P))"
proof -
  have ok: "preempt_ok P" using preempt_reach_ok [OF assms] by blast
  then have "card (isr_tasks P) = (if p_if P then 0 else 1)" by (auto simp: preempt_ok_def)
  with ok preempt_ok_call(2) [OF ok] show ?thesis by (auto simp: preempt_ok_def)
qed

lemma boot_preempt:
  obtains M H T S where "heap_ok M H [(2 ^ 22 - 16, False)]" "preempt_reach M H (preempt_boot T S)"
    "sched_ok S" "used_slots S = {0}" "t_state (tasks S ! 0) = TASK_READY" "current S = 0" "ticks T = 0"
proof -
  obtain M T S where s: "Scheduler_Start 0x104000 (fst boot_heap, timer0, sched0) = (M, T, S)"
    by (cases "Scheduler_Start 0x104000 (fst boot_heap, timer0, sched0)")
  have l: "length (tasks sched0) = 8" by (simp add: sched0_def)
  from Scheduler_Start_ok(6) [OF s l] obtain l' where M: "M = fst boot_heap\<lparr>klog := l'\<rparr>" by blast
  have "heap_ok (fst boot_heap\<lparr>klog := l'\<rparr>) H bs = heap_ok (fst boot_heap) H bs" for H bs
    by (simp add: heap_ok_def)
  with boot_heap_ok M have "heap_ok M (snd boot_heap) [(2 ^ 22 - 16, False)]" by simp
  moreover have "preempt_reach M (snd boot_heap) (preempt_boot T S)"
    by (rule preempt_reach.boot [OF boot_heap_inv l _ s]) simp
  moreover have "t_state (tasks S ! 0) = TASK_READY" "ticks T = 0"
    using s l by (auto simp: Scheduler_Start_def Let_def RegisterPreemptCallback_def timer0_def)
  ultimately show thesis using that Scheduler_Start_ok(1,2,4) [OF s l] by blast
qed

theorem preempt_window_witness:
  "\<exists>M H P. preempt_reach M H P \<and> p_if P \<and> \<not> in_preempt P"
proof (rule boot_preempt)
  fix M H T S
  assume "preempt_reach M H (preempt_boot T S)"
  with preempt_window [OF this] show ?thesis by (intro exI conjI) (auto simp: preempt_boot_def)
qed

text \<open>Four ticks after start-up do not switch, the fifth does.\<close>

lemma quiet_ticks:
  assumes "preempt_reach M H P" "\<not> p_dead P" "p_if P" "p_timer P = T" "ticks T = 0"
  shows "preempt_reach M H (P\<lparr>p_timer := T\<lparr>ticks := 4\<rparr>\<rparr>)"
proof -
  let ?Q = "\<lambda>n. P\<lparr>p_timer := T\<lparr>ticks := n\<rparr>\<rparr>"
  have nb: "\<not> irq0_busy P" using preempt_reach_ok [OF assms(1)] assms(3) by (simp add: preempt_ok_def)
  have q: "preempt_reach M H (?Q (n + 1))" if "preempt_reach M H (?Q n)" "(n + 1) mod PREEMPT_EVERY \<noteq> 0" for n
  proof -
    have "timer_interrupt (?Q n) = ?Q (n + 1)"
      using quiet_tick [of "?Q n"] preempt_reach_ok [OF that(1)] that(2) assms(3) by simp
    moreover have "preempt_reach M H (timer_interrupt (?Q n))"
      by (rule preempt_reach.tick [OF that(1)]) (simp_all add: assms(2,3) nb)
    ultimately show ?thesis by simp
  qed
  have "?Q 0 = P" using assms(4,5) by (cases P, cases T) simp
  then have "preempt_reach M H (?Q 0)" using assms(1) by simp
  from q [OF this] have "preempt_reach M H (?Q 1)" by (simp add: PREEMPT_EVERY_def)
  from q [OF this] have "preempt_reach M H (?Q 2)" by (simp add: PREEMPT_EVERY_def)
  from q [OF this] have "preempt_reach M H (?Q 3)" by (simp add: PREEMPT_EVERY_def)
  from q [OF this] show "preempt_reach M H (?Q 4)" by (simp add: PREEMPT_EVERY_def)
qed

lemma fifth_tick:
  assumes "preempt_reach M H (P\<lparr>p_timer := T\<lparr>ticks := 4\<rparr>\<rparr>)" "\<not> p_dead P" "p_if P"
    "Yield 5 (p_sched P) = (S', Some (prev, nxt))" "p_susp P ! nxt \<noteq> InIsr"
  shows "preempt_reach M H (P\<lparr>p_timer := T\<lparr>ticks := 5\<rparr>, p_sched := S',
    p_susp := (p_susp P)[prev := InIsr, nxt := Running], in_preempt := True, p_if := False, irq0_busy := True\<rparr>)"
proof -
  let ?Q = "P\<lparr>p_timer := T\<lparr>ticks := 4\<rparr>\<rparr>"
  have ok: "preempt_ok ?Q" using preempt_reach_ok [OF assms(1)] by blast
  then have f: "\<not> in_preempt P" "\<not> irq0_busy P" "preempt_cb T \<noteq> 0" "sched_ready (p_sched P)"
    using assms(3) sched_ok_sel(3) by (auto simp: preempt_ok_def)
  have "preempt_reach M H (timer_interrupt ?Q)"
    by (rule preempt_reach.tick [OF assms(1)]) (simp_all add: assms(2,3) f)
  moreover have "timer_interrupt ?Q = P\<lparr>p_timer := T\<lparr>ticks := 5\<rparr>, p_sched := S',
    p_susp := (p_susp P)[prev := InIsr, nxt := Running], in_preempt := True, p_if := False, irq0_busy := True\<rparr>"
    using f assms(4,5) by (cases P) (simp add: timer_interrupt_eq PREEMPT_EVERY_def PreemptiveYield_def switch_to_def Let_def)
  ultimately show ?thesis by simp
qed

lemma boot_with_task:
  obtains M H T S where "preempt_reach M H (spawned 1 S (preempt_boot T S0))" "two_ready S" "current S = 0"
    "ticks T = 0"
proof (rule boot_preempt)
  fix M H T S
  assume h: "heap_ok M H [(2 ^ 22 - 16, False)]" and r0: "preempt_reach M H (preempt_boot T S)"
    and S: "sched_ok S" "used_slots S = {0}" "t_state (tasks S ! 0) = TASK_READY" "current S = 0" and T: "ticks T = 0"
  from boot_spawn [OF h S(1-3), of "0x101234" "0x105000"] S(4) obtain M1 H1 S1 where
    sp: "Spawn 0x101234 0x105000 (M, H, S) = Some (1, M1, H1, S1)" "two_ready S1" "current S1 = 0" by auto
  have "p_sched (preempt_boot T S) = S" "\<not> p_dead (preempt_boot T S)" by (simp_all add: preempt_boot_def)
  with preempt_reach.spawn [OF r0] sp(1) have "preempt_reach M1 H1 (spawned 1 S1 (preempt_boot T S))" by simp
  moreover have "spawned 1 S1 (preempt_boot T S) = spawned 1 S1 (preempt_boot T S0)"
    by (simp add: spawned_def preempt_boot_def)
  ultimately show thesis using that sp(2,3) T by simp
qed

text \<open>The fifth tick comes before task 0 has called Yield: task 0 is the interrupted one.\<close>

lemma preempted_kernel:
  obtains M H P where "preempt_reach M H P" "\<not> p_dead P" "\<not> p_if P" "current (p_sched P) = 1" "0 \<in> isr_tasks P"
proof (rule boot_with_task [of sched0])
  fix M H T S
  let ?P = "spawned 1 S (preempt_boot T sched0)"
  assume r: "preempt_reach M H ?P" and S: "two_ready S" "current S = 0" and T: "ticks T = 0"
  have P: "?P = \<lparr>p_timer = T, p_sched = S, p_susp = Running # replicate 7 Fresh, in_preempt = False,
      p_if = True, irq0_busy = False, at_hlt = False, p_dead = False\<rparr>"
    by (simp add: spawned_def preempt_boot_def numeral_eq_Suc)
  obtain S' where y: "Yield 5 S = (S', Some (0, 1))" "current S' = 1"
    using two_ready_Yield [OF S(1), of 5] S(2) by auto
  have "preempt_reach M H (?P\<lparr>p_timer := T\<lparr>ticks := 4\<rparr>\<rparr>)" by (rule quiet_ticks [OF r]) (simp_all add: P T)
  from fifth_tick [OF this, of S' 0 1] y(1) have "preempt_reach M H (?P\<lparr>p_timer := T\<lparr>ticks := 5\<rparr>, p_sched := S',
    p_susp := (p_susp ?P)[0 := InIsr, 1 := Running], in_preempt := True, p_if := False, irq0_busy := True\<rparr>)"
    by (simp add: P)
  then show thesis by (rule that) (simp_all add: P y(2) isr_tasks_def)
qed

text \<open>Task 0 has called Yield before the fifth tick: task 1 is the interrupted one.\<close>

lemma preempted_loop:
  obtains M H P where "preempt_reach M H P" "\<not> p_dead P" "\<not> p_if P" "at_hlt P" "current (p_sched P) = 0"
    "two_ready (p_sched P)"
proof (rule boot_with_task [of sched0])
  fix M H T S
  let ?P = "spawned 1 S (preempt_boot T sched0)"
  assume r: "preempt_reach M H ?P" and S: "two_ready S" "current S = 0" and T: "ticks T = 0"
  obtain S2 where y: "Yield (ticks T) S = (S2, Some (0, 1))" "two_ready S2" "current S2 = 1"
    using two_ready_Yield [OF S(1), of "ticks T"] S(2) by auto
  let ?Q = "loop_yield ?P"
  have Q: "?Q = \<lparr>p_timer = T, p_sched = S2, p_susp = Coop # Running # replicate 6 Fresh, in_preempt = False,
      p_if = True, irq0_busy = False, at_hlt = True, p_dead = False\<rparr>"
    using y(1) by (simp add: loop_yield_def task_call_def spawned_def preempt_boot_def switch_to_def numeral_eq_Suc)
  have r2: "preempt_reach M H ?Q"
    by (rule preempt_reach.yield [OF r]) (simp_all add: spawned_def preempt_boot_def S(2))
  obtain S3 where y3: "Yield 5 S2 = (S3, Some (1, 0))" "two_ready S3" "current S3 = 0"
    using two_ready_Yield [OF y(2), of 5] y(3) by auto
  have "preempt_reach M H (?Q\<lparr>p_timer := T\<lparr>ticks := 4\<rparr>\<rparr>)" by (rule quiet_ticks [OF r2]) (simp_all add: Q T)
  from fifth_tick [OF this, of S3 1 0] y3(1) have "preempt_reach M H (?Q\<lparr>p_timer := T\<lparr>ticks := 5\<rparr>, p_sched := S3,
    p_susp := (p_susp ?Q)[1 := InIsr, 0 := Running], in_preempt := True, p_if := False, irq0_busy := True\<rparr>)"
    by (simp add: Q)
  then show thesis by (rule that) (simp_all add: Q y3)
qed

text \<open>C27: how a preemption ends.  When the interrupted task is task 0, it is resumed, with interrupts on
  again, after at most seven calls of Yield or Sleep by the tasks that run meanwhile, whatever these
  calls are.  When it is any other task, it is never resumed: within eight steps the round robin has
  come to task 0, which goes on behind the Yield of its loop with interrupts off, and its hlt stops
  the machine.\<close>

theorem preempt_ends:
  assumes "preempt_reach M H P" "\<not> p_dead P" "i \<in> isr_tasks P" "8 \<le> length cs"
  shows "\<exists>k Q. k \<le> (if i = 0 then 7 else 8) \<and> Q = fold flow_step (take k cs) P \<and> preempt_reach M H Q
    \<and> current (p_sched Q) = 0
    \<and> (if i = 0 then p_if Q \<and> \<not> p_dead Q else p_dead Q \<and> \<not> p_if Q \<and> isr_tasks Q = {i})"
proof -
  have ok: "preempt_ok P" using preempt_reach_ok [OF assms(1)] by blast
  have i: "isr_tasks P = {i}" by (rule preempt_ok_sel(6) [OF ok assms(3)])
  show ?thesis
  proof (cases "current (p_sched P) = 0")
    case True
    have z: "i \<noteq> 0" using preempt_ok_sel(5) [OF ok] True assms(3) by metis
    obtain c cs' where cs: "cs = c # cs'" using assms(4) by (cases cs) auto
    from flow_dies [OF assms(1,2) i z True, of c] z show ?thesis
      by (intro exI [of _ 1] exI [of _ "flow_step c P"]) (simp add: cs)
  next
    case False
    have "8 - current (p_sched P) \<le> length cs" using assms(4) by simp
    from flow_reaches [OF assms(1,2) i False this] obtain k Q where
      k: "k \<le> 8 - current (p_sched P)" "Q = fold flow_step (take k cs) P" "preempt_reach M H Q" "\<not> p_dead Q"
      "current (p_sched Q) = 0" "if i = 0 then p_if Q else \<not> p_if Q \<and> isr_tasks Q = {i}" by blast
    have k7: "k \<le> 7" using k(1) False by simp
    show ?thesis
    proof (cases "i = 0")
      case True
      with k k7 show ?thesis by (intro exI [of _ k] exI [of _ Q]) simp
    next
      case z: False
      with k(6) have n: "isr_tasks Q = {i}" by simp
      have "fold flow_step (take (Suc k) cs) P = flow_step (cs ! k) Q"
        using k(2) k7 assms(4) by (simp add: take_Suc_conv_app_nth)
      with flow_dies [OF k(3,4) n z k(5), of "cs ! k"] k7 z show ?thesis
        by (intro exI [of _ "Suc k"] exI [of _ "flow_step (cs ! k) Q"]) simp
    qed
  qed
qed

theorem preempt_ends_witness:
  "\<exists>M H P k Q. preempt_reach M H P \<and> \<not> p_if P \<and> current (p_sched P) = 1 \<and> k \<le> 7
     \<and> Q = fold flow_step (take k (replicate 8 CYield)) P \<and> current (p_sched Q) = 0 \<and> p_if Q"
proof (rule preempted_kernel)
  fix M H P
  assume r: "preempt_reach M H P" "\<not> p_dead P" "\<not> p_if P" "current (p_sched P) = 1" "0 \<in> isr_tasks P"
  have l: "8 \<le> length (replicate 8 CYield)" by simp
  from preempt_ends [OF r(1,2,5) l] obtain k Q where
    "k \<le> 7" "Q = fold flow_step (take k (replicate 8 CYield)) P" "current (p_sched Q) = 0" "p_if Q"
    unfolding if_P [OF refl] by blast
  with r show ?thesis by blast
qed

text \<open>C19: a preemptive switch can stop the machine for ever: there is a run with one background task, in
  which the tick that preempts it resumes task 0 behind the Yield of the idle loop with interrupts
  off, and the hlt that follows is never ended, although a task is ready.\<close>

theorem preempt_hang:
  "\<exists>M H P. preempt_reach M H P \<and> p_dead P \<and> \<not> p_if P \<and> current (p_sched P) = 0
     \<and> t_state (tasks (p_sched P) ! 1) = TASK_READY"
proof (rule preempted_loop)
  fix M H P
  assume r: "preempt_reach M H P" "\<not> p_dead P" "\<not> p_if P" "at_hlt P" "current (p_sched P) = 0"
    "two_ready (p_sched P)"
  from preempt_reach.hlt [OF r(1,2,5,4)] have "preempt_reach M H (loop_hlt P)" .
  with r show ?thesis
    by (intro exI [of _ M] exI [of _ H] exI [of _ "loop_hlt P"]) (simp add: loop_hlt_def two_ready_def)
qed

end
