(* ===== verification/Shell.thy ===== *)
theory Shell
  imports Screen Keyboard
begin

text \<open>
  \<open>Applications::Shell\<close> (src/src/src/classes/shell.class.h): five scrolling terminals, a header, a
  status bar and a prompt, each kept in an array of cells and copied to video memory by
  \<open>UpdateScreen\<close>.  The members are grouped into colours, layout and state.  An access outside one
  of the arrays is \<open>None\<close>.  Positions are \<open>nat\<close>; the code keeps them in 16 and 32 bits, and none
  exceeds 3000.
\<close>

section \<open>State\<close>

record shell_colours =
  header_color :: u8
  header_color_tab_active :: u8
  header_color_tab_inactive :: u8
  status_color :: u8
  terminal_color :: u8
  terminal_color_echo :: u8
  terminal_color_box :: u8
  terminal_color_highlight :: u8
  footer_color :: u8

record shell_layout =
  header_starting_point :: nat
  status_starting_point :: nat
  content_starting_point :: nat
  footer_starting_point :: nat
  header_size :: nat
  status_size :: nat
  content_size :: nat
  footer_size :: nat
  terminal_header_width :: nat
  terminal_header_height :: nat
  terminal_content_width :: nat
  terminal_content_height :: nat
  terminal_footer_width :: nat
  terminal_footer_height :: nat
  screen_width :: nat
  screen_height :: nat

text \<open>The arrays hold 80, 160, 2000 and 10 times 3000 elements; a terminal cell is pointer sized.\<close>

record shell =
  colours :: shell_colours
  layout :: shell_layout
  screen :: u32
  terminal_screen_header :: "u16 list"
  terminal_screen_status :: "u16 list"
  terminal_screen_footer :: "u16 list"
  terminal_screens :: "u32 list list"
  current_terminal :: nat
  header_current_x :: nat
  header_current_y :: nat
  content_current_x :: nat
  content_current_y :: nat
  footer_current_x :: nat

section \<open>Checked arrays and loops\<close>

definition aget :: "'a list \<Rightarrow> nat \<Rightarrow> 'a option" where
  "aget xs i = (if i < length xs then Some (xs ! i) else None)"

definition aset :: "nat \<Rightarrow> 'a \<Rightarrow> 'a list \<Rightarrow> 'a list option" where
  "aset i v xs = (if i < length xs then Some (xs[i := v]) else None)"

fun for_each :: "('i \<Rightarrow> 's \<Rightarrow> 's option) \<Rightarrow> 'i list \<Rightarrow> 's \<Rightarrow> 's option" where
  "for_each f [] s = Some s"
| "for_each f (i # is) s = do { s' \<leftarrow> f i s; for_each f is s' }"

definition set_header :: "nat \<Rightarrow> u16 \<Rightarrow> shell \<Rightarrow> shell option" where
  "set_header i v S = map_option (\<lambda>xs. S\<lparr>terminal_screen_header := xs\<rparr>) (aset i v (terminal_screen_header S))"

definition set_status :: "nat \<Rightarrow> u16 \<Rightarrow> shell \<Rightarrow> shell option" where
  "set_status i v S = map_option (\<lambda>xs. S\<lparr>terminal_screen_status := xs\<rparr>) (aset i v (terminal_screen_status S))"

definition set_footer :: "nat \<Rightarrow> u16 \<Rightarrow> shell \<Rightarrow> shell option" where
  "set_footer i v S = map_option (\<lambda>xs. S\<lparr>terminal_screen_footer := xs\<rparr>) (aset i v (terminal_screen_footer S))"

definition get_content :: "nat \<Rightarrow> nat \<Rightarrow> shell \<Rightarrow> u32 option" where
  "get_content t i S = do { xs \<leftarrow> aget (terminal_screens S) t; aget xs i }"

definition set_content :: "nat \<Rightarrow> nat \<Rightarrow> u32 \<Rightarrow> shell \<Rightarrow> shell option" where
  "set_content t i v S = do {
     xs \<leftarrow> aget (terminal_screens S) t;
     ys \<leftarrow> aset i v xs;
     Some (S\<lparr>terminal_screens := (terminal_screens S)[t := ys]\<rparr>) }"

definition put_cell :: "u32 \<Rightarrow> nat \<Rightarrow> u16 \<Rightarrow> mach \<Rightarrow> mach" where
  "put_cell base i v M = M\<lparr>ram := store16 (ram M) (base + of_nat (2 * i)) v\<rparr>"

section \<open>Writing to the screen\<close>

definition UpdateScreen :: "keyboard \<Rightarrow> mach \<times> shell \<Rightarrow> mach option" where
  "UpdateScreen K = (\<lambda>(M, S). do {
     let L = layout S;
     M1 \<leftarrow> for_each (\<lambda>pos M. do { v \<leftarrow> aget (terminal_screen_header S) pos; Some (put_cell (screen S) pos v M) })
             [header_starting_point L..<header_size L] M;
     M2 \<leftarrow> for_each (\<lambda>pos M. do { v \<leftarrow> aget (terminal_screen_status S) pos; Some (put_cell (screen S) pos v M) })
             [status_starting_point L..<status_size L] M1;
     M3 \<leftarrow> for_each (\<lambda>pos M. do { v \<leftarrow> get_content (current_terminal S) pos S;
                               Some (put_cell (screen S) pos (ucast v) M) })
             [content_starting_point L..<content_size L] M2;
     M4 \<leftarrow> for_each (\<lambda>pos M. do { v \<leftarrow> aget (terminal_screen_footer S) pos; Some (put_cell (screen S) pos v M) })
             [footer_starting_point L..<footer_size L] M3;
     size \<leftarrow> GetBufferSize K;
     Some (Cursor_moveTo (of_nat (size + 7)) (of_nat (screen_height L - 1)) M4) })"

section \<open>Header and status bar\<close>

text \<open>\<open>terminal_screen_header[col++] = setColor(c, color)\<close> for the characters of a text.\<close>

fun header_text :: "u8 \<Rightarrow> u8 list \<Rightarrow> nat \<times> shell \<Rightarrow> (nat \<times> shell) option" where
  "header_text color [] s = Some s"
| "header_text color (c # cs) (col, S) =
     do { S' \<leftarrow> set_header col (setColor c color) S; header_text color cs (col + 1, S') }"

definition header_tab :: "nat \<Rightarrow> nat \<times> shell \<Rightarrow> (nat \<times> shell) option" where
  "header_tab tab s0 = do {
     let C = colours (snd s0);
     let color = (if tab = current_terminal (snd s0) then header_color_tab_active C else header_color_tab_inactive C);
     s1 \<leftarrow> header_text color [0x5B, 0x30 + of_nat tab] s0;
     s2 \<leftarrow> header_text color (if tab = 5 then str '' dbg'' else str '' term'') s1;
     s3 \<leftarrow> header_text color [0x5D] s2;
     header_text (header_color C) [0x20] s3 }"

definition RenderHeader :: "shell \<Rightarrow> shell option" where
  "RenderHeader S = do {
     let hc = header_color (colours S);
     let h0 = header_starting_point (layout S);
     S1 \<leftarrow> for_each (\<lambda>pos. set_header pos (setColor 0x20 hc)) [h0..<h0 + 64] S;
     s2 \<leftarrow> header_text hc (str '' Shiro 0.5  '') (0, S1);
     (col, S3) \<leftarrow> header_text hc [0xB3] s2;
     (col', S4) \<leftarrow> for_each header_tab [1..<6] (col + 1, S3);
     Some S4 }"

fun status_text :: "u8 list \<Rightarrow> nat \<Rightarrow> nat \<Rightarrow> shell \<Rightarrow> shell option" where
  "status_text [] col limit S = Some S"
| "status_text (c # cs) col limit S =
     (if col < limit
      then do { S' \<leftarrow> set_status col (setColor c (status_color (colours S))) S; status_text cs (col + 1) limit S' }
      else Some S)"

definition status_fill :: "shell \<Rightarrow> shell option" where
  "status_fill S = for_each (\<lambda>pos. set_status pos (setColor 0x20 (status_color (colours S))))
     [status_starting_point (layout S)..<status_size (layout S)] S"

definition RenderStatus :: "u8 list \<Rightarrow> shell \<Rightarrow> shell option" where
  "RenderStatus text S = do {
     S1 \<leftarrow> status_fill S;
     status_text text (status_starting_point (layout S) + 1) (status_size (layout S) - 1) S1 }"

definition WriteSAt :: "u8 list \<Rightarrow> nat \<Rightarrow> shell \<Rightarrow> shell option" where
  "WriteSAt text x S = status_text text (status_starting_point (layout S) + x) (status_size (layout S)) S"

section \<open>Terminals\<close>

definition ClearTerminal :: "nat \<Rightarrow> shell \<Rightarrow> shell option" where
  "ClearTerminal terminal_id S = do {
     let L = layout S;
     S' \<leftarrow> for_each (\<lambda>pos. set_content terminal_id pos (setColorContent 0x20 (terminal_color (colours S))))
       [content_starting_point L..<content_starting_point L + terminal_content_height L * terminal_content_width L] S;
     Some (S'\<lparr>content_current_x := 0, content_current_y := 0\<rparr>) }"

definition StartTerminal :: "nat \<Rightarrow> mach \<times> shell \<Rightarrow> (mach \<times> shell) option" where
  "StartTerminal terminal_id = (\<lambda>(M, S). do {
     let L = layout S;
     S' \<leftarrow> for_each (\<lambda>pos. set_content terminal_id pos (setColorContent 0x20 (terminal_color (colours S))))
       [content_starting_point L..<content_starting_point L + terminal_content_height L * terminal_content_width L] S;
     Some (log_line [LStr ''> Initializing Terminal #'', LInt (of_nat terminal_id)] M, S') })"

definition Scroll :: "shell \<Rightarrow> shell option" where
  "Scroll S = do {
     let w = screen_width (layout S);
     let first_row = content_starting_point (layout S) div w;
     let last_row = footer_starting_point (layout S) div w - 1;
     S1 \<leftarrow> for_each (\<lambda>row. for_each (\<lambda>col S. do {
                v \<leftarrow> get_content (current_terminal S) ((row + 1) * w + col) S;
                set_content (current_terminal S) (row * w + col) v S }) [0..<w])
            [first_row..<last_row] S;
     S2 \<leftarrow> for_each (\<lambda>col S. set_content (current_terminal S) (last_row * w + col)
              (setColorContent 0x20 (terminal_color (colours S))) S) [0..<w] S1;
     Some (S2\<lparr>content_current_x := 0\<rparr>) }"

fun write_c_loop :: "u8 \<Rightarrow> nat \<Rightarrow> nat \<Rightarrow> u8 list \<Rightarrow> nat \<Rightarrow> shell \<Rightarrow> shell option" where
  "write_c_loop color last_line limit [] gi S = Some S"
| "write_c_loop color last_line limit (c # cs) gi S =
     (if c = 0x0A then do { S' \<leftarrow> Scroll S; write_c_loop color last_line limit cs gi S' }
      else do {
        let S1 = (if limit \<le> gi then S\<lparr>content_current_x := 0\<rparr> else S);
        let gi' = last_line + content_current_x S1;
        S2 \<leftarrow> set_content (current_terminal S1) gi' (setColorContent c color) S1;
        write_c_loop color last_line limit cs gi' (S2\<lparr>content_current_x := content_current_x S2 + 1\<rparr>) })"

definition WriteCColored :: "u8 list \<Rightarrow> u8 \<Rightarrow> nat \<Rightarrow> nat \<Rightarrow> shell \<Rightarrow> shell option" where
  "WriteCColored data color last_line_starting_point limit S = write_c_loop color last_line_starting_point limit data 0 S"

text \<open>\<open>WriteC(data, false)\<close> and \<open>WriteCEcho(data, false)\<close>; with the update they end in \<open>UpdateScreen\<close>.\<close>

definition WriteC :: "u8 list \<Rightarrow> shell \<Rightarrow> shell option" where
  "WriteC data S = do {
     S1 \<leftarrow> WriteCColored data (terminal_color (colours S))
       (footer_starting_point (layout S) - screen_width (layout S)) (content_size (layout S) - 2) S;
     Scroll S1 }"

definition WriteCEcho :: "u8 list \<Rightarrow> shell \<Rightarrow> shell option" where
  "WriteCEcho data S = do {
     S1 \<leftarrow> WriteCColored data (terminal_color_echo (colours S))
       (footer_starting_point (layout S) - screen_width (layout S)) (content_size (layout S) - 2) S;
     Scroll S1 }"

definition updated :: "keyboard \<Rightarrow> mach \<Rightarrow> shell option \<Rightarrow> (mach \<times> shell) option" where
  "updated K M r = do { S \<leftarrow> r; M' \<leftarrow> UpdateScreen K (M, S); Some (M', S) }"

definition echo :: "u8 list \<Rightarrow> keyboard \<Rightarrow> mach \<times> shell \<Rightarrow> (mach \<times> shell) option" where
  "echo content K = (\<lambda>(M, S). updated K M (WriteC content S))"

definition WriteD :: "u8 list \<Rightarrow> keyboard \<Rightarrow> mach \<times> shell \<Rightarrow> (mach \<times> shell) option" where
  "WriteD data K = (\<lambda>(M, S). updated K M
     (map_option (\<lambda>S'. S'\<lparr>current_terminal := current_terminal S\<rparr>) (WriteC data (S\<lparr>current_terminal := 5\<rparr>))))"

section \<open>Header and footer text\<close>

fun write_h_loop :: "nat \<Rightarrow> u8 list \<Rightarrow> nat \<Rightarrow> shell \<Rightarrow> shell option" where
  "write_h_loop limit [] gi S = Some S"
| "write_h_loop limit (c # cs) gi S = do {
     let S1 = (if limit \<le> gi then S\<lparr>header_current_x := 0\<rparr> else S);
     let gi' = header_starting_point (layout S) + header_current_x S1;
     S2 \<leftarrow> set_header gi' (setColor c (header_color (colours S))) S1;
     write_h_loop limit cs gi' (S2\<lparr>header_current_x := header_current_x S2 + 1\<rparr>) }"

text \<open>\<open>WriteH(data, false)\<close>.\<close>

definition WriteH :: "u8 list \<Rightarrow> shell \<Rightarrow> shell option" where
  "WriteH data S = write_h_loop (header_size (layout S) - 1) data 0 S"

definition WriteToH :: "u8 list \<Rightarrow> nat \<Rightarrow> nat \<Rightarrow> shell \<Rightarrow> shell option" where
  "WriteToH data x y S = map_option
     (\<lambda>S'. S'\<lparr>header_current_x := header_current_x S, header_current_y := header_current_y S\<rparr>)
     (WriteH data (S\<lparr>header_current_x := x - 1, header_current_y := y\<rparr>))"

fun write_f_loop :: "nat \<Rightarrow> u8 list \<Rightarrow> nat \<Rightarrow> shell \<Rightarrow> shell option" where
  "write_f_loop limit [] gi S = Some S"
| "write_f_loop limit (c # cs) gi S = do {
     let S1 = (if limit \<le> gi then S\<lparr>footer_current_x := 0\<rparr> else S);
     let gi' = footer_starting_point (layout S) + footer_current_x S1;
     S2 \<leftarrow> set_footer gi' (setColor c (footer_color (colours S))) S1;
     write_f_loop limit cs gi' (S2\<lparr>footer_current_x := footer_current_x S2 + 1\<rparr>) }"

definition WriteF :: "u8 list \<Rightarrow> keyboard \<Rightarrow> mach \<times> shell \<Rightarrow> (mach \<times> shell) option" where
  "WriteF data K = (\<lambda>(M, S). updated K M (write_f_loop (footer_size (layout S) - 1) data 0 S))"

definition StartTerminalHeader :: "mach \<times> shell \<Rightarrow> (mach \<times> shell) option" where
  "StartTerminalHeader = (\<lambda>(M, S). do {
     let L = layout S;
     S' \<leftarrow> for_each (\<lambda>pos. set_header pos (setColor 0x20 (header_color (colours S))))
       [0..<header_starting_point L + terminal_header_height L * terminal_header_width L] S;
     Some (log_line [LStr ''> Initializing Terminal Header''] M, S') })"

definition StartTerminalStatus :: "mach \<times> shell \<Rightarrow> (mach \<times> shell) option" where
  "StartTerminalStatus = (\<lambda>(M, S). do {
     S' \<leftarrow> status_fill S;
     Some (log_line [LStr ''> Initializing Status Bar''] M, S') })"

definition StartTerminalFooter :: "keyboard \<Rightarrow> mach \<times> shell \<Rightarrow> (mach \<times> shell) option" where
  "StartTerminalFooter K = (\<lambda>(M, S). do {
     let L = layout S;
     S' \<leftarrow> for_each (\<lambda>pos. set_footer pos (setColor 0x20 (footer_color (colours S))))
       [footer_starting_point L..<footer_starting_point L + terminal_footer_height L * terminal_footer_width L] S;
     WriteF (str ''Shiro> '') K (M, S'\<lparr>footer_current_x := 0\<rparr>) })"

section \<open>Start\<close>

definition palette :: shell_colours where
  "palette = \<lparr>
     header_color = selectColors VGA_COLOUR_WHITE VGA_COLOUR_BLUE,
     header_color_tab_active = selectColors VGA_COLOUR_BLACK VGA_COLOUR_WHITE,
     header_color_tab_inactive = selectColors VGA_COLOUR_LIGHT_GREY VGA_COLOUR_BLUE,
     status_color = selectColors VGA_COLOUR_BLACK VGA_COLOUR_LIGHT_GREY,
     terminal_color = selectColors VGA_COLOUR_LIGHT_GREY VGA_COLOUR_BLACK,
     terminal_color_echo = selectColors VGA_COLOUR_LIGHT_BROWN VGA_COLOUR_BLACK,
     terminal_color_box = selectColors VGA_COLOUR_LIGHT_CYAN VGA_COLOUR_BLACK,
     terminal_color_highlight = selectColors VGA_COLOUR_LIGHT_CYAN VGA_COLOUR_BLACK,
     footer_color = selectColors VGA_COLOUR_LIGHT_GREEN VGA_COLOUR_BLACK\<rparr>"

definition start_layout :: shell_layout where
  "start_layout =
     (let w = 80; h = 25; hh = 1; sh = 1; fh = 1;
          ch = h - (hh + sh + fh);
          header_start = 0;
          status_start = hh * w;
          content_start = status_start + sh * w;
          footer_start = content_start + ch * w
      in \<lparr>header_starting_point = header_start, status_starting_point = status_start,
          content_starting_point = content_start, footer_starting_point = footer_start,
          header_size = header_start + hh * w, status_size = status_start + sh * w,
          content_size = content_start + ch * w, footer_size = footer_start + fh * w,
          terminal_header_width = w, terminal_header_height = hh,
          terminal_content_width = w, terminal_content_height = ch,
          terminal_footer_width = w, terminal_footer_height = fh, screen_width = w, screen_height = h\<rparr>)"

definition shell_members :: "shell \<Rightarrow> shell" where
  "shell_members S = S\<lparr>colours := palette, screen := SCREEN_ADDR, current_terminal := 1, layout := start_layout,
     header_current_x := 0, header_current_y := 0, content_current_x := 0, content_current_y := 0,
     footer_current_x := 0\<rparr>"

definition Shell_Finish :: "keyboard \<Rightarrow> mach \<times> shell \<Rightarrow> (mach \<times> shell) option" where
  "Shell_Finish K = (\<lambda>(M, S). do {
     let M0 = log_line [LStr (''> Finishing Shell'' @ [CHR 0x0A])] M;
     (M1, S1) \<leftarrow> for_each (\<lambda>terminal_id (M, S).
         echo (str (''> SHIRO IS LOADED AND READY TO GO'' @ [CHR 0x0A])) K (M, S\<lparr>current_terminal := terminal_id\<rparr>))
       [1..<5] (M0, S);
     (M2, S2) \<leftarrow> echo (str (''> THE DEBUG TERMINAL IS LOADED AND READY TO GO'' @ [CHR 0x0A])) K
       (M1, S1\<lparr>current_terminal := 5\<rparr>);
     updated K M2 (Some (S2\<lparr>current_terminal := current_terminal S\<rparr>)) })"

definition Shell_Start :: "keyboard \<Rightarrow> mach \<times> shell \<Rightarrow> (mach \<times> shell) option" where
  "Shell_Start K = (\<lambda>(M, S). do {
     let M0 = log_line [LStr ([CHR 0x0A] @ ''> Starting Shell'')] M;
     s1 \<leftarrow> StartTerminalHeader (M0, shell_members S);
     s2 \<leftarrow> StartTerminalStatus s1;
     s3 \<leftarrow> for_each StartTerminal [1, 2, 3, 4, 5] s2;
     (M4, S4) \<leftarrow> StartTerminalFooter K s3;
     (M5, S5) \<leftarrow> updated K M4 (Some S4);
     let M6 = Cursor_moveTo 7 (of_nat (screen_height (layout S5) - 1)) (Cursor_enable M5);
     S6 \<leftarrow> RenderHeader S5;
     S7 \<leftarrow> RenderStatus (str ''booting...'') S6;
     Shell_Finish K (M6, S7) })"

end
