(* ===== verification/Shell_Contract.thy ===== *)
theory Shell_Contract
  imports Shell
begin

text \<open>
  What the shell's operations do to a terminal, seen as its content (22 rows of 80 cells): a line
  printed by \<open>WriteC\<close> appears in the last row but one and pushes the older rows up.
\<close>

section \<open>Loops over arrays\<close>

lemma for_each_append [simp]: "for_each f (xs @ ys) s = Option.bind (for_each f xs s) (for_each f ys)"
proof (induction xs arbitrary: s)
  case (Cons x xs)
  then show ?case by (cases "f x s") auto
qed simp

text \<open>A loop whose steps all have a result is a fold of their results.\<close>

lemma for_each_fold:
  assumes "I s" "\<And>i s. i \<in> set is \<Longrightarrow> I s \<Longrightarrow> f i s = Some (g i s) \<and> I (g i s)"
  shows "for_each f is s = Some (fold g is s) \<and> I (fold g is s)"
  using assms by (induction "is" arbitrary: s) auto

lemma fold_fill:
  "b \<le> length xs \<Longrightarrow> a \<le> b \<Longrightarrow> fold (\<lambda>i xs. xs[i := v]) [a..<b] xs = take a xs @ replicate (b - a) v @ drop b xs"
proof (induction "b - a" arbitrary: b)
  case (Suc d)
  then obtain c where c: "b = Suc c" by (cases b) auto
  with Suc have ac: "a \<le> c" by simp
  from Suc c have "fold (\<lambda>i xs. xs[i := v]) [a..<c] xs = take a xs @ replicate (c - a) v @ drop c xs" by simp
  then have "fold (\<lambda>i xs. xs[i := v]) [a..<b] xs = (take a xs @ replicate (c - a) v @ drop c xs)[c := v]"
    using ac c by simp
  also have "\<dots> = take a xs @ replicate (c - a) v @ v # drop (Suc c) xs"
    using Suc.prems(1) ac c by (simp add: list_update_append drop_update_swap Cons_nth_drop_Suc [symmetric])
  also have "replicate (c - a) v @ v # drop (Suc c) xs = replicate (b - a) v @ drop b xs"
    using ac c by (simp add: Suc_diff_le replicate_append_same)
  finally show ?case .
qed simp

section \<open>The content of a terminal\<close>

definition the_term :: "shell \<Rightarrow> u32 list" where
  "the_term S = terminal_screens S ! current_terminal S"

definition content :: "shell \<Rightarrow> u32 list" where
  "content S = take 1760 (drop 160 (the_term S))"

definition blank_cell :: "shell \<Rightarrow> u32" where
  "blank_cell S = setColorContent 0x20 (terminal_color (colours S))"

text \<open>The geometry: the layout of \<open>Start\<close> and the sizes of the arrays.\<close>

definition shell_geo :: "shell \<Rightarrow> bool" where
  "shell_geo S \<longleftrightarrow> layout S = start_layout \<and> length (terminal_screen_header S) = 80
     \<and> length (terminal_screen_status S) = 160 \<and> length (terminal_screen_footer S) = 2000
     \<and> length (terminal_screens S) = 10 \<and> (\<forall>xs \<in> set (terminal_screens S). length xs = 3000)
     \<and> current_terminal S \<in> {1..5}"

definition with_content :: "u32 list \<Rightarrow> shell \<Rightarrow> shell" where
  "with_content C S = S\<lparr>terminal_screens := (terminal_screens S)
     [current_terminal S := take 160 (the_term S) @ C @ drop 1920 (the_term S)]\<rparr>"

lemma start_layout_sel [simp]:
  "header_starting_point start_layout = 0" "status_starting_point start_layout = 80"
  "content_starting_point start_layout = 160" "footer_starting_point start_layout = 1920"
  "header_size start_layout = 80" "status_size start_layout = 160" "content_size start_layout = 1920"
  "footer_size start_layout = 2000" "terminal_header_width start_layout = 80"
  "terminal_header_height start_layout = 1" "terminal_content_width start_layout = 80"
  "terminal_content_height start_layout = 22" "terminal_footer_width start_layout = 80"
  "terminal_footer_height start_layout = 1" "screen_width start_layout = 80" "screen_height start_layout = 25"
  by (simp_all add: start_layout_def Let_def)

lemma shell_geo_sel:
  assumes "shell_geo S"
  shows "layout S = start_layout" "current_terminal S < length (terminal_screens S)" "length (the_term S) = 3000"
    "length (content S) = 1760"
  using assms by (auto simp: shell_geo_def the_term_def content_def)

lemma with_content_sel [simp]:
  "colours (with_content C S) = colours S" "layout (with_content C S) = layout S"
  "screen (with_content C S) = screen S" "current_terminal (with_content C S) = current_terminal S"
  "terminal_screen_header (with_content C S) = terminal_screen_header S"
  "terminal_screen_status (with_content C S) = terminal_screen_status S"
  "terminal_screen_footer (with_content C S) = terminal_screen_footer S"
  "content_current_x (with_content C S) = content_current_x S"
  "blank_cell (with_content C S) = blank_cell S"
  by (simp_all add: with_content_def blank_cell_def)

lemma content_with [simp]:
  assumes "shell_geo S" "length C = 1760"
  shows "content (with_content C S) = C" "shell_geo (with_content C S)"
    "with_content D (with_content C S) = with_content D S"
proof -
  have t: "the_term (with_content C S) = take 160 (the_term S) @ C @ drop 1920 (the_term S)"
    using shell_geo_sel [OF assms(1)] by (simp add: the_term_def with_content_def)
  with assms shell_geo_sel [OF assms(1)] show "content (with_content C S) = C" by (simp add: content_def)
  show "shell_geo (with_content C S)"
    using assms shell_geo_sel [OF assms(1)] set_update_subset_insert [of "terminal_screens S" "current_terminal S"]
    by (auto simp: shell_geo_def with_content_def dest!: subsetD [OF set_update_subset_insert])
  show "with_content D (with_content C S) = with_content D S"
    using assms shell_geo_sel [OF assms(1)] unfolding with_content_def [of D] t
    by (simp add: with_content_def)
qed

lemma with_content_self [simp]:
  assumes "shell_geo S" shows "with_content (content S) S = S"
proof -
  have "take 160 (the_term S) @ content S @ drop 1920 (the_term S) = the_term S"
    using shell_geo_sel(3,4) [OF assms] by (intro nth_equalityI) (auto simp: nth_append content_def)
  then show ?thesis by (simp add: with_content_def the_term_def)
qed

lemma ccx_sel [simp]:
  "content (S\<lparr>content_current_x := x\<rparr>) = content S" "shell_geo (S\<lparr>content_current_x := x\<rparr>) = shell_geo S"
  "with_content C (S\<lparr>content_current_x := x\<rparr>) = (with_content C S)\<lparr>content_current_x := x\<rparr>"
  "blank_cell (S\<lparr>content_current_x := x\<rparr>) = blank_cell S"
  by (simp_all add: content_def the_term_def shell_geo_def with_content_def blank_cell_def)

lemma content_access:
  assumes "shell_geo S" "p < 1760" "i = 160 + p"
  shows "get_content (current_terminal S) i S = Some (content S ! p)"
    "set_content (current_terminal S) i v S = Some (with_content ((content S)[p := v]) S)"
proof -
  note g = shell_geo_sel [OF assms(1)]
  show "get_content (current_terminal S) i S = Some (content S ! p)"
    using g assms(2,3) by (simp add: get_content_def aget_def the_term_def content_def)
  have "(the_term S)[i := v] = take 160 (the_term S) @ (content S)[p := v] @ drop 1920 (the_term S)"
  proof (rule nth_equalityI)
    fix k assume "k < length ((the_term S)[i := v])"
    then show "(the_term S)[i := v] ! k = (take 160 (the_term S) @ (content S)[p := v] @ drop 1920 (the_term S)) ! k"
      using g(3) assms(2,3) by (auto simp: nth_append content_def nth_list_update)
  qed (use g assms in \<open>simp add: content_def\<close>)
  then show "set_content (current_terminal S) i v S = Some (with_content ((content S)[p := v]) S)"
    using g assms(2,3) by (simp add: set_content_def aget_def aset_def with_content_def the_term_def)
qed

text \<open>A loop over cells of the content, as a fold on the content.\<close>

lemma content_loop:
  assumes "shell_geo S" "length D = 1760"
    and "\<And>i D. i \<in> set is \<Longrightarrow> length D = 1760 \<Longrightarrow>
      f i (with_content D S) = Some (with_content (g i D) S) \<and> length (g i D) = 1760"
  shows "for_each f is (with_content D S) = Some (with_content (fold g is D) S) \<and> length (fold g is D) = 1760"
  using assms(2,3)
proof (induction "is" arbitrary: D)
  case (Cons i "is")
  from Cons.prems(2) [of i D] Cons.prems(1) have s: "f i (with_content D S) = Some (with_content (g i D) S)"
    "length (g i D) = 1760" by simp_all
  from Cons.IH [OF s(2)] Cons.prems(2) s(1) show ?case by simp
qed simp

section \<open>Scrolling\<close>

lemma scroll_row:
  "n \<le> 80 \<Longrightarrow> 80 * r + 160 \<le> length D \<Longrightarrow>
     fold (\<lambda>col D. D[80 * r + col := D ! (80 * r + 80 + col)]) [0..<n] D
       = take (80 * r) D @ take n (drop (80 * r + 80) D) @ drop (80 * r + n) D"
proof (induction n)
  case (Suc n)
  then have IH: "fold (\<lambda>col D. D[80 * r + col := D ! (80 * r + 80 + col)]) [0..<n] D
       = take (80 * r) D @ take n (drop (80 * r + 80) D) @ drop (80 * r + n) D" by simp
  show ?case
    using Suc.prems unfolding upt_Suc_append [OF le0] fold_append o_apply IH
    by (intro nth_equalityI) (auto simp: nth_append nth_list_update ac_simps)
qed simp

lemma scroll_rows:
  assumes "length D = 1760"
  shows "n \<le> 21 \<Longrightarrow> fold (\<lambda>row. fold (\<lambda>col D. D[80 * row + col := D ! (80 * row + 80 + col)]) [0..<80]) [0..<n] D
     = take (80 * n) (drop 80 D) @ drop (80 * n) D"
proof (induction n)
  case (Suc n)
  let ?D = "take (80 * n) (drop 80 D) @ drop (80 * n) D"
  have "fold (\<lambda>col D. D[80 * n + col := D ! (80 * n + 80 + col)]) [0..<80] ?D
      = take (80 * n) ?D @ take 80 (drop (80 * n + 80) ?D) @ drop (80 * n + 80) ?D"
    using Suc.prems assms by (intro scroll_row) simp_all
  also have "\<dots> = take (80 * Suc n) (drop 80 D) @ drop (80 * Suc n) D"
    using Suc.prems assms by (intro nth_equalityI) (auto simp: nth_append)
  finally have s: "fold (\<lambda>col D. D[80 * n + col := D ! (80 * n + 80 + col)]) [0..<80] ?D
      = take (80 * Suc n) (drop 80 D) @ drop (80 * Suc n) D" .
  from Suc.prems have IH: "fold (\<lambda>row. fold (\<lambda>col D. D[80 * row + col := D ! (80 * row + 80 + col)]) [0..<80]) [0..<n] D = ?D"
    using Suc.IH by simp
  show ?case unfolding upt_Suc_append [OF le0] fold_append o_apply IH using s by simp
qed simp

lemma Scroll_eq:
  assumes "shell_geo S"
  shows "Scroll S = Some ((with_content (drop 80 (content S) @ replicate 80 (blank_cell S)) S)\<lparr>content_current_x := 0\<rparr>)"
proof -
  note g = shell_geo_sel [OF assms]
  let ?b = "blank_cell S"
  define f where "f = (\<lambda>row. for_each (\<lambda>col T. do {
      v \<leftarrow> get_content (current_terminal T) ((row + 1) * 80 + col) T;
      set_content (current_terminal T) (row * 80 + col) v T }) [0..<80])"
  define gr where "gr = (\<lambda>row (D :: u32 list). fold (\<lambda>col D. D[80 * row + col := D ! (80 * row + 80 + col)]) [0..<80] D)"
  have cell: "(do { v \<leftarrow> get_content (current_terminal (with_content D S)) ((r + 1) * 80 + col) (with_content D S);
      set_content (current_terminal (with_content D S)) (r * 80 + col) v (with_content D S) })
      = Some (with_content (D[80 * (r - 2) + col := D ! (80 * (r - 2) + 80 + col)]) S)"
    if "2 \<le> r" "r < 23" "col < 80" "length D = 1760" for r col D
  proof -
    have e: "80 * (r - 2) + 80 + col < 1760" "(r + 1) * 80 + col = 160 + (80 * (r - 2) + 80 + col)"
      "80 * (r - 2) + col < 1760" "r * 80 + col = 160 + (80 * (r - 2) + col)" using that by auto
    note w = content_with [OF assms that(4)]
    from content_access(1) [OF w(2) e(1,2)] content_access(2) [OF w(2) e(3,4)] show ?thesis
      unfolding w(1,3) by simp
  qed
  have row: "f r (with_content D S) = Some (with_content (gr (r - 2) D) S) \<and> length (gr (r - 2) D) = 1760"
    if "r \<in> set [2..<23]" "length D = 1760" for r D
    unfolding f_def gr_def
  proof (rule content_loop [OF assms that(2)])
    fix col and E :: "u32 list"
    assume "col \<in> set [0..<80]" "length E = 1760"
    moreover have "2 \<le> r" "r < 23" using that(1) by auto
    ultimately show "(do { v \<leftarrow> get_content (current_terminal (with_content E S)) ((r + 1) * 80 + col) (with_content E S);
        set_content (current_terminal (with_content E S)) (r * 80 + col) v (with_content E S) })
        = Some (with_content (E[80 * (r - 2) + col := E ! (80 * (r - 2) + 80 + col)]) S)
      \<and> length (E[80 * (r - 2) + col := E ! (80 * (r - 2) + 80 + col)]) = 1760"
      using cell [of r col E] by simp
  qed
  let ?D = "drop 80 (content S) @ drop 1680 (content S)"
  have loop: "for_each f [2..<23] (with_content (content S) S)
      = Some (with_content (fold (\<lambda>r. gr (r - 2)) [2..<23] (content S)) S)
    \<and> length (fold (\<lambda>r. gr (r - 2)) [2..<23] (content S)) = 1760"
    by (rule content_loop [OF assms g(4)]) (rule row)
  have "fold (\<lambda>r. gr (r - 2)) [2..<23] (content S) = fold gr [0..<21] (content S)"
  proof -
    have "[2..<23] = map (\<lambda>r. r + 2) [0..<21 :: nat]" by (simp only: map_add_upt) simp
    then show ?thesis by (simp only: fold_map o_def) simp
  qed
  also have "\<dots> = ?D"
    unfolding gr_def using scroll_rows [OF g(4), of 21] g(4) by simp
  finally have D: "for_each f [2..<23] S = Some (with_content ?D S)" "length ?D = 1760"
    using loop g(4) assms by simp_all
  have blank: "for_each (\<lambda>col T. set_content (current_terminal T) (23 * 80 + col)
        (setColorContent 0x20 (terminal_color (colours T))) T) [0..<80] (with_content ?D S)
      = Some (with_content (fold (\<lambda>col D. D[1680 + col := ?b]) [0..<80] ?D) S)"
  proof (rule conjunct1 [OF content_loop [OF assms D(2)]])
    fix col and E :: "u32 list"
    assume "col \<in> set [0..<80]" "length E = 1760"
    then have "1680 + col < 1760" "23 * 80 + col = 160 + (1680 + col)" by auto
    from content_access(2) [OF content_with(2) [OF assms \<open>length E = 1760\<close>] this] \<open>length E = 1760\<close>
    show "set_content (current_terminal (with_content E S)) (23 * 80 + col)
        (setColorContent 0x20 (terminal_color (colours (with_content E S)))) (with_content E S)
        = Some (with_content (E[1680 + col := ?b]) S) \<and> length (E[1680 + col := ?b]) = 1760"
      by (simp add: assms blank_cell_def)
  qed
  have "fold (\<lambda>col D. D[1680 + col := ?b]) [0..<80] ?D = fold (\<lambda>i D. D[i := ?b]) [1680..<1760] ?D"
  proof -
    have "[1680..<1760] = map (\<lambda>r. r + 1680) [0..<80 :: nat]" by (simp only: map_add_upt) simp
    then show ?thesis by (simp only: fold_map o_def add.commute)
  qed
  also have "\<dots> = take 1680 ?D @ replicate 80 ?b"
    using fold_fill [of 1760 ?D 1680 ?b] D(2) by simp
  also have "take 1680 ?D = drop 80 (content S)" using g(4) by simp
  finally show ?thesis
    using D(1) blank unfolding f_def by (simp add: Scroll_def Let_def g(1) blank_cell_def)
qed

section \<open>Printing\<close>

text \<open>A text as the rows it fills: a line feed ends a row.\<close>

fun rows_from :: "u8 list \<Rightarrow> u8 list \<Rightarrow> u8 list list" where
  "rows_from p [] = [p]"
| "rows_from p (c # cs) = (if c = 0x0A then p # rows_from [] cs else rows_from (p @ [c]) cs)"

definition row_cells :: "u32 \<Rightarrow> u8 \<Rightarrow> u8 list \<Rightarrow> u32 list" where
  "row_cells bc color s = map (\<lambda>c. setColorContent c color) s @ replicate (80 - length s) bc"

text \<open>Scrolling the rows \<open>R\<close> (80 cells each) into the 21 rows \<open>B\<close> above the last one.\<close>

definition scrolled :: "u32 list \<Rightarrow> u32 list list \<Rightarrow> u32 list" where
  "scrolled B R = drop (80 * length R) (B @ concat R)"

lemma rows_from_ne [simp]: "rows_from p s \<noteq> []"
  by (induction p s rule: rows_from.induct) auto

lemma rows_from_first: "\<exists>q \<in> set (rows_from p s). length p \<le> length q"
proof (induction p s rule: rows_from.induct)
  case (2 p c cs)
  then show ?case by (cases "c = 0x0A") (auto dest: Suc_leD)
qed simp

lemma rows_from_line: "0x0A \<notin> set s \<Longrightarrow> rows_from p s = [p @ s]"
  by (induction s arbitrary: p) auto

lemma length_row_cells [simp]: "length s \<le> 80 \<Longrightarrow> length (row_cells b a s) = 80"
  by (simp add: row_cells_def)

lemma length_concat_80: "\<forall>r \<in> set R. length r = 80 \<Longrightarrow> length (concat R) = 80 * length R"
  by (induction R) auto

lemma length_scrolled [simp]:
  "length B = 1680 \<Longrightarrow> \<forall>r \<in> set R. length r = 80 \<Longrightarrow> length (scrolled B R) = 1680"
  by (simp add: scrolled_def length_concat_80)

lemma scrolled_Cons:
  assumes "length B = 1680" "length r = 80"
  shows "scrolled B (r # R) = scrolled (drop 80 (B @ r)) R"
proof -
  have "drop 80 (B @ r @ concat R) = drop 80 (B @ r) @ concat R" using assms by simp
  moreover have "80 * length (r # R) = 80 * length R + 80" by simp
  ultimately show ?thesis unfolding scrolled_def by (metis append.assoc concat.simps(2) drop_drop)
qed

lemma scrolled_snoc:
  assumes "length B = 1680" "\<forall>r \<in> set R. length r = 80"
  shows "scrolled B (R @ [r]) = drop 80 (scrolled B R @ r)"
proof -
  have "drop (80 * length R) ((B @ concat R) @ r) = scrolled B R @ r"
    using assms by (simp add: scrolled_def length_concat_80)
  moreover have "80 * length (R @ [r]) = 80 + 80 * length R" by simp
  ultimately show ?thesis unfolding scrolled_def
    by (metis append.assoc append.right_neutral concat.simps concat_append drop_drop)
qed

lemma write_c_loop_rows:
  assumes "shell_geo S" "content S = B @ row_cells (blank_cell S) color p" "length B = 1680"
    "content_current_x S = length p" "1918 \<le> gi \<longrightarrow> p = [] \<or> length p = 79"
    "\<forall>r \<in> set (rows_from p data). length r \<le> 79"
  shows "write_c_loop color 1840 1918 data gi S = Some ((with_content
     (scrolled B (map (row_cells (blank_cell S) color) (butlast (rows_from p data)))
        @ row_cells (blank_cell S) color (last (rows_from p data))) S)
     \<lparr>content_current_x := length (last (rows_from p data))\<rparr>)"
  using assms
proof (induction data arbitrary: S B p gi)
  case Nil
  have "S\<lparr>content_current_x := length p\<rparr> = S" using Nil(4) by simp
  then show ?case using Nil by (simp add: scrolled_def flip: Nil(2))
next
  case (Cons c cs)
  let ?R = "row_cells (blank_cell S) color"
  show ?case
  proof (cases "c = 0x0A")
    case True
    from Cons.prems(6) True have lp: "length p \<le> 79" by simp
    let ?B = "drop 80 (B @ ?R p)"
    let ?S = "(with_content (?B @ replicate 80 (blank_cell S)) S)\<lparr>content_current_x := 0\<rparr>"
    have sc: "Scroll S = Some ?S" using Scroll_eq [OF Cons.prems(1)] by (simp only: Cons.prems(2))
    have lB: "length ?B = 1680" using Cons.prems(3) lp by simp
    have "write_c_loop color 1840 1918 cs gi ?S = Some ((with_content
       (scrolled ?B (map (row_cells (blank_cell ?S) color) (butlast (rows_from [] cs)))
          @ row_cells (blank_cell ?S) color (last (rows_from [] cs))) ?S)
       \<lparr>content_current_x := length (last (rows_from [] cs))\<rparr>)"
      using Cons.prems lB True by (intro Cons.IH) (simp_all add: row_cells_def)
    then show ?thesis
      using True sc lp lB Cons.prems(1,3) by (simp add: scrolled_Cons)
  next
    case False
    have lp: "length p < 79"
    proof -
      have "\<exists>q \<in> set (rows_from (p @ [c]) cs). length (p @ [c]) \<le> length q"
        by (rule rows_from_first)
      with Cons.prems(6) False show ?thesis by fastforce
    qed
    let ?gi = "1840 + length p"
    let ?C = "B @ ?R (p @ [c])"
    have S1: "(if 1918 \<le> gi then S\<lparr>content_current_x := 0\<rparr> else S) = S"
      using Cons.prems(4,5) lp by auto
    have "80 - length p = Suc (79 - length p)" using lp by simp
    then have "(?R p)[length p := setColorContent c color] = ?R (p @ [c])"
      by (simp add: row_cells_def list_update_append)
    then have "(content S)[1680 + length p := setColorContent c color] = ?C"
      unfolding Cons.prems(2) by (simp add: Cons.prems(3) list_update_append)
    then have st: "set_content (current_terminal S) ?gi (setColorContent c color) S = Some (with_content ?C S)"
      using content_access(2) [OF Cons.prems(1), of "1680 + length p" ?gi] lp by simp
    let ?S = "(with_content ?C S)\<lparr>content_current_x := length (p @ [c])\<rparr>"
    have lC: "length ?C = 1760" using Cons.prems(3) lp by simp
    have "write_c_loop color 1840 1918 cs ?gi ?S = Some ((with_content
       (scrolled B (map (row_cells (blank_cell ?S) color) (butlast (rows_from (p @ [c]) cs)))
          @ row_cells (blank_cell ?S) color (last (rows_from (p @ [c]) cs))) ?S)
       \<lparr>content_current_x := length (last (rows_from (p @ [c]) cs))\<rparr>)"
      using Cons.prems lC False lp by (intro Cons.IH) simp_all
    moreover have "write_c_loop color 1840 1918 (c # cs) gi S = write_c_loop color 1840 1918 cs ?gi ?S"
      using False st Cons.prems(4) by (simp add: S1 Let_def)
    ultimately show ?thesis using False Cons.prems(1) lC by simp
  qed
qed

text \<open>Every terminal ends in a blank row, where the next line is written.\<close>

definition last_row_blank :: "shell \<Rightarrow> nat \<Rightarrow> bool" where
  "last_row_blank S t \<longleftrightarrow> take 80 (drop 1840 (terminal_screens S ! t)) = replicate 80 (blank_cell S)"

definition shell_ok :: "shell \<Rightarrow> bool" where
  "shell_ok S \<longleftrightarrow> shell_geo S \<and> content_current_x S = 0 \<and> (\<forall>t \<in> {1..5}. last_row_blank S t)"

definition write_line :: "u8 \<Rightarrow> u8 list \<Rightarrow> shell \<Rightarrow> shell option" where
  "write_line color data S = do {
     S1 \<leftarrow> WriteCColored data color
       (footer_starting_point (layout S) - screen_width (layout S)) (content_size (layout S) - 2) S;
     Scroll S1 }"

lemma WriteC_line:
  "WriteC data S = write_line (terminal_color (colours S)) data S"
  "WriteCEcho data S = write_line (terminal_color_echo (colours S)) data S"
  by (simp_all add: WriteC_def WriteCEcho_def write_line_def)

text \<open>What the terminal shows above its last row.\<close>

definition visible :: "shell \<Rightarrow> u32 list" where
  "visible S = take 1680 (content S)"

definition after_rows :: "u8 \<Rightarrow> u8 list list \<Rightarrow> shell \<Rightarrow> shell" where
  "after_rows color R S = with_content
     (scrolled (visible S) (map (row_cells (blank_cell S) color) R) @ replicate 80 (blank_cell S)) S"

lemma write_line_eq:
  assumes "shell_ok S" "\<forall>r \<in> set (rows_from [] data). length r \<le> 79"
  shows "write_line color data S = Some (after_rows color (rows_from [] data) S)"
proof -
  have g: "shell_geo S" "content_current_x S = 0" "last_row_blank S (current_terminal S)"
    using assms(1) by (auto simp: shell_ok_def shell_geo_def)
  let ?b = "blank_cell S" and ?rows = "rows_from [] data"
  have "drop 1680 (content S) = replicate 80 ?b"
    using g(3) shell_geo_sel(3) [OF g(1)] by (simp add: content_def last_row_blank_def the_term_def drop_take)
  then have c: "content S = visible S @ row_cells ?b color []"
    using append_take_drop_id [of 1680 "content S"] by (simp add: visible_def row_cells_def)
  have l: "length (visible S) = 1680" using shell_geo_sel(4) [OF g(1)] by (simp add: visible_def)
  let ?C = "scrolled (visible S) (map (row_cells ?b color) (butlast ?rows)) @ row_cells ?b color (last ?rows)"
  have m: "length r \<le> 80" if "r \<in> set ?rows" for r using assms(2) that by fastforce
  have "length r = 80" if "r \<in> set (map (row_cells ?b color) (butlast ?rows))" for r
    using that m in_set_butlastD [of _ ?rows] by auto
  then have R: "\<forall>r \<in> set (map (row_cells ?b color) (butlast ?rows)). length r = 80" by blast
  have R': "length (row_cells ?b color (last ?rows)) = 80"
    using m [OF last_in_set [OF rows_from_ne]] by simp
  have w: "write_c_loop color 1840 1918 data 0 S = Some ((with_content ?C S)\<lparr>content_current_x := length (last ?rows)\<rparr>)"
    using write_c_loop_rows [OF g(1) c l, of 0 data] g(2) assms(2) by simp
  have lC: "length ?C = 1760" using R R' l by simp
  have "drop 80 ?C = scrolled (visible S) (map (row_cells ?b color) ?rows)"
  proof -
    have "map (row_cells ?b color) ?rows = map (row_cells ?b color) (butlast ?rows) @ [row_cells ?b color (last ?rows)]"
      by (metis append_butlast_last_id list.simps(8,9) map_append rows_from_ne)
    with scrolled_snoc [OF l R, of "row_cells ?b color (last ?rows)"] show ?thesis by simp
  qed
  moreover have "S\<lparr>content_current_x := 0\<rparr> = S" using g(2) by simp
  ultimately show ?thesis
    using w g lC Scroll_eq [of "(with_content ?C S)\<lparr>content_current_x := length (last ?rows)\<rparr>"]
    by (simp add: write_line_def WriteCColored_def shell_geo_sel after_rows_def)
qed

lemma after_rows_sel [simp]:
  "colours (after_rows color R S) = colours S" "layout (after_rows color R S) = layout S"
  "screen (after_rows color R S) = screen S" "current_terminal (after_rows color R S) = current_terminal S"
  "terminal_screen_header (after_rows color R S) = terminal_screen_header S"
  "terminal_screen_status (after_rows color R S) = terminal_screen_status S"
  "terminal_screen_footer (after_rows color R S) = terminal_screen_footer S"
  "content_current_x (after_rows color R S) = content_current_x S"
  "blank_cell (after_rows color R S) = blank_cell S"
  by (simp_all add: after_rows_def)

lemma after_rows_other: "t \<noteq> current_terminal S \<Longrightarrow> terminal_screens (after_rows color R S) ! t = terminal_screens S ! t"
  by (simp add: after_rows_def with_content_def)

definition fits :: "u8 list list \<Rightarrow> bool" where
  "fits R \<longleftrightarrow> (\<forall>r \<in> set R. length r \<le> 79)"

lemma row_cells_80: "fits R \<Longrightarrow> \<forall>r \<in> set (map (row_cells b color) R). length r = 80"
  unfolding fits_def by fastforce

lemma length_visible: "shell_geo S \<Longrightarrow> length (visible S) = 1680"
  using shell_geo_sel(4) by (simp add: visible_def)

lemma after_rows_visible:
  assumes "shell_geo S" "fits R"
  shows "visible (after_rows color R S) = scrolled (visible S) (map (row_cells (blank_cell S) color) R)"
    "shell_geo (after_rows color R S)"
    "content (after_rows color R S) = scrolled (visible S) (map (row_cells (blank_cell S) color) R) @ replicate 80 (blank_cell S)"
proof -
  have "length (scrolled (visible S) (map (row_cells (blank_cell S) color) R)) = 1680"
    by (rule length_scrolled [OF length_visible [OF assms(1)] row_cells_80 [OF assms(2)]])
  with assms(1) show "visible (after_rows color R S) = scrolled (visible S) (map (row_cells (blank_cell S) color) R)"
    "shell_geo (after_rows color R S)"
    "content (after_rows color R S) = scrolled (visible S) (map (row_cells (blank_cell S) color) R) @ replicate 80 (blank_cell S)"
    by (simp_all add: visible_def after_rows_def)
qed

lemma after_rows_ok:
  assumes "shell_ok S" "fits R"
  shows "shell_ok (after_rows color R S)"
proof -
  let ?S = "after_rows color R S"
  have g: "shell_geo S" using assms(1) by (simp add: shell_ok_def)
  note v = after_rows_visible [OF g assms(2), of color]
  have "last_row_blank ?S t" if "t \<in> {1..5}" for t
  proof (cases "t = current_terminal S")
    case True
    have "take 80 (drop 1840 (the_term ?S)) = drop 1680 (content ?S)"
      using shell_geo_sel(3) [OF v(2)] by (simp add: content_def drop_take)
    also have "\<dots> = replicate 80 (blank_cell S)"
      using length_scrolled [OF length_visible [OF g] row_cells_80 [OF assms(2)], of "blank_cell S" color]
      by (simp add: v(3))
    finally show ?thesis using True by (simp add: last_row_blank_def the_term_def)
  next
    case False
    with assms(1) that show ?thesis by (simp add: shell_ok_def last_row_blank_def after_rows_other)
  qed
  with assms(1) v(2) show ?thesis by (simp add: shell_ok_def)
qed

lemma scrolled_append:
  assumes "length B = 1680" "\<forall>r \<in> set R. length r = 80" "\<forall>r \<in> set R'. length r = 80"
  shows "scrolled (scrolled B R) R' = scrolled B (R @ R')"
proof -
  have "drop (80 * length R) (B @ concat R @ concat R') = scrolled B R @ concat R'"
    using assms by (simp add: scrolled_def length_concat_80)
  moreover have "80 * length (R @ R') = 80 * length R' + 80 * length R" by simp
  ultimately show ?thesis unfolding scrolled_def by (metis concat_append drop_drop)
qed

lemma after_rows_append:
  assumes "shell_geo S" "fits R" "fits R'"
  shows "after_rows color R' (after_rows color R S) = after_rows color (R @ R') S"
proof -
  note l = length_visible [OF assms(1)] and r = row_cells_80 [OF assms(2)] and r' = row_cells_80 [OF assms(3)]
  have "length (scrolled (visible S) (map (row_cells (blank_cell S) color) R)) = 1680"
    by (rule length_scrolled [OF l r])
  then have c: "with_content D (after_rows color R S) = with_content D S" for D
    using assms(1) by (simp add: after_rows_def)
  show ?thesis
    unfolding after_rows_def [of _ R'] c after_rows_visible [OF assms(1,2)] after_rows_sel
      scrolled_append [OF l r r'] map_append [symmetric]
    by (simp add: after_rows_def)
qed

lemma after_rows_nil: "shell_ok S \<Longrightarrow> after_rows color [] S = S"
proof -
  assume ok: "shell_ok S"
  then have g: "shell_geo S" "last_row_blank S (current_terminal S)" by (auto simp: shell_ok_def shell_geo_def)
  have "drop 1680 (content S) = replicate 80 (blank_cell S)"
    using g(2) shell_geo_sel(3) [OF g(1)] by (simp add: content_def last_row_blank_def the_term_def drop_take)
  then have "content S = visible S @ replicate 80 (blank_cell S)"
    using append_take_drop_id [of 1680 "content S"] by (simp add: visible_def)
  with g(1) show ?thesis by (simp add: after_rows_def scrolled_def flip: \<open>content S = _\<close>)
qed

section \<open>The printer contract\<close>

text \<open>What a client that prints lines relies on, and what it gets for a whole report.\<close>

locale line_printer =
  fixes ok :: "'s \<Rightarrow> bool" and accepts :: "'l \<Rightarrow> bool" and print :: "'l \<Rightarrow> 's \<Rightarrow> 's option"
    and scroll :: "'l list \<Rightarrow> 's \<Rightarrow> 's"
  assumes print_line: "ok s \<Longrightarrow> accepts l \<Longrightarrow> print l s = Some (scroll [l] s)"
    and scroll_ok: "ok s \<Longrightarrow> \<forall>l \<in> set ls. accepts l \<Longrightarrow> ok (scroll ls s)"
    and scroll_append: "ok s \<Longrightarrow> \<forall>l \<in> set (ls @ ms). accepts l \<Longrightarrow> scroll ms (scroll ls s) = scroll (ls @ ms) s"
    and scroll_nil: "ok s \<Longrightarrow> scroll [] s = s"
begin

lemma print_all: "ok s \<Longrightarrow> \<forall>l \<in> set ls. accepts l \<Longrightarrow> for_each print ls s = Some (scroll ls s)"
proof (induction ls arbitrary: s)
  case (Cons l ls)
  then have "ok (scroll [l] s)" using scroll_ok [of s "[l]"] by simp
  with Cons print_line [of s l] scroll_append [of s "[l]" ls] show ?case by simp
qed (simp add: scroll_nil)

lemma print_twice:
  "ok s \<Longrightarrow> \<forall>l \<in> set (ls @ ms). accepts l \<Longrightarrow>
     Option.bind (for_each print ls s) (for_each print ms) = Some (scroll (ls @ ms) s)"
  using print_all [of s "ls @ ms"] by simp

end

definition line_fits :: "u8 list \<Rightarrow> bool" where
  "line_fits l \<longleftrightarrow> fits (rows_from [] l)"

definition shell_scroll :: "u8 list list \<Rightarrow> shell \<Rightarrow> shell" where
  "shell_scroll ls S = after_rows (terminal_color (colours S)) (concat (map (rows_from []) ls)) S"

lemma fits_concat: "\<forall>l \<in> set ls. line_fits l \<Longrightarrow> fits (concat (map (rows_from []) ls))"
  by (auto simp: line_fits_def fits_def)

interpretation terminal: line_printer shell_ok line_fits WriteC shell_scroll
proof
  fix S l assume "shell_ok S" "line_fits l"
  then show "WriteC l S = Some (shell_scroll [l] S)"
    using write_line_eq [of S l "terminal_color (colours S)"]
    by (simp add: WriteC_line shell_scroll_def line_fits_def fits_def)
next
  fix S ls assume "shell_ok S" "\<forall>l \<in> set ls. line_fits l"
  then show "shell_ok (shell_scroll ls S)" by (simp add: shell_scroll_def after_rows_ok fits_concat)
next
  fix S ls ms assume a: "shell_ok S" "\<forall>l \<in> set (ls @ ms). line_fits l"
  then have "shell_geo S" by (simp add: shell_ok_def)
  with a show "shell_scroll ms (shell_scroll ls S) = shell_scroll (ls @ ms) S"
    by (simp add: shell_scroll_def after_rows_append fits_concat)
next
  fix S assume "shell_ok S"
  then show "shell_scroll [] S = S" by (simp add: shell_scroll_def after_rows_nil)
qed

end
