(* ===== verification/Shell_Display.thy ===== *)
theory Shell_Display
  imports Shell_Contract
begin

text \<open>
  What the user sees: \<open>UpdateScreen\<close> copies the header, the status bar, the current terminal and
  the prompt to video memory, and \<open>RenderHeader\<close> marks the tab of the current terminal.
\<close>

section \<open>Copying to video memory\<close>

definition paint :: "(nat \<Rightarrow> u16) \<Rightarrow> nat list \<Rightarrow> mem \<Rightarrow> mem" where
  "paint h ps = fold (\<lambda>p. set_cell p (h p)) ps"

lemma cell_paint:
  "\<forall>p \<in> set ps. p < 2 ^ 30 \<Longrightarrow> k < 2 ^ 30 \<Longrightarrow> cell (paint h ps m) k = (if k \<in> set ps then h k else cell m k)"
  unfolding paint_def by (induction ps arbitrary: m) auto

lemma paint_outside:
  "\<forall>p \<in> set ps. p < 2000 \<Longrightarrow> x < 0xB8000 \<or> 0xB8000 + 4000 \<le> x \<Longrightarrow> x < 2 ^ 32 \<Longrightarrow>
     paint h ps m (of_nat x) = m (of_nat x)"
  unfolding paint_def by (induction ps arbitrary: m) (auto simp: set_cell_outside)

lemma for_each_paint:
  "\<forall>p \<in> set ps. f p = Some (h p) \<Longrightarrow>
     for_each (\<lambda>p M. do { v \<leftarrow> f p; Some (put_cell SCREEN_ADDR p v M) }) ps M
       = Some (M\<lparr>ram := paint h ps (ram M)\<rparr>)"
proof (induction ps arbitrary: M)
  case (Cons p ps)
  then show ?case by (simp add: put_cell_def set_cell_def paint_def)
qed (simp add: paint_def)

lemma for_each_paint_range:
  assumes "\<And>p. a \<le> p \<Longrightarrow> p < b \<Longrightarrow> f p = Some (h p)"
  shows "for_each (\<lambda>p M. do { v \<leftarrow> f p; Some (put_cell SCREEN_ADDR p v M) }) [a..<b] M
    = Some (M\<lparr>ram := paint h [a..<b] (ram M)\<rparr>)"
  by (rule for_each_paint) (use assms in simp)

text \<open>What the shell shows at a screen position.\<close>

definition shown :: "shell \<Rightarrow> nat \<Rightarrow> u16" where
  "shown S p = (if p < 80 then terminal_screen_header S ! p
     else if p < 160 then terminal_screen_status S ! p
     else if p < 1920 then ucast (content S ! (p - 160))
     else terminal_screen_footer S ! p)"

lemma UpdateScreen_eq:
  assumes g: "shell_geo S" and s: "screen S = SCREEN_ADDR" and n: "GetBufferSize K = Some n"
  shows "UpdateScreen K (M, S) = Some (Cursor_moveTo (of_nat (n + 7)) 24
    (M\<lparr>ram := paint (shown S) [1920..<2000] (paint (shown S) [160..<1920]
       (paint (shown S) [80..<160] (paint (shown S) [0..<80] (ram M))))\<rparr>))"
proof -
  note L = shell_geo_sel [OF g]
  have h: "aget (terminal_screen_header S) p = Some (shown S p)" if "p < 80" for p
    using g that by (simp add: aget_def shell_geo_def shown_def)
  have t: "aget (terminal_screen_status S) p = Some (shown S p)" if "80 \<le> p" "p < 160" for p
    using g that by (simp add: aget_def shell_geo_def shown_def)
  have f: "aget (terminal_screen_footer S) p = Some (shown S p)" if "1920 \<le> p" "p < 2000" for p
    using g that by (simp add: aget_def shell_geo_def shown_def)
  have c: "map_option ucast (get_content (current_terminal S) p S) = Some (shown S p)" if "160 \<le> p" "p < 1920" for p
    using content_access(1) [OF g, of "p - 160" p] that by (simp add: shown_def)
  have m: "(do { v \<leftarrow> x; Some (put_cell b p (ucast v) M) }) = (do { v \<leftarrow> map_option ucast x; Some (put_cell b p v M) })"
    for x :: "u32 option" and b p M by (cases x) auto
  note P = for_each_paint_range [where a = 0 and b = 80, OF h] for_each_paint_range [where a = 80 and b = 160, OF t]
    for_each_paint_range [where a = 160 and b = 1920, OF c] for_each_paint_range [where a = 1920 and b = 2000, OF f]
  show ?thesis
    unfolding UpdateScreen_def Let_def prod.case L(1) start_layout_sel s m
    by (simp add: P n del: upt_rec_numeral upt_Suc upt_0)
qed

section \<open>The header\<close>

text \<open>Cells written from a column on.\<close>

definition with_cells :: "nat \<Rightarrow> u16 list \<Rightarrow> shell \<Rightarrow> shell" where
  "with_cells col cs S = S\<lparr>terminal_screen_header :=
     take col (terminal_screen_header S) @ cs @ drop (col + length cs) (terminal_screen_header S)\<rparr>"

lemma with_cells_sel [simp]:
  "colours (with_cells col cs S) = colours S" "current_terminal (with_cells col cs S) = current_terminal S"
  "layout (with_cells col cs S) = layout S"
  by (simp_all add: with_cells_def)

lemma length_with_cells [simp]:
  "length (terminal_screen_header S) = 80 \<Longrightarrow> col + length cs \<le> 80 \<Longrightarrow>
     length (terminal_screen_header (with_cells col cs S)) = 80"
  by (simp add: with_cells_def)

lemma with_cells_append:
  assumes "length (terminal_screen_header S) = 80" "col + length as \<le> 80" "c = col + length as"
  shows "with_cells c bs (with_cells col as S) = with_cells col (as @ bs) S"
  using assms by (simp add: with_cells_def ac_simps)

lemma header_text_eq:
  "length (terminal_screen_header S) = 80 \<Longrightarrow> col + length cs \<le> 80 \<Longrightarrow>
     header_text color cs (col, S) = Some (col + length cs, with_cells col (map (\<lambda>c. setColor c color) cs) S)"
proof (induction cs arbitrary: col S)
  case Nil
  then show ?case by (simp add: with_cells_def)
next
  case (Cons c cs)
  have s: "set_header col (setColor c color) S = Some (with_cells col [setColor c color] S)"
    using Cons.prems by (simp add: set_header_def aset_def with_cells_def upd_conv_take_nth_drop)
  from Cons.IH [of "with_cells col [setColor c color] S" "col + 1"] Cons.prems s show ?case
    by (simp add: with_cells_append)
qed

definition tab_label :: "nat \<Rightarrow> u8 list" where
  "tab_label tab = [0x5B, 0x30 + of_nat tab] @ (if tab = 5 then str '' dbg'' else str '' term'') @ [0x5D]"

definition tab_color :: "shell \<Rightarrow> nat \<Rightarrow> u8" where
  "tab_color S tab = (if tab = current_terminal S then header_color_tab_active (colours S)
     else header_color_tab_inactive (colours S))"

definition tab_cells :: "shell \<Rightarrow> nat \<Rightarrow> u16 list" where
  "tab_cells S tab = map (\<lambda>c. setColor c (tab_color S tab)) (tab_label tab) @ [setColor 0x20 (header_color (colours S))]"

lemma header_text_append:
  "header_text color (as @ bs) s = Option.bind (header_text color as s) (header_text color bs)"
proof (induction as arbitrary: s)
  case (Cons a as)
  obtain col S where s: "s = (col, S)" by (cases s)
  show ?case unfolding s using Cons by (cases "set_header col (setColor a color) S") auto
qed simp

lemma header_text_append':
  "header_text color (as @ bs) = (\<lambda>s. Option.bind (header_text color as s) (header_text color bs))"
  by (rule ext) (rule header_text_append)

lemma header_tab_eq:
  assumes "length (terminal_screen_header S) = 80" "col + length (tab_cells S tab) \<le> 80"
  shows "header_tab tab (col, S) = Some (col + length (tab_cells S tab), with_cells col (tab_cells S tab) S)"
proof -
  have "header_tab tab (col, S) =
      Option.bind (header_text (tab_color S tab) (tab_label tab) (col, S)) (header_text (header_color (colours S)) [0x20])"
    by (simp only: header_tab_def tab_label_def header_text_append' Let_def tab_color_def snd_conv Option.bind_assoc)
  also have "\<dots> = Some (col + length (tab_cells S tab), with_cells col (tab_cells S tab) S)"
    using assms header_text_eq [of "with_cells col (map (\<lambda>c. setColor c (tab_color S tab)) (tab_label tab)) S"
        "col + length (tab_label tab)" "[0x20]" "header_color (colours S)"]
    by (simp add: tab_cells_def header_text_eq with_cells_append)
  finally show ?thesis .
qed

lemma header_tabs_eq:
  "length (terminal_screen_header S) = 80 \<Longrightarrow> col + length (concat (map (tab_cells S) tabs)) \<le> 80 \<Longrightarrow>
     for_each header_tab tabs (col, S) = Some (col + length (concat (map (tab_cells S) tabs)),
       with_cells col (concat (map (tab_cells S) tabs)) S)"
proof (induction tabs arbitrary: col S)
  case Nil
  then show ?case by (simp add: with_cells_def)
next
  case (Cons t tabs)
  have tc: "tab_cells (with_cells col cs S) = tab_cells S" for cs
    by (rule ext) (simp add: tab_cells_def tab_color_def)
  from Cons.prems Cons.IH [of "with_cells col (tab_cells S t) S" "col + length (tab_cells S t)"]
  show ?case by (simp add: header_tab_eq tc with_cells_append ac_simps)
qed

definition header_cells :: "shell \<Rightarrow> u16 list" where
  "header_cells S = map (\<lambda>c. setColor c (header_color (colours S))) (str '' Shiro 0.5  '' @ [0xB3, 0x20])
     @ concat (map (tab_cells S) [1..<6]) @ replicate 6 (setColor 0x20 (header_color (colours S)))"

lemma header_cells_eq:
  "header_cells S = map (\<lambda>c. setColor c (header_color (colours S))) (str '' Shiro 0.5  '' @ [0xB3, 0x20])
     @ tab_cells S 1 @ tab_cells S 2 @ tab_cells S 3 @ tab_cells S 4 @ tab_cells S 5
     @ replicate 6 (setColor 0x20 (header_color (colours S)))"
proof -
  have "[1..<6] = [1, 2, 3, 4, 5 :: nat]" by (simp add: upt_rec)
  then show ?thesis unfolding header_cells_def by (simp only:) simp
qed

lemma length_header_cells: "length (header_cells S) = 64"
  unfolding header_cells_eq by (simp add: tab_cells_def tab_label_def)

lemma header_fill:
  assumes "length (terminal_screen_header S) = 80" "b \<le> 80"
  shows "for_each (\<lambda>pos. set_header pos v) [0..<b] S = Some (with_cells 0 (replicate b v) S)"
  using assms(2)
proof (induction b)
  case 0
  then show ?case by (simp add: with_cells_def)
next
  case (Suc b)
  have "set_header b v (with_cells 0 (replicate b v) S) = Some (with_cells b [v] (with_cells 0 (replicate b v) S))"
    using Suc.prems assms(1) by (simp add: set_header_def aset_def with_cells_def upd_conv_take_nth_drop)
  with Suc assms(1) show ?case by (simp add: with_cells_append replicate_append_same)
qed

lemma RenderHeader_eq:
  assumes "shell_geo S"
  shows "RenderHeader S = Some (S\<lparr>terminal_screen_header := header_cells S @ drop 64 (terminal_screen_header S)\<rparr>)"
proof -
  let ?hc = "header_color (colours S)" and ?sp = "setColor 0x20 (header_color (colours S))"
  let ?h = "terminal_screen_header S"
  have g: "layout S = start_layout" "length ?h = 80" using assms by (auto simp: shell_geo_def)
  let ?S1 = "with_cells 0 (replicate 64 ?sp) S"
  let ?t = "map (\<lambda>c. setColor c ?hc) (str '' Shiro 0.5  '' @ [0xB3])"
  let ?tabs = "concat (map (tab_cells S) [1..<6])"
  have f: "for_each (\<lambda>pos. set_header pos ?sp) [0..<64] S = Some ?S1" using header_fill [OF g(2)] by simp
  have l1: "length (terminal_screen_header ?S1) = 80" using g(2) by simp
  let ?a = "map (\<lambda>c. setColor c ?hc) (str '' Shiro 0.5  '')"
  have t1: "header_text ?hc (str '' Shiro 0.5  '') (0, ?S1) = Some (12, with_cells 0 ?a ?S1)"
    using header_text_eq [OF l1, of 0 "str '' Shiro 0.5  ''" ?hc] by simp
  have "length (terminal_screen_header (with_cells 0 ?a ?S1)) = 80" using l1 by simp
  from header_text_eq [OF this, of 12 "[0xB3]" ?hc]
  have t2: "header_text ?hc [0xB3] (12, with_cells 0 ?a ?S1) = Some (13, with_cells 0 ?t ?S1)"
    using l1 by (simp add: with_cells_append)
  have "[1..<6] = [1, 2, 3, 4, 5 :: nat]" by (simp add: upt_rec)
  then have lt: "length ?tabs = 44" by (simp only:) (simp add: tab_cells_def tab_label_def)
  have tc: "tab_cells (with_cells c cs (with_cells d ds S)) = tab_cells S" for c cs d ds
    by (rule ext) (simp add: tab_cells_def tab_color_def)
  let ?S2 = "with_cells 0 ?t ?S1"
  have l2: "length (terminal_screen_header ?S2) = 80" using l1 by simp
  have tabs: "for_each header_tab [1..<6] (14, ?S2) = Some (58, with_cells 14 ?tabs ?S2)"
    using header_tabs_eq [OF l2, of 14 "[1..<6]"] lt by (simp only: tc) simp
  have "RenderHeader S = Some (with_cells 14 ?tabs ?S2)"
    unfolding RenderHeader_def Let_def g(1) start_layout_sel add_0
    by (simp only: f t1 t2 tabs Option.bind.simps prod.case) (simp add: tabs [simplified] del: upt_rec_numeral)
  also have "with_cells 14 ?tabs ?S2 = S\<lparr>terminal_screen_header := header_cells S @ drop 64 ?h\<rparr>"
    using lt g(2) by (simp add: with_cells_def header_cells_def)
  finally show ?thesis .
qed

section \<open>Start\<close>

lemma fill_terminal:
  assumes "t < length (terminal_screens S)" "length (terminal_screens S ! t) = 3000" "n \<le> 1760"
  shows "for_each (\<lambda>pos. set_content t pos v) [160..<160 + n] S = Some (S\<lparr>terminal_screens := (terminal_screens S)
     [t := take 160 (terminal_screens S ! t) @ replicate n v @ drop (160 + n) (terminal_screens S ! t)]\<rparr>)"
  using assms(3)
proof (induction n)
  case 0
  then show ?case by simp
next
  case (Suc n)
  let ?c = "terminal_screens S ! t"
  have l: "(take 160 ?c @ replicate n v @ drop (160 + n) ?c)[160 + n := v] = take 160 ?c @ replicate (Suc n) v @ drop (160 + Suc n) ?c"
  proof -
    have "drop (160 + n) ?c = ?c ! (160 + n) # drop (160 + Suc n) ?c"
      by (rule Cons_nth_drop_Suc [of "160 + n" ?c, symmetric, unfolded add_Suc_right [symmetric]]) (use assms(2) Suc.prems in simp)
    moreover have "length (take 160 ?c @ replicate n v) = 160 + n" using assms(2) Suc.prems by simp
    ultimately have "(take 160 ?c @ replicate n v @ drop (160 + n) ?c)[160 + n := v]
        = (take 160 ?c @ replicate n v) @ v # drop (160 + Suc n) ?c"
      by (metis append_assoc list_update_length)
    then show ?thesis by (simp add: replicate_append_same [symmetric])
  qed
  have "set_content t (160 + n) v (S\<lparr>terminal_screens := (terminal_screens S)
      [t := take 160 ?c @ replicate n v @ drop (160 + n) ?c]\<rparr>)
    = Some (S\<lparr>terminal_screens := (terminal_screens S)
      [t := take 160 ?c @ replicate (Suc n) v @ drop (160 + Suc n) ?c]\<rparr>)"
    using Suc.prems assms(1,2) unfolding l [symmetric] by (simp add: set_content_def aget_def aset_def)
  moreover have "[160..<160 + Suc n] = [160..<160 + n] @ [160 + n]"
    by (simp only: add_Suc_right upt_Suc_append le_add1)
  ultimately show ?case using Suc by (simp only: for_each_append) simp
qed

text \<open>The members \<open>Start\<close> sets, on arrays of the right sizes.\<close>

definition shell_arrays :: "shell \<Rightarrow> bool" where
  "shell_arrays S \<longleftrightarrow> length (terminal_screen_header S) = 80 \<and> length (terminal_screen_status S) = 160
     \<and> length (terminal_screen_footer S) = 2000 \<and> length (terminal_screens S) = 10
     \<and> (\<forall>xs \<in> set (terminal_screens S). length xs = 3000)"

lemma shell_geo_arrays:
  "shell_geo S \<longleftrightarrow> layout S = start_layout \<and> shell_arrays S \<and> current_terminal S \<in> {1..5}"
  by (auto simp: shell_geo_def shell_arrays_def)

text \<open>Steps of the start-up: they keep the geometry and the terminals but for the one they clear.\<close>

definition same_but :: "nat set \<Rightarrow> shell \<Rightarrow> shell \<Rightarrow> bool" where
  "same_but T S S' \<longleftrightarrow> colours S' = colours S \<and> screen S' = screen S \<and> current_terminal S' = current_terminal S
     \<and> content_current_x S' = content_current_x S \<and> layout S' = layout S \<and> (shell_arrays S \<longrightarrow> shell_arrays S')
     \<and> (\<forall>t. t \<notin> T \<longrightarrow> terminal_screens S' ! t = terminal_screens S ! t)"

lemma same_but_refl [simp]: "same_but {} S S"
  by (simp add: same_but_def)

lemma same_but_trans: "same_but T S S' \<Longrightarrow> same_but U S' S'' \<Longrightarrow> same_but (T \<union> U) S S''"
  by (auto simp: same_but_def)

lemma same_but_geo: "same_but T S S' \<Longrightarrow> shell_geo S \<Longrightarrow> shell_geo S'"
  by (auto simp: same_but_def shell_geo_arrays)

lemma StartTerminal_step:
  assumes "shell_geo S" "t \<in> {1..5}"
  shows "\<exists>M' S'. StartTerminal t (M, S) = Some (M', S') \<and> same_but {t} S S'
    \<and> take 1760 (drop 160 (terminal_screens S' ! t)) = replicate 1760 (blank_cell S)"
proof -
  have t: "t < length (terminal_screens S)" "length (terminal_screens S ! t) = 3000"
    using assms by (auto simp: shell_geo_def)
  let ?xs = "take 160 (terminal_screens S ! t) @ replicate 1760 (blank_cell S) @ drop 1920 (terminal_screens S ! t)"
  let ?S = "S\<lparr>terminal_screens := (terminal_screens S)[t := ?xs]\<rparr>"
  have "StartTerminal t (M, S) = Some (log_line [LStr ''> Initializing Terminal #'', LInt (of_nat t)] M, ?S)"
    using fill_terminal [OF t, of 1760 "blank_cell S"] shell_geo_sel(1) [OF assms(1)]
    by (simp add: StartTerminal_def Let_def blank_cell_def del: upt_rec_numeral)
  moreover have "same_but {t} S ?S"
    using t set_update_subset_insert [of "terminal_screens S" t ?xs] assms(1)
    by (auto simp: same_but_def shell_arrays_def dest!: subsetD [OF set_update_subset_insert])
  moreover have "take 1760 (drop 160 (terminal_screens ?S ! t)) = replicate 1760 (blank_cell S)" using t by simp
  ultimately show ?thesis by blast
qed

lemma updated_step:
  assumes "shell_geo S" "screen S = SCREEN_ADDR" "GetBufferSize K = Some n"
  shows "\<exists>M'. updated K M (Some S) = Some (M', S)"
  using UpdateScreen_eq [OF assms] by (simp add: updated_def)

lemma for_each_same:
  assumes "\<And>i S. i \<in> set is \<Longrightarrow> shell_geo S \<Longrightarrow> \<exists>S'. f i S = Some S' \<and> same_but {} S S'" "shell_geo S"
  shows "\<exists>S'. for_each f is S = Some S' \<and> same_but {} S S'"
  using assms
proof (induction "is" arbitrary: S)
  case (Cons i "is")
  from Cons.prems obtain S1 where s: "f i S = Some S1" "same_but {} S S1" by (meson list.set_intros(1))
  from Cons.IH [OF Cons.prems(1)] same_but_geo [OF s(2) Cons.prems(2)] obtain S2 where
    "for_each f is S1 = Some S2" "same_but {} S1 S2" by (meson list.set_intros(2))
  with s same_but_trans [OF s(2)] show ?case by fastforce
qed simp

lemma for_each_same_range:
  assumes "\<And>i S. a \<le> i \<Longrightarrow> i < b \<Longrightarrow> shell_geo S \<Longrightarrow> \<exists>S'. f i S = Some S' \<and> same_but {} S S'" "shell_geo S"
  shows "\<exists>S'. for_each f [a..<b] S = Some S' \<and> same_but {} S S'"
  by (rule for_each_same [OF assms(1) assms(2)]) (simp_all del: upt_rec_numeral)

lemma set_same:
  assumes "shell_geo S"
  shows "p < 80 \<Longrightarrow> \<exists>S'. set_header p v S = Some S' \<and> same_but {} S S'"
    "p < 160 \<Longrightarrow> \<exists>S'. set_status p v S = Some S' \<and> same_but {} S S'"
    "p < 2000 \<Longrightarrow> \<exists>S'. set_footer p v S = Some S' \<and> same_but {} S S' \<and> footer_current_x S' = footer_current_x S"
  using assms by (auto simp: set_header_def set_status_def set_footer_def aset_def same_but_def
      shell_arrays_def shell_geo_def)

lemma StartTerminalHeader_step:
  assumes "shell_geo S"
  shows "\<exists>M' S'. StartTerminalHeader (M, S) = Some (M', S') \<and> same_but {} S S'"
proof -
  obtain S' where "for_each (\<lambda>pos. set_header pos (setColor 0x20 (header_color (colours S)))) [0..<80] S = Some S'"
    "same_but {} S S'"
    using for_each_same_range [of 0 80 "\<lambda>pos. set_header pos (setColor 0x20 (header_color (colours S)))" S]
      set_same(1) assms by blast
  then show ?thesis
    using shell_geo_sel(1) [OF assms] by (simp add: StartTerminalHeader_def Let_def del: upt_rec_numeral)
qed

lemma status_fill_step:
  assumes "shell_geo S"
  shows "\<exists>S'. status_fill S = Some S' \<and> same_but {} S S'"
  unfolding status_fill_def shell_geo_sel(1) [OF assms] start_layout_sel
  by (rule for_each_same_range [OF _ assms]) (rule set_same(2))

lemma status_text_step:
  "shell_geo S \<Longrightarrow> limit \<le> 160 \<Longrightarrow> \<exists>S'. status_text cs col limit S = Some S' \<and> same_but {} S S'"
proof (induction cs arbitrary: S col)
  case (Cons c cs)
  show ?case
  proof (cases "col < limit")
    case True
    with Cons.prems set_same(2) [of S col] obtain S1 where
      s: "set_status col (setColor c (status_color (colours S))) S = Some S1" "same_but {} S S1" by (meson less_le_trans)
    from Cons.IH [OF same_but_geo [OF s(2) Cons.prems(1)] Cons.prems(2)] obtain S2 where
      "status_text cs (col + 1) limit S1 = Some S2" "same_but {} S1 S2" by blast
    with s same_but_trans [OF s(2)] True show ?thesis by fastforce
  qed simp
qed simp

lemma RenderStatus_step:
  assumes "shell_geo S"
  shows "\<exists>S'. RenderStatus text S = Some S' \<and> same_but {} S S'"
proof -
  obtain S1 where s: "status_fill S = Some S1" "same_but {} S S1" using status_fill_step [OF assms] by blast
  from status_text_step [OF same_but_geo [OF s(2) assms], of 159] obtain S2 where
    "status_text text 81 159 S1 = Some S2" "same_but {} S1 S2" by fastforce
  with s same_but_trans [OF s(2)] show ?thesis
    using shell_geo_sel(1) [OF assms] by (fastforce simp: RenderStatus_def)
qed

lemma footer_x_geo [simp]:
  "shell_geo (S\<lparr>footer_current_x := x\<rparr>) = shell_geo S" "same_but {} S (S'\<lparr>footer_current_x := x\<rparr>) = same_but {} S S'"
  "same_but {} (S\<lparr>footer_current_x := x\<rparr>) S' = same_but {} S S'"
  by (simp_all add: shell_geo_def same_but_def shell_arrays_def)

lemma write_f_loop_step:
  "shell_geo S \<Longrightarrow> footer_current_x S + length cs \<le> 80 \<Longrightarrow>
     \<exists>S'. write_f_loop limit cs gi S = Some S' \<and> same_but {} S S'"
proof (induction cs arbitrary: S gi)
  case (Cons c cs)
  let ?S1 = "if limit \<le> gi then S\<lparr>footer_current_x := 0\<rparr> else S"
  let ?gi = "footer_starting_point (layout S) + footer_current_x ?S1"
  have g1: "shell_geo ?S1" "same_but {} S ?S1" "footer_current_x ?S1 \<le> footer_current_x S" using Cons.prems by simp_all
  have "?gi < 2000" using g1(3) Cons.prems shell_geo_sel(1) [OF Cons.prems(1)] by simp
  with set_same(3) [OF g1(1)] obtain S2 where
    s: "set_footer ?gi (setColor c (footer_color (colours S))) ?S1 = Some S2" "same_but {} ?S1 S2"
      "footer_current_x S2 = footer_current_x ?S1" by blast
  let ?S2 = "S2\<lparr>footer_current_x := footer_current_x S2 + 1\<rparr>"
  have "shell_geo ?S2" "footer_current_x ?S2 + length cs \<le> 80"
    using same_but_geo [OF s(2) g1(1)] s(3) g1(3) Cons.prems by simp_all
  from Cons.IH [OF this] obtain S3 where "write_f_loop limit cs ?gi ?S2 = Some S3" "same_but {} S2 S3" by auto
  with s same_but_trans [OF g1(2) s(2)] same_but_trans [of "{}" S S2 "{}" S3] show ?case
    by (fastforce simp: Let_def)
qed simp

lemma WriteF_step:
  assumes "shell_geo S" "footer_current_x S + length cs \<le> 80" "screen S = SCREEN_ADDR" "GetBufferSize K = Some n"
  shows "\<exists>M' S'. WriteF cs K (M, S) = Some (M', S') \<and> same_but {} S S'"
proof -
  obtain S' where s: "write_f_loop (footer_size (layout S) - 1) cs 0 S = Some S'" "same_but {} S S'"
    using write_f_loop_step [OF assms(1,2)] by blast
  have "screen S' = SCREEN_ADDR" using s(2) assms(3) by (simp add: same_but_def)
  from updated_step [OF same_but_geo [OF s(2) assms(1)] this assms(4), of M] obtain M' where
    "updated K M (Some S') = Some (M', S')" by blast
  with s show ?thesis by (simp add: WriteF_def)
qed

lemma StartTerminalFooter_step:
  assumes "shell_geo S" "screen S = SCREEN_ADDR" "GetBufferSize K = Some n"
  shows "\<exists>M' S'. StartTerminalFooter K (M, S) = Some (M', S') \<and> same_but {} S S'"
proof -
  obtain S1 where s: "for_each (\<lambda>pos. set_footer pos (setColor 0x20 (footer_color (colours S)))) [1920..<2000] S = Some S1"
    "same_but {} S S1"
    using for_each_same_range [of 1920 2000 "\<lambda>pos. set_footer pos (setColor 0x20 (footer_color (colours S)))" S]
      set_same(3) assms(1) by blast
  let ?S1 = "S1\<lparr>footer_current_x := 0\<rparr>"
  have "shell_geo ?S1" "screen ?S1 = SCREEN_ADDR"
    using same_but_geo [OF s(2) assms(1)] s(2) assms(2) by (simp_all add: same_but_def)
  from WriteF_step [OF this(1) _ this(2) assms(3), of "str ''Shiro> ''" M] obtain M' S' where
    "WriteF (str ''Shiro> '') K (M, ?S1) = Some (M', S')" "same_but {} S1 S'" by auto
  with s same_but_trans [OF s(2), of "{}" S'] show ?thesis
    using shell_geo_sel(1) [OF assms(1)] by (simp add: StartTerminalFooter_def Let_def del: upt_rec_numeral)
qed

section \<open>The greeting\<close>

definition view :: "nat \<Rightarrow> shell \<Rightarrow> u32 list" where
  "view t S = visible (S\<lparr>current_terminal := t\<rparr>)"

lemma view_alt: "view t S = take 1680 (drop 160 (terminal_screens S ! t))"
  by (simp add: view_def visible_def content_def the_term_def)

lemma current_sel [simp]:
  "colours (S\<lparr>current_terminal := t\<rparr>) = colours S" "blank_cell (S\<lparr>current_terminal := t\<rparr>) = blank_cell S"
  "view u (S\<lparr>current_terminal := t\<rparr>) = view u S"
  by (simp_all add: blank_cell_def view_def)

lemma shell_ok_current: "shell_ok S \<Longrightarrow> t \<in> {1..5} \<Longrightarrow> shell_ok (S\<lparr>current_terminal := t\<rparr>)"
  by (auto simp: shell_ok_def shell_geo_def last_row_blank_def)

definition started :: "shell \<Rightarrow> bool" where
  "started S \<longleftrightarrow> shell_ok S \<and> screen S = SCREEN_ADDR \<and> colours S = palette"

text \<open>One call of \<open>echo\<close> on terminal \<open>t\<close>.\<close>

lemma echo_step:
  assumes "started S" "t \<in> {1..5}" "line_fits text" "GetBufferSize K = Some n"
  shows "\<exists>M' S'. echo text K (M, S\<lparr>current_terminal := t\<rparr>) = Some (M', S') \<and> started S'
    \<and> current_terminal S' = t \<and> blank_cell S' = blank_cell S
    \<and> view t S' = scrolled (view t S) (map (row_cells (blank_cell S) (terminal_color palette)) (rows_from [] text))
    \<and> (\<forall>u. u \<noteq> t \<longrightarrow> view u S' = view u S)"
proof -
  let ?S = "S\<lparr>current_terminal := t\<rparr>"
  let ?S' = "after_rows (terminal_color palette) (rows_from [] text) ?S"
  have ok: "shell_ok ?S" using shell_ok_current assms(1,2) by (simp add: started_def)
  then have g: "shell_geo ?S" by (simp add: shell_ok_def)
  have f: "fits (rows_from [] text)" using assms(3) by (simp add: line_fits_def)
  have w: "WriteC text ?S = Some ?S'"
    using write_line_eq [OF ok] f assms(1) by (simp add: WriteC_line fits_def started_def)
  have s: "started ?S'" using after_rows_ok [OF ok f] assms(1) by (simp add: started_def)
  then have "shell_geo ?S'" "screen ?S' = SCREEN_ADDR" by (auto simp: started_def shell_ok_def)
  from updated_step [OF this assms(4)] obtain M' where "updated K M (Some ?S') = Some (M', ?S')" by blast
  moreover have "view t ?S' = visible ?S'" by (simp add: view_alt visible_def content_def the_term_def)
  moreover have "visible ?S = view t S" by (simp add: view_def)
  moreover have "view u ?S' = view u S" if "u \<noteq> t" for u
    using that after_rows_other [of u ?S] by (simp add: view_alt)
  ultimately show ?thesis
    using w s after_rows_visible(1) [OF g f, of "terminal_color palette"]
    by (intro exI [of _ M'] exI [of _ ?S']) (simp add: echo_def)
qed

definition greeting :: "nat \<Rightarrow> u8 list" where
  "greeting t = (if t = 5 then str ''> THE DEBUG TERMINAL IS LOADED AND READY TO GO''
     else str ''> SHIRO IS LOADED AND READY TO GO'')"

definition greeted :: "nat \<Rightarrow> shell \<Rightarrow> bool" where
  "greeted t S \<longleftrightarrow> view t S = scrolled (replicate 1680 (blank_cell S))
     (map (row_cells (blank_cell S) (terminal_color palette)) [greeting t, []])"

lemma greeting_rows: "rows_from [] (greeting t @ [0x0A]) = [greeting t, []]" "line_fits (greeting t @ [0x0A])"
proof -
  have n: "0x0A \<notin> set (greeting t)" "length (greeting t) \<le> 79" by (simp_all add: greeting_def)
  have "rows_from p (s @ [0x0A]) = [p @ s, []]" if "0x0A \<notin> set s" for p s
    using that by (induction s arbitrary: p) auto
  with n show r: "rows_from [] (greeting t @ [0x0A]) = [greeting t, []]" by simp
  with n show "line_fits (greeting t @ [0x0A])" by (simp add: line_fits_def fits_def)
qed

lemma greet_step:
  assumes "started S" "t \<in> {1..5}" "GetBufferSize K = Some n" "view t S = replicate 1680 (blank_cell S)"
  shows "\<exists>M' S'. echo (greeting t @ [0x0A]) K (M, S\<lparr>current_terminal := t\<rparr>) = Some (M', S') \<and> started S' \<and> greeted t S'
    \<and> blank_cell S' = blank_cell S \<and> (\<forall>u. u \<noteq> t \<longrightarrow> view u S' = view u S)"
proof -
  from echo_step [OF assms(1,2) greeting_rows(2) assms(3), of t M] obtain M' S' where
    e: "echo (greeting t @ [0x0A]) K (M, S\<lparr>current_terminal := t\<rparr>) = Some (M', S')" "started S'"
    "blank_cell S' = blank_cell S"
    "view t S' = scrolled (view t S) (map (row_cells (blank_cell S) (terminal_color palette)) [greeting t, []])"
    "\<forall>u. u \<noteq> t \<longrightarrow> view u S' = view u S" unfolding greeting_rows(1) by blast
  with assms(4) show ?thesis by (auto simp: greeted_def)
qed

lemma greet_all:
  assumes "started S" "GetBufferSize K = Some n" "distinct ts" "set ts \<subseteq> {1..5}"
    "\<forall>t \<in> set ts. view t S = replicate 1680 (blank_cell S)"
  shows "\<exists>M' S'. for_each (\<lambda>t (M, S). echo (greeting t @ [0x0A]) K (M, S\<lparr>current_terminal := t\<rparr>)) ts (M, S) = Some (M', S')
    \<and> started S' \<and> blank_cell S' = blank_cell S \<and> (\<forall>t \<in> set ts. greeted t S')
    \<and> (\<forall>u. u \<notin> set ts \<longrightarrow> view u S' = view u S)"
  using assms
proof (induction ts arbitrary: M S)
  case (Cons t ts)
  from greet_step [OF Cons.prems(1) _ Cons.prems(2), of t M] Cons.prems(4,5) obtain M1 S1 where
    e: "echo (greeting t @ [0x0A]) K (M, S\<lparr>current_terminal := t\<rparr>) = Some (M1, S1)" "started S1" "greeted t S1"
    "blank_cell S1 = blank_cell S" "\<forall>u. u \<noteq> t \<longrightarrow> view u S1 = view u S" by auto
  have "\<forall>u \<in> set ts. view u S1 = replicate 1680 (blank_cell S1)" using Cons.prems(3,5) e(4,5) by auto
  from Cons.IH [OF e(2) Cons.prems(2) _ _ this, of M1] Cons.prems(3,4) obtain M2 S2 where
    r: "for_each (\<lambda>t (M, S). echo (greeting t @ [0x0A]) K (M, S\<lparr>current_terminal := t\<rparr>)) ts (M1, S1) = Some (M2, S2)"
    "started S2" "blank_cell S2 = blank_cell S1" "\<forall>t \<in> set ts. greeted t S2"
    "\<forall>u. u \<notin> set ts \<longrightarrow> view u S2 = view u S1" by auto
  have "greeted t S2" using e(3) r(3,5) Cons.prems(3) by (simp add: greeted_def)
  with e r show ?case by auto
qed simp

lemma Finish_ok:
  assumes "started S" "GetBufferSize K = Some n" "\<forall>t \<in> {1..5}. view t S = replicate 1680 (blank_cell S)"
  shows "\<exists>M' S'. Shell_Finish K (M, S) = Some (M', S') \<and> started S' \<and> current_terminal S' = current_terminal S
    \<and> (\<forall>t \<in> {1..5}. greeted t S')"
proof -
  let ?f = "\<lambda>t (M, S). echo (greeting t @ [0x0A]) K (M, S\<lparr>current_terminal := t\<rparr>)"
  let ?M0 = "log_line [LStr (''> Finishing Shell'' @ [CHR 0x0A])] M"
  have g: "str (''> SHIRO IS LOADED AND READY TO GO'' @ [CHR 0x0A]) = greeting t @ [0x0A]" if "t \<in> set [1..<5]" for t
    using that by (simp add: greeting_def)
  have g5: "str (''> THE DEBUG TERMINAL IS LOADED AND READY TO GO'' @ [CHR 0x0A]) = greeting 5 @ [0x0A]"
    by (simp add: greeting_def)
  have cong: "for_each f is s = for_each f' is s" if "\<And>i s. i \<in> set is \<Longrightarrow> f i s = f' i s"
    for f f' :: "nat \<Rightarrow> mach \<times> shell \<Rightarrow> (mach \<times> shell) option" and "is" s
    using that by (induction "is" arbitrary: s) (auto intro!: Option.bind_cong)
  have l: "for_each (\<lambda>t (M, S). echo (str (''> SHIRO IS LOADED AND READY TO GO'' @ [CHR 0x0A])) K
      (M, S\<lparr>current_terminal := t\<rparr>)) [1..<5] s = for_each ?f [1..<5] s" for s
    by (rule cong) (simp only: g)
  have ts: "[1..<5] = [1, 2, 3, 4 :: nat]" by (simp add: upt_rec)
  have s14: "distinct [1..<5 :: nat]" "set [1..<5 :: nat] \<subseteq> {1..5}" "set [1..<5] = {1, 2, 3, 4 :: nat}"
    unfolding ts by auto
  have "\<forall>t \<in> set [1..<5]. view t S = replicate 1680 (blank_cell S)" using assms(3) s14(2) by blast
  from greet_all [OF assms(1,2) s14(1,2) this, of ?M0] obtain M1 S1 where
    a: "for_each ?f [1..<5] (?M0, S) = Some (M1, S1)" "started S1" "blank_cell S1 = blank_cell S"
    "\<forall>t \<in> set [1..<5]. greeted t S1" "\<forall>u. u \<notin> set [1..<5] \<longrightarrow> view u S1 = view u S" by blast
  have "view 5 S1 = replicate 1680 (blank_cell S1)" using a(3,5) assms(3) s14(3) by auto
  from greet_step [OF a(2) _ assms(2) this, of M1] obtain M2 S2 where
    b: "echo (greeting 5 @ [0x0A]) K (M1, S1\<lparr>current_terminal := 5\<rparr>) = Some (M2, S2)" "started S2" "greeted 5 S2"
    "blank_cell S2 = blank_cell S1" "\<forall>u. u \<noteq> 5 \<longrightarrow> view u S2 = view u S1" by auto
  let ?S3 = "S2\<lparr>current_terminal := current_terminal S\<rparr>"
  have "current_terminal S \<in> {1..5}" using assms(1) by (auto simp: started_def shell_ok_def shell_geo_def)
  then have s3: "started ?S3" using shell_ok_current b(2) by (simp add: started_def)
  then have "shell_geo ?S3" "screen ?S3 = SCREEN_ADDR" by (auto simp: started_def shell_ok_def)
  from updated_step [OF this assms(2)] obtain M3 where u: "updated K M2 (Some ?S3) = Some (M3, ?S3)" by blast
  have "greeted t ?S3" if "t \<in> {1..5}" for t
  proof (cases "t = 5")
    case True
    with b(3) show ?thesis by (simp add: greeted_def)
  next
    case False
    with that have "t \<in> {1, 2, 3, 4}" by auto
    then have "greeted t S1" using a(4) unfolding s14(3) by blast
    with False b(4,5) show ?thesis by (simp add: greeted_def)
  qed
  moreover have "Shell_Finish K (M, S) = Some (M3, ?S3)"
    using a(1) b(1) u unfolding Shell_Finish_def Let_def prod.case l g5 by simp
  ultimately show ?thesis using s3 by auto
qed

section \<open>The start-up\<close>

definition blank_term :: "nat \<Rightarrow> shell \<Rightarrow> bool" where
  "blank_term t S \<longleftrightarrow> take 1760 (drop 160 (terminal_screens S ! t)) = replicate 1760 (blank_cell S)"

definition booting :: "shell \<Rightarrow> bool" where
  "booting S \<longleftrightarrow> shell_geo S \<and> screen S = SCREEN_ADDR \<and> colours S = palette \<and> content_current_x S = 0
     \<and> current_terminal S = 1"

lemma booting_same: "booting S \<Longrightarrow> same_but T S S' \<Longrightarrow> booting S'"
  using same_but_geo [of T S S'] by (simp add: booting_def) (simp add: same_but_def)

lemma blank_term_same: "blank_term t S \<Longrightarrow> same_but T S S' \<Longrightarrow> t \<notin> T \<Longrightarrow> blank_term t S'"
  by (simp add: blank_term_def same_but_def blank_cell_def)

lemma start_terminals:
  "booting S \<Longrightarrow> set ts \<subseteq> {1..5} \<Longrightarrow> \<exists>M' S'. for_each StartTerminal ts (M, S) = Some (M', S') \<and> booting S'
     \<and> (\<forall>t. t \<in> set ts \<or> blank_term t S \<longrightarrow> blank_term t S')"
proof (induction ts arbitrary: M S)
  case (Cons t ts)
  have g: "shell_geo S" using Cons.prems(1) by (simp add: booting_def)
  from StartTerminal_step [OF g, of t M] Cons.prems(2) obtain M1 S1 where
    s: "StartTerminal t (M, S) = Some (M1, S1)" "same_but {t} S S1"
    "take 1760 (drop 160 (terminal_screens S1 ! t)) = replicate 1760 (blank_cell S)" by auto
  have "blank_cell S1 = blank_cell S" using s(2) by (simp add: same_but_def blank_cell_def)
  with s(3) have "blank_term t S1" by (simp add: blank_term_def)
  then have b: "blank_term u S1" if "u = t \<or> blank_term u S" for u
    using that blank_term_same [OF _ s(2), of u] by (cases "u = t") auto
  from Cons.IH [OF booting_same [OF Cons.prems(1) s(2)], of M1] Cons.prems(2) obtain M2 S2 where
    "for_each StartTerminal ts (M1, S1) = Some (M2, S2)" "booting S2"
    "\<forall>t. t \<in> set ts \<or> blank_term t S1 \<longrightarrow> blank_term t S2" by auto
  with s(1) b show ?case by auto
qed simp

lemma blank_started:
  assumes "booting S" "\<forall>t \<in> {1..5}. blank_term t S"
  shows "started S" "\<forall>t \<in> {1..5}. view t S = replicate 1680 (blank_cell S)"
proof -
  have d: "drop 1680 (take 1760 (drop 160 xs)) = take 80 (drop 1840 xs)"
    "take 1680 (take 1760 (drop 160 xs)) = take 1680 (drop 160 xs)" for xs :: "u32 list"
    by (simp_all add: drop_take)
  have "last_row_blank S t" "view t S = replicate 1680 (blank_cell S)" if "t \<in> {1..5}" for t
  proof -
    have b: "take 1760 (drop 160 (terminal_screens S ! t)) = replicate 1760 (blank_cell S)"
      using assms(2) that by (simp add: blank_term_def)
    show "last_row_blank S t" using d(1) [of "terminal_screens S ! t"] unfolding b last_row_blank_def by simp
    show "view t S = replicate 1680 (blank_cell S)" using d(2) [of "terminal_screens S ! t"] unfolding b view_alt by simp
  qed
  with assms(1) show "started S" "\<forall>t \<in> {1..5}. view t S = replicate 1680 (blank_cell S)"
    by (auto simp: started_def shell_ok_def booting_def)
qed

lemma Shell_Start_steps:
  assumes a: "shell_arrays S" and n: "GetBufferSize K = Some n"
  obtains M1 S1 M2 S2 M3 S3 M4 S4 S6 S7 where
    "StartTerminalHeader (log_line [LStr ([CHR 0x0A] @ ''> Starting Shell'')] M, shell_members S) = Some (M1, S1)"
    "StartTerminalStatus (M1, S1) = Some (M2, S2)"
    "for_each StartTerminal [1, 2, 3, 4, 5] (M2, S2) = Some (M3, S3)"
    "StartTerminalFooter K (M3, S3) = Some (M4, S4)" "RenderHeader S4 = Some S6"
    "RenderStatus (str ''booting...'') S6 = Some S7" "booting S4" "booting S7" "\<forall>t \<in> {1..5}. blank_term t S7"
proof -
  let ?M0 = "log_line [LStr ([CHR 0x0A] @ ''> Starting Shell'')] M"
  let ?S0 = "shell_members S"
  have b0: "booting ?S0"
    using a by (simp add: booting_def shell_geo_arrays shell_arrays_def shell_members_def)
  have geo: "shell_geo T" "screen T = SCREEN_ADDR" if "booting T" for T using that by (simp_all add: booting_def)
  from StartTerminalHeader_step [OF geo(1) [OF b0], of ?M0] obtain M1 S1 where
    s1: "StartTerminalHeader (?M0, ?S0) = Some (M1, S1)" "same_but {} ?S0 S1" by blast
  note b1 = booting_same [OF b0 s1(2)]
  from status_fill_step [OF geo(1) [OF b1]] obtain S2 where
    s2: "status_fill S1 = Some S2" "same_but {} S1 S2" by blast
  let ?M2 = "log_line [LStr ''> Initializing Status Bar''] M1"
  have s2': "StartTerminalStatus (M1, S1) = Some (?M2, S2)" by (simp add: StartTerminalStatus_def s2(1))
  note b2 = booting_same [OF b1 s2(2)]
  from start_terminals [OF b2, of "[1, 2, 3, 4, 5]" ?M2] obtain M3 S3 where
    s3: "for_each StartTerminal [1, 2, 3, 4, 5] (?M2, S2) = Some (M3, S3)" "booting S3"
    "\<forall>t. t \<in> set [1, 2, 3, 4, 5] \<or> blank_term t S2 \<longrightarrow> blank_term t S3" by auto
  have bl3: "blank_term t S3" if "t \<in> {1..5}" for t
  proof -
    from that have "t \<in> set [1, 2, 3, 4, 5]" by auto
    with s3(3) show ?thesis by blast
  qed
  from StartTerminalFooter_step [OF geo [OF s3(2)] n, of M3] obtain M4 S4 where
    s4: "StartTerminalFooter K (M3, S3) = Some (M4, S4)" "same_but {} S3 S4" by blast
  note b4 = booting_same [OF s3(2) s4(2)]
  from RenderHeader_eq [OF geo(1) [OF b4]] obtain S6 where s6: "RenderHeader S4 = Some S6"
    "S6 = S4\<lparr>terminal_screen_header := header_cells S4 @ drop 64 (terminal_screen_header S4)\<rparr>" by blast
  have lh: "length (header_cells S4) = 64" by (rule length_header_cells)
  have sb6: "same_but {} S4 S6"
    using s6(2) lh by (simp add: same_but_def shell_arrays_def)
  note b6 = booting_same [OF b4 sb6]
  from RenderStatus_step [OF geo(1) [OF b6]] obtain S7 where
    s7: "RenderStatus (str ''booting...'') S6 = Some S7" "same_but {} S6 S7" by blast
  note b7 = booting_same [OF b6 s7(2)]
  have bl7: "\<forall>t \<in> {1..5}. blank_term t S7"
    using bl3 blank_term_same [OF _ s4(2)] blank_term_same [OF _ sb6] blank_term_same [OF _ s7(2)] by blast
  show thesis by (rule that [OF s1(1) s2' s3(1) s4(1) s6(1) s7(1) b4 b7 bl7])
qed

lemma Shell_Start_ok:
  assumes a: "shell_arrays S" and n: "GetBufferSize K = Some n"
  shows "\<exists>M' S'. Shell_Start K (M, S) = Some (M', S') \<and> started S' \<and> current_terminal S' = 1
    \<and> (\<forall>t \<in> {1..5}. greeted t S')"
proof (rule Shell_Start_steps [OF assms, of M])
  fix M1 S1 M2 S2 M3 S3 M4 S4 S6 S7
  assume s: "StartTerminalHeader (log_line [LStr ([CHR 0x0A] @ ''> Starting Shell'')] M, shell_members S) = Some (M1, S1)"
    "StartTerminalStatus (M1, S1) = Some (M2, S2)" "for_each StartTerminal [1, 2, 3, 4, 5] (M2, S2) = Some (M3, S3)"
    "StartTerminalFooter K (M3, S3) = Some (M4, S4)" "RenderHeader S4 = Some S6"
    "RenderStatus (str ''booting...'') S6 = Some S7" and b4: "booting S4" and b7: "booting S7" "\<forall>t \<in> {1..5}. blank_term t S7"
  from updated_step [of S4 K n M4] b4 n obtain M5 where s5: "updated K M4 (Some S4) = Some (M5, S4)" by (auto simp: booting_def)
  let ?M6 = "Cursor_moveTo 7 (of_nat (screen_height (layout S4) - 1)) (Cursor_enable M5)"
  from Finish_ok [OF blank_started(1) [OF b7] n blank_started(2) [OF b7], of ?M6] obtain M8 S8 where
    s8: "Shell_Finish K (?M6, S7) = Some (M8, S8)" "started S8" "current_terminal S8 = current_terminal S7"
    "\<forall>t \<in> {1..5}. greeted t S8" by blast
  have "Shell_Start K (M, S) = Some (M8, S8)"
    unfolding Shell_Start_def prod.case Let_def
    by (simp only: s s5 s8(1) Option.bind.simps prod.case)
  with s8 b7(1) show ?thesis by (auto simp: booting_def)
qed

lemma UpdateScreen_shown:
  assumes "shell_geo S" "screen S = SCREEN_ADDR" "GetBufferSize K = Some n"
  shows "\<exists>M'. UpdateScreen K (M, S) = Some M' \<and> (\<forall>p < 2000. cell (ram M') p = shown S p)
    \<and> (\<forall>x < 2 ^ 32. x < 0xB8000 \<or> 0xB8000 + 4000 \<le> x \<longrightarrow> ram M' (of_nat x) = ram M (of_nat x))"
proof -
  let ?m = "paint (shown S) [1920..<2000] (paint (shown S) [160..<1920]
       (paint (shown S) [80..<160] (paint (shown S) [0..<80] (ram M))))"
  have "cell ?m p = shown S p" if "p < 2000" for p
    using that by (simp add: cell_paint del: upt_rec_numeral)
  moreover have "?m (of_nat x) = ram M (of_nat x)" if "x < 2 ^ 32" "x < 0xB8000 \<or> 0xB8000 + 4000 \<le> x" for x
    using that by (simp add: paint_outside del: upt_rec_numeral)
  ultimately show ?thesis
    by (intro exI [of _ "Cursor_moveTo (of_nat (n + 7)) 24 (M\<lparr>ram := ?m\<rparr>)"])
      (simp add: UpdateScreen_eq [OF assms, of M] del: upt_rec_numeral)
qed

section \<open>Properties\<close>

text \<open>C13: WriteC on a well-formed shell never writes outside an array: it pushes the rows of the text (a
  line feed starts a new one) into the current terminal from below, dropping as many from the top,
  leaves the last row blank for the next line, and touches no other terminal, header or prompt.\<close>

theorem shell_scrollback:
  assumes "shell_ok S" "line_fits data"
  shows "\<exists>S'. WriteC data S = Some S' \<and> shell_ok S'
    \<and> visible S' = drop (80 * length (rows_from [] data)) (visible S
        @ concat (map (row_cells (blank_cell S) (terminal_color (colours S))) (rows_from [] data)))
    \<and> (\<forall>t. t \<noteq> current_terminal S \<longrightarrow> view t S' = view t S)
    \<and> terminal_screen_header S' = terminal_screen_header S \<and> terminal_screen_footer S' = terminal_screen_footer S
    \<and> terminal_screen_status S' = terminal_screen_status S \<and> current_terminal S' = current_terminal S"
proof -
  have g: "shell_geo S" using assms(1) by (simp add: shell_ok_def)
  have f: "fits (rows_from [] data)" using assms(2) by (simp add: line_fits_def)
  let ?S' = "after_rows (terminal_color (colours S)) (rows_from [] data) S"
  have "WriteC data S = Some ?S'"
    using terminal.print_line [OF assms] by (simp add: shell_scroll_def)
  moreover have "view t ?S' = view t S" if "t \<noteq> current_terminal S" for t
    using after_rows_other [OF that] by (simp add: view_alt)
  ultimately show ?thesis
    using after_rows_visible(1) [OF g f] after_rows_ok [OF assms(1) f]
    by (intro exI [of _ ?S']) (simp add: scrolled_def)
qed

text \<open>A shell after its start.\<close>

definition new_shell :: shell where
  "new_shell = \<lparr>colours = palette, layout = start_layout, screen = 0, terminal_screen_header = replicate 80 0,
     terminal_screen_status = replicate 160 0, terminal_screen_footer = replicate 2000 0,
     terminal_screens = replicate 10 (replicate 3000 0), current_terminal = 0, header_current_x = 0,
     header_current_y = 0, content_current_x = 0, content_current_y = 0, footer_current_x = 0\<rparr>"

lemma new_shell_arrays: "shell_arrays new_shell" "GetBufferSize keyboard0 = Some 0"
  by (simp_all add: shell_arrays_def new_shell_def GetBufferSize_def c_string_def keyboard0_def)

lemma sample_shell:
  obtains S where "started S" "current_terminal S = 1"
  using Shell_Start_ok [OF new_shell_arrays, of blank] by blast

theorem shell_scrollback_witness:
  "\<exists>S S'. started S \<and> WriteC (str ''hello'') S = Some S' \<and> shell_ok S'"
proof (rule sample_shell)
  fix S assume s: "started S"
  have "line_fits (str ''hello'')" by (simp add: line_fits_def fits_def)
  from shell_scrollback [OF _ this, of S] s show ?thesis by (auto simp: started_def)
qed

text \<open>C28: UpdateScreen makes the screen show, cell by cell, the header, the status bar, the current
  terminal and the prompt, and writes nothing outside video memory.\<close>

theorem shell_update_screen:
  assumes "shell_geo S" "screen S = SCREEN_ADDR" "GetBufferSize K = Some n"
  shows "\<exists>M'. UpdateScreen K (M, S) = Some M' \<and> (\<forall>p < 2000. cell (ram M') p = shown S p)
    \<and> (\<forall>x < 2 ^ 32. x < 0xB8000 \<or> 0xB8000 + 4000 \<le> x \<longrightarrow> ram M' (of_nat x) = ram M (of_nat x))"
  by (rule UpdateScreen_shown [OF assms])

theorem shell_update_screen_witness:
  "\<exists>S M'. started S \<and> UpdateScreen keyboard0 (blank, S) = Some M' \<and> cell (ram M') 79 = terminal_screen_header S ! 79"
proof (rule sample_shell)
  fix S assume s: "started S"
  then have "shell_geo S" "screen S = SCREEN_ADDR" by (auto simp: started_def shell_ok_def)
  from shell_update_screen [OF this new_shell_arrays(2), of blank] obtain M' where
    m: "UpdateScreen keyboard0 (blank, S) = Some M'" "\<forall>p < 2000. cell (ram M') p = shown S p" by blast
  from spec [OF m(2), of 79] have "cell (ram M') 79 = terminal_screen_header S ! 79" by (simp add: shown_def)
  with s m(1) show ?thesis by blast
qed

text \<open>C33: Start brings the shell, from arrays with any contents, into a well-formed state without an access
  outside an array: terminal 1 is current and each of the five terminals shows its greeting
  above two blank rows, in otherwise blank rows.\<close>

theorem shell_start:
  assumes "shell_arrays S" "GetBufferSize K = Some n"
  shows "\<exists>M' S'. Shell_Start K (M, S) = Some (M', S') \<and> shell_ok S' \<and> current_terminal S' = 1
    \<and> (\<forall>t \<in> {1..5}. view t S' = replicate 1520 (blank_cell S')
        @ row_cells (blank_cell S') (terminal_color palette) (greeting t) @ replicate 80 (blank_cell S'))"
proof -
  from Shell_Start_ok [OF assms, of M] obtain M' S' where
    s: "Shell_Start K (M, S) = Some (M', S')" "started S'" "current_terminal S' = 1" "\<forall>t \<in> {1..5}. greeted t S'" by blast
  have "row_cells b c [] = replicate 80 b" for b c by (simp add: row_cells_def)
  with s(4) have "\<forall>t \<in> {1..5}. view t S' = replicate 1520 (blank_cell S')
        @ row_cells (blank_cell S') (terminal_color palette) (greeting t) @ replicate 80 (blank_cell S')"
    by (simp add: greeted_def scrolled_def)
  with s(1-3) show ?thesis by (auto simp: started_def)
qed

theorem shell_start_witness:
  "\<exists>M' S'. Shell_Start keyboard0 (blank, new_shell) = Some (M', S') \<and> shell_ok S' \<and> current_terminal S' = 1"
  using shell_start [OF new_shell_arrays, of blank] by blast

text \<open>RenderHeader repaints columns 0 to 63 only (the background tasks own the rest): each of the five
  tabs shows its bracket and number at a fixed column, in the active colour exactly for the
  current terminal.\<close>

theorem shell_header_tabs:
  assumes "shell_geo S"
  shows "\<exists>S'. RenderHeader S = Some S' \<and> drop 64 (terminal_screen_header S') = drop 64 (terminal_screen_header S)
    \<and> (\<forall>tab \<in> {1..5}. take 2 (drop (9 * tab + 5) (terminal_screen_header S')) =
         map (\<lambda>c. setColor c (if tab = current_terminal S then header_color_tab_active (colours S)
            else header_color_tab_inactive (colours S))) [0x5B, 0x30 + of_nat tab])
    \<and> S'\<lparr>terminal_screen_header := terminal_screen_header S\<rparr> = S"
proof -
  let ?S' = "S\<lparr>terminal_screen_header := header_cells S @ drop 64 (terminal_screen_header S)\<rparr>"
  have "take 2 (drop (9 * tab + 5) (terminal_screen_header ?S')) =
      map (\<lambda>c. setColor c (tab_color S tab)) [0x5B, 0x30 + of_nat tab]" if "tab \<in> {1, 2, 3, 4, 5}" for tab
    using that by (elim insertE) (simp_all add: header_cells_eq tab_label_def tab_cells_def)
  moreover have "{1..5} = {1, 2, 3, 4, 5 :: nat}" by auto
  ultimately have "\<forall>tab \<in> {1..5}. take 2 (drop (9 * tab + 5) (terminal_screen_header ?S')) =
      map (\<lambda>c. setColor c (tab_color S tab)) [0x5B, 0x30 + of_nat tab]" by (simp only:) blast
  then show ?thesis
    using RenderHeader_eq [OF assms] length_header_cells [of S] by (simp add: tab_color_def)
qed

theorem shell_header_tabs_witness:
  "\<exists>S S'. started S \<and> RenderHeader (S\<lparr>current_terminal := 3\<rparr>) = Some S'
     \<and> terminal_screen_header S' ! 32 = setColor 0x5B (header_color_tab_active palette)"
proof (rule sample_shell)
  fix S assume s: "started S"
  then have "shell_ok (S\<lparr>current_terminal := 3\<rparr>)" using shell_ok_current by (simp add: started_def)
  then have "shell_geo (S\<lparr>current_terminal := 3\<rparr>)" by (simp add: shell_ok_def)
  from shell_header_tabs [OF this] obtain S' where h: "RenderHeader (S\<lparr>current_terminal := 3\<rparr>) = Some S'"
    "\<forall>tab \<in> {1..5}. take 2 (drop (9 * tab + 5) (terminal_screen_header S')) =
         map (\<lambda>c. setColor c (if tab = 3 then header_color_tab_active (colours S)
            else header_color_tab_inactive (colours S))) [0x5B, 0x30 + of_nat tab]" by auto
  from bspec [OF h(2), of 3] have t: "take 2 (drop 32 (terminal_screen_header S'))
      = map (\<lambda>c. setColor c (header_color_tab_active (colours S))) [0x5B, 0x33]" by simp
  have "terminal_screen_header S' ! 32 = setColor 0x5B (header_color_tab_active (colours S))"
    using arg_cong [OF t, of hd] arg_cong [OF t, of length] by (simp add: hd_drop_conv_nth hd_take)
  with s h(1) show ?thesis by (auto simp: started_def)
qed

end
