(* ===== verification/Debug_Log.thy ===== *)
theory Debug_Log
  imports ISR
begin

text \<open>
  The serial log (src/src/src/classes/debug.class.h, libs/helper/debug.h): what the argument lists
  that the other theories record in \<open>klog\<close> become on the serial port, and when they become nothing.
\<close>

section \<open>Log\<close>

definition SERIAL_PORT :: u16 where "SERIAL_PORT = 0x3F8"

text \<open>
  \<open>Prepare\<close>: a string is itself, an \<open>int\<close> goes through \<open>int2char\<close> and its static buffer, and every
  number the kernel logs is converted to \<open>int\<close> on the way.
\<close>

fun Prepare :: "mem \<Rightarrow> log_arg \<Rightarrow> u8 list \<Rightarrow> (u8 list \<times> u8 list) option" where
  "Prepare m (LStr s) ibuf = Some (takeWhile (\<lambda>c. c \<noteq> 0) (str s), ibuf)"
| "Prepare m (LInt v) ibuf = int2char v ibuf"
| "Prepare m (LPtr a) ibuf = map_option (\<lambda>n. (map (\<lambda>i. m (a + of_nat i)) [0..<unat n], ibuf)) (C_strlen m a)"

fun Log :: "log_arg list \<Rightarrow> u8 list \<Rightarrow> mach \<Rightarrow> (mach \<times> u8 list) option" where
  "Log [] ibuf M = Some (M, ibuf)"
| "Log (x # xs) ibuf M = do {
     (s, ibuf') \<leftarrow> Prepare (ram M) x ibuf;
     let M1 = fold (outb SERIAL_PORT) s M;
     if xs = [] then Some (outb SERIAL_PORT 0x0A (outb SERIAL_PORT 0x0D M1), ibuf') else Log xs ibuf' M1 }"

text \<open>The lines of \<open>klog\<close>, one after the other.\<close>

fun log_all :: "log_arg list list \<Rightarrow> u8 list \<Rightarrow> mach \<Rightarrow> (mach \<times> u8 list) option" where
  "log_all [] ibuf M = Some (M, ibuf)"
| "log_all (xs # xss) ibuf M = do { (M1, ibuf1) \<leftarrow> Log xs ibuf M; log_all xss ibuf1 M1 }"

section \<open>What reaches the port\<close>

definition ibuf_ok :: "u8 list \<Rightarrow> bool" where
  "ibuf_ok b \<longleftrightarrow> length b = 32 \<and> b ! 31 = 0"

lemma int2char_loop_negative: "val < 0 \<Longrightarrow> - val < 10 ^ i \<Longrightarrow> int2char_loop i val buf = None"
proof (induction i arbitrary: val buf)
  case (Suc i)
  show ?case
  proof (cases "val mod 10 = 0")
    case True
    then have "- val mod 10 = 0" by presburger
    then have "- val = 10 * (- val div 10)" by presburger
    with Suc.prems have "- (- val div 10) < 0" "- (- (- val div 10)) < 10 ^ i" by simp_all
    with Suc.IH [OF this] True Suc.prems(1) show ?thesis by simp
  qed (use Suc.prems(1) in simp)
qed simp

lemma int2char_negative:
  assumes "2 ^ 31 \<le> unat v" shows "int2char v buf = None"
proof -
  have "int (2 ^ 31) \<le> int (unat v)" using assms by (simp only: of_nat_le_iff)
  then have v: "(2147483648 :: int) \<le> uint v" by simp
  have b: "uint v < 4294967296" using uint_lt2p [of v] by simp
  have "sint v = uint v - 4294967296"
    using v b by (simp add: sint_uint signed_take_bit_eq_take_bit_minus take_bit_eq_mod bit_uint_iff bit_iff_odd_drop_bit)
      (simp add: drop_bit_eq_div odd_iff_mod_2_eq_one word_arith_nat_div)
  with v b int2char_loop_negative [of "sint v" 30 buf] show ?thesis by (simp add: int2char_def)
qed

lemma fold_outb: "fold (outb p) s M = M\<lparr>io := io M @ map (Out p) s\<rparr>"
  by (induction s arbitrary: M) (simp_all add: outb_def)

fun arg_ok :: "mem \<Rightarrow> log_arg \<Rightarrow> bool" where
  "arg_ok m (LStr s) = True"
| "arg_ok m (LInt v) = (unat v < 2 ^ 31)"
| "arg_ok m (LPtr a) = (C_strlen m a \<noteq> None)"

lemma Prepare_ok:
  assumes "ibuf_ok ibuf"
  shows "if arg_ok m x then \<exists>s b. Prepare m x ibuf = Some (s, b) \<and> ibuf_ok b else Prepare m x ibuf = None"
proof (cases x)
  case (LInt v)
  show ?thesis
  proof (cases "unat v < 2 ^ 31")
    case True
    with int2char_text [of v ibuf] assms show ?thesis by (auto simp: LInt ibuf_ok_def)
  qed (use LInt int2char_negative [of v ibuf] in simp)
qed (use assms in auto)

lemma Log_defined:
  "ibuf_ok ibuf \<Longrightarrow> if \<forall>x \<in> set xs. arg_ok (ram M) x
     then \<exists>e b. Log xs ibuf M = Some (M\<lparr>io := io M @ e\<rparr>, b) \<and> ibuf_ok b else Log xs ibuf M = None"
proof (induction xs arbitrary: ibuf M)
  case Nil
  then show ?case by (auto intro!: exI [of _ "[]"])
next
  case (Cons x xs)
  show ?case
  proof (cases "arg_ok (ram M) x")
    case True
    with Prepare_ok [OF Cons.prems, of "ram M" x] obtain s b where s: "Prepare (ram M) x ibuf = Some (s, b)" "ibuf_ok b" by auto
    let ?M = "M\<lparr>io := io M @ map (Out SERIAL_PORT) s\<rparr>"
    from Cons.IH [OF s(2), of ?M] s True show ?thesis
      by (cases "xs = []") (auto simp: fold_outb outb_def split: if_splits)
  next
    case False
    with Prepare_ok [OF Cons.prems, of "ram M" x] show ?thesis by simp
  qed
qed

lemma log_all_defined:
  "ibuf_ok ibuf \<Longrightarrow> log_all xss ibuf M = None \<longleftrightarrow> (\<exists>x \<in> set (concat xss). \<not> arg_ok (ram M) x)"
proof (induction xss arbitrary: ibuf M)
  case (Cons xs xss)
  show ?case
  proof (cases "\<forall>x \<in> set xs. arg_ok (ram M) x")
    case True
    with Log_defined [OF Cons.prems, of xs M] obtain e b where
      "Log xs ibuf M = Some (M\<lparr>io := io M @ e\<rparr>, b)" "ibuf_ok b" by auto
    with Cons.IH [of b "M\<lparr>io := io M @ e\<rparr>"] True show ?thesis by auto
  qed (use Log_defined [OF Cons.prems, of xs M] in auto)
qed simp

text \<open>The text an argument stands for; the number 0 is written as nothing.\<close>

fun renders :: "mem \<Rightarrow> log_arg \<Rightarrow> u8 list \<Rightarrow> bool" where
  "renders m (LStr s) t \<longleftrightarrow> t = str s \<and> 0 \<notin> set t"
| "renders m (LInt v) t \<longleftrightarrow> unat v < 2 ^ 31 \<and> t = (if v = 0 then [] else dec (unat v))"
| "renders m (LPtr a) t \<longleftrightarrow> cstr_at m a t \<and> length t < 2 ^ 32"

lemma Prepare_renders:
  assumes "renders m x t" "ibuf_ok ibuf"
  shows "\<exists>b. Prepare m x ibuf = Some (t, b) \<and> ibuf_ok b"
proof (cases x)
  case (LStr s)
  with assms show ?thesis by (auto simp: takeWhile_eq_all_conv)
next
  case (LInt v)
  with int2char_text [of v ibuf] assms show ?thesis by (auto simp: ibuf_ok_def)
next
  case (LPtr a)
  with assms(1) have t: "cstr_at m a t" "length t < 2 ^ 32" by simp_all
  have "map (\<lambda>i. m (a + of_nat i)) [0..<length t] = t"
    using t(1) by (intro nth_equalityI) (auto simp: cstr_at_def bytes_at_def nth_append)
  moreover have "unat (of_nat (length t) :: u32) = length t" using t(2) by (simp add: unat_of_nat take_bit_eq_mod)
  ultimately show ?thesis using LPtr C_strlen_cstr [OF t(1)] assms(2) by simp
qed

section \<open>Properties\<close>

text \<open>A call of \<open>log\<close> puts the texts of its arguments on the serial port in order, then a carriage return and a line
  feed, and does nothing else to the machine; an argument 0 puts nothing there.\<close>

theorem serial_line:
  assumes "list_all2 (renders (ram M)) xs ts" "xs \<noteq> []" "ibuf_ok ibuf"
  shows "\<exists>b. Log xs ibuf M = Some (M\<lparr>io := io M @ map (Out SERIAL_PORT) (concat ts @ [0x0D, 0x0A])\<rparr>, b) \<and> ibuf_ok b"
  using assms
proof (induction xs arbitrary: ts ibuf M)
  case (Cons x xs)
  then obtain t us where t: "ts = t # us" "renders (ram M) x t" "list_all2 (renders (ram M)) xs us" by (auto simp: list_all2_Cons1)
  from Prepare_renders [OF t(2) Cons.prems(3)] obtain b where b: "Prepare (ram M) x ibuf = Some (t, b)" "ibuf_ok b" by blast
  let ?M = "M\<lparr>io := io M @ map (Out SERIAL_PORT) t\<rparr>"
  show ?case
  proof (cases "xs = []")
    case True
    with t b show ?thesis by (simp add: fold_outb outb_def)
  next
    case False
    with Cons.IH [of ?M us b] t b show ?thesis by (auto simp: fold_outb)
  qed
qed simp

theorem serial_line_witness:
  "\<exists>b. Log [LStr ''ticks='', LInt 42, LStr '' load='', LInt 0] (replicate 32 0) blank
     = Some (blank\<lparr>io := map (Out SERIAL_PORT) (str ''ticks=42 load='' @ [0x0D, 0x0A])\<rparr>, b)"
proof -
  have r: "list_all2 (renders (ram blank)) [LStr ''ticks='', LInt 42, LStr '' load='', LInt 0]
    [str ''ticks='', [0x34, 0x32], str '' load='', []]" by (simp add: dec.simps zero_in_str)
  have i: "ibuf_ok (replicate 32 0)" by (simp add: ibuf_ok_def)
  from serial_line [OF r _ i] show ?thesis by (auto simp: blank_def)
qed

text \<open>C37: the panic log reads outside of the digit literal exactly when some register it prints has its top bit set, such as
  the address of a page fault in the upper half of memory: the numbers are printed as signed ones.\<close>

theorem panic_log_signed:
  assumes "ibuf_ok ibuf"
  shows "log_all (drop (length (klog M)) (klog (panic_log R cr M))) ibuf M = None
    \<longleftrightarrow> (\<exists>v \<in> {int_no R, err_code R, cr, r_eip R, r_cs R, r_eflags R, r_eax R, r_ebx R, r_ecx R, r_edx R,
                r_esi R, r_edi R, r_ebp R, r_esp R}. 2 ^ 31 \<le> unat v)"
  unfolding log_all_defined [OF assms] by (simp add: panic_log_def not_less)

theorem panic_log_signed_witness:
  "log_all (drop (length (klog blank)) (klog (panic_log undefined 0xC0000000 blank))) (replicate 32 0) blank = None"
proof -
  have "ibuf_ok (replicate 32 0)" by (simp add: ibuf_ok_def)
  from panic_log_signed [OF this, of blank undefined "0xC0000000"] show ?thesis by simp
qed

end
