(* ===== verification/Bios.thy ===== *)
theory Bios
  imports Screen Paging
begin

text \<open>
  \<open>System::Bios\<close> (src/src/src/classes/bios.class.h) and the switcher to real mode it calls
  (src/src/src/boot/asm/real-mode-switcher.asm).  The firmware's interrupt is a parameter; the processor's part is
  documented behaviour of the i386: leaving protected mode with paging on is a general protection
  fault (\<open>None\<close>), and \<open>popa\<close>, \<open>pusha\<close> and the flags of \<open>xor\<close> are as in its manual.  No other part of the
  kernel calls this class.
\<close>

unbundle bit_operations_syntax

section \<open>The structure and the registers\<close>

record regs16 =
  b_ah :: u16
  b_bh :: u16
  b_ch :: u16
  b_dh :: u16
  b_al :: u16
  b_bl :: u16
  b_cl :: u16
  b_dl :: u16
  b_di :: u16
  b_si :: u16
  b_bp :: u16
  b_sp :: u16
  b_bx :: u16
  b_dx :: u16
  b_cx :: u16
  b_ax :: u16
  b_gs :: u16
  b_fs :: u16
  b_es :: u16
  b_ds :: u16
  b_eflags :: u16

text \<open>The packed structure as the words it occupies, and back.\<close>

definition struct_words :: "regs16 \<Rightarrow> u16 list" where
  "struct_words R = [b_ah R, b_bh R, b_ch R, b_dh R, b_al R, b_bl R, b_cl R, b_dl R, b_di R, b_si R, b_bp R, b_sp R,
     b_bx R, b_dx R, b_cx R, b_ax R, b_gs R, b_fs R, b_es R, b_ds R, b_eflags R]"

definition words_struct :: "u16 list \<Rightarrow> regs16" where
  "words_struct w = \<lparr>b_ah = w ! 0, b_bh = w ! 1, b_ch = w ! 2, b_dh = w ! 3, b_al = w ! 4, b_bl = w ! 5, b_cl = w ! 6,
     b_dl = w ! 7, b_di = w ! 8, b_si = w ! 9, b_bp = w ! 10, b_sp = w ! 11, b_bx = w ! 12, b_dx = w ! 13, b_cx = w ! 14,
     b_ax = w ! 15, b_gs = w ! 16, b_fs = w ! 17, b_es = w ! 18, b_ds = w ! 19, b_eflags = w ! 20\<rparr>"

record cpu16 =
  c_di :: u16
  c_si :: u16
  c_bp :: u16
  c_bx :: u16
  c_dx :: u16
  c_cx :: u16
  c_ax :: u16
  c_gs :: u16
  c_fs :: u16
  c_es :: u16
  c_ds :: u16

text \<open>\<open>popa\<close> skips the word of \<open>sp\<close>; the four segment registers are popped after it.\<close>

definition pop_registers :: "u16 list \<Rightarrow> cpu16" where
  "pop_registers w = \<lparr>c_di = w ! 0, c_si = w ! 1, c_bp = w ! 2, c_bx = w ! 4, c_dx = w ! 5, c_cx = w ! 6, c_ax = w ! 7,
     c_gs = w ! 8, c_fs = w ! 9, c_es = w ! 10, c_ds = w ! 11\<rparr>"

definition INT32_BASE :: u32 where "INT32_BASE = 0x7C00"
definition STACK16 :: u32 where "STACK16 = INT32_BASE - 42"

text \<open>
  What lies on the stack after \<open>pushf\<close>, the segment registers and \<open>pusha\<close>, in the order of the addresses.  The
  flags are those after \<open>cli\<close> and \<open>xor sp, sp\<close>.
\<close>

definition xor_flags :: "u16 \<Rightarrow> u16" where
  "xor_flags f = (f AND NOT 0x0A91) OR 0x0044"

definition push_registers :: "cpu16 \<Rightarrow> u16 \<Rightarrow> u16 list" where
  "push_registers C f = [c_di C, c_si C, c_bp C, ucast (INT32_BASE - 10), c_bx C, c_dx C, c_cx C, c_ax C,
     c_gs C, c_fs C, c_es C, c_ds C, xor_flags f]"

fun word_bytes :: "u16 list \<Rightarrow> u8 list" where
  "word_bytes [] = []"
| "word_bytes (w # ws) = ucast w # ucast (drop_bit 8 w) # word_bytes ws"

definition put_words :: "u32 \<Rightarrow> u16 list \<Rightarrow> mem \<Rightarrow> mem" where
  "put_words a ws = poke_bytes a (word_bytes ws)"

definition get_words :: "u32 \<Rightarrow> nat \<Rightarrow> mem \<Rightarrow> u16 list" where
  "get_words a n m = map (\<lambda>i. load16 m (a + of_nat (2 * i))) [0..<n]"

section \<open>The switcher\<close>

type_synonym firmware = "u8 \<Rightarrow> cpu16 \<times> mach \<Rightarrow> cpu16 \<times> u16 \<times> mach"

definition resetpic :: "u8 \<Rightarrow> u8 \<Rightarrow> mach \<Rightarrow> mach" where
  "resetpic bh bl M =
     outb 0xA1 0x01 (outb 0x21 0x01 (outb 0xA1 0x02 (outb 0x21 0x04 (outb 0xA1 bl (outb 0x21 bh
       (outb 0xA0 0x11 (outb 0x20 0x11 M)))))))"

text \<open>
  \<open>call_resetpic\<close> has the two words the call and its \<open>push ax\<close> leave below the 16-bit stack pointer \<open>stk\<close>.  \<open>code\<close> is the
  image of the 16-bit code that is copied to \<open>INT32_BASE\<close>, with the values it saves there, and \<open>r1\<close> and \<open>r2\<close> are
  the return addresses of its two calls.
\<close>

definition call_resetpic :: "u8 \<Rightarrow> u8 \<Rightarrow> u32 \<Rightarrow> u16 \<Rightarrow> u16 \<Rightarrow> mach \<Rightarrow> mach" where
  "call_resetpic bh bl stk eax ret M = resetpic bh bl (M\<lparr>ram := put_words (stk - 4) [eax, ret] (ram M)\<rparr>)"

definition int32 :: "firmware \<Rightarrow> u8 list \<times> u16 \<times> u16 \<Rightarrow> u8 \<Rightarrow> regs16 \<times> mach \<Rightarrow> (regs16 \<times> mach) option" where
  "int32 bios = (\<lambda>(code, r1, r2) intnum (R, M).
     if bit (cr0 M) 31 then None
     else let m1 = put_words STACK16 (struct_words R) (poke_bytes INT32_BASE code (ram M));
              M1 = call_resetpic 0x08 0x70 STACK16 0 r1 (M\<lparr>ram := m1, if_flag := False\<rparr>);
              (C, f, M2) = bios intnum (pop_registers (get_words STACK16 12 (ram M1)), M1\<lparr>if_flag := True\<rparr>);
              m2 = put_words (INT32_BASE - 26) (push_registers C f) (ram M2);
              M3 = call_resetpic 0x20 0x28 (INT32_BASE - 26) (c_ax C) r2 (M2\<lparr>ram := m2, if_flag := False\<rparr>)
          in Some (words_struct (get_words STACK16 21 (ram M3)), M3\<lparr>if_flag := True\<rparr>))"

section \<open>Bios\<close>

definition Bios_Clean :: "regs16 \<Rightarrow> regs16" where
  "Bios_Clean R = \<lparr>b_ah = 0, b_bh = 0, b_ch = 0, b_dh = 0, b_al = 0, b_bl = 0, b_cl = 0, b_dl = 0, b_di = 0, b_si = 0,
     b_bp = 0, b_sp = 0, b_bx = 0, b_dx = 0, b_cx = 0, b_ax = 0, b_gs = 0, b_fs = 0, b_es = 0, b_ds = 0, b_eflags = 0\<rparr>"

definition Send2Interrupt :: "firmware \<Rightarrow> u8 list \<times> u16 \<times> u16 \<Rightarrow> u8 \<Rightarrow> regs16 \<times> mach \<Rightarrow> (regs16 \<times> mach) option" where
  "Send2Interrupt bios code intnum = (\<lambda>(R, M).
     map_option (\<lambda>(R', M'). (R', M'\<lparr>if_flag := True\<rparr>)) (int32 bios code intnum (R, M\<lparr>if_flag := False\<rparr>)))"

definition Send2Interrupt_clean :: "firmware \<Rightarrow> u8 list \<times> u16 \<times> u16 \<Rightarrow> u8 \<Rightarrow> bool \<Rightarrow> regs16 \<times> mach \<Rightarrow> (regs16 \<times> mach) option" where
  "Send2Interrupt_clean bios code intnum clean_after s =
     map_option (\<lambda>(R', M'). (if clean_after then Bios_Clean R' else R', M')) (int32 bios code intnum s)"

section \<open>Words in memory\<close>

lemma length_word_bytes [simp]: "length (word_bytes ws) = 2 * length ws"
  by (induction ws) auto

lemma nth_word_bytes:
  "i < length ws \<Longrightarrow> word_bytes ws ! (2 * i) = ucast (ws ! i) \<and> word_bytes ws ! Suc (2 * i) = ucast (drop_bit 8 (ws ! i))"
proof (induction ws arbitrary: i)
  case (Cons w ws)
  then show ?case by (cases i) auto
qed simp

lemma word_halves: "(ucast (ucast (w :: u16) :: u8) :: u16) OR push_bit 8 (ucast (ucast (drop_bit 8 w) :: u8)) = w"
  using load16_store16 [of "\<lambda>_. 0" 0 w] by (simp add: load16_def store16_def)

lemma get_put_words:
  assumes "unat a + 2 * length ws \<le> 2 ^ 32" "length ws < 2 ^ 30" "k < length ws"
  shows "load16 (put_words a ws m) (a + of_nat (2 * k)) = ws ! k"
proof -
  have u: "unat (of_nat j :: u32) = j" if "j < 2 * length ws" for j
    using that assms(2) by (simp add: unat_of_nat take_bit_eq_mod)
  have b: "put_words a ws m (a + of_nat j) = word_bytes ws ! j" if "j < 2 * length ws" for j
    using u [OF that] that by (simp add: put_words_def poke_bytes_def)
  have e: "a + of_nat (2 * k) + 1 = a + of_nat (Suc (2 * k))" by simp
  have "put_words a ws m (a + of_nat (2 * k)) = ucast (ws ! k)"
    using b [of "2 * k"] nth_word_bytes [OF assms(3)] assms(3) by simp
  moreover have "put_words a ws m (a + of_nat (Suc (2 * k))) = ucast (drop_bit 8 (ws ! k))"
    using b [of "Suc (2 * k)"] nth_word_bytes [OF assms(3)] assms(3) by simp
  ultimately show ?thesis unfolding load16_def e by (simp only: word_halves)
qed

lemma put_words_other:
  assumes "unat a + 2 * length ws \<le> 2 ^ 32" "unat x < unat a \<or> unat a + 2 * length ws \<le> unat x"
  shows "put_words a ws m x = m x"
  using poke_bytes_other [of a "word_bytes ws" x m] assms by (simp add: put_words_def)

lemma load16_put_other:
  assumes "unat a + 2 * length ws \<le> unat x" "unat x + 1 < 2 ^ 32"
  shows "load16 (put_words a ws m) x = load16 m x"
proof -
  have "unat (x + 1) = unat x + 1" using assms(2) by (simp add: unat_word_ariths)
  with assms put_words_other [of a ws x m] put_words_other [of a ws "x + 1" m] show ?thesis by (simp add: load16_def)
qed

text \<open>What the calls of \<open>resetpic\<close> leave on the stack touches neither the structure nor the pushed registers.\<close>

lemma pop_struct:
  "pop_registers (get_words STACK16 12 (put_words (STACK16 - 4) [0, r] (put_words STACK16 (struct_words R) m)))
    = \<lparr>c_di = b_ah R, c_si = b_bh R, c_bp = b_ch R, c_bx = b_al R, c_dx = b_bl R, c_cx = b_cl R, c_ax = b_dl R,
       c_gs = b_di R, c_fs = b_si R, c_es = b_bp R, c_ds = b_sp R\<rparr>"
proof -
  let ?m = "put_words STACK16 (struct_words R) m"
  have "load16 (put_words (STACK16 - 4) [0, r] ?m) (STACK16 + of_nat (2 * k)) = struct_words R ! k" if "k < 12" for k
  proof -
    have u: "unat (STACK16 + of_nat (2 * k)) = 0x7BD6 + 2 * k"
      using that by (simp add: STACK16_def INT32_BASE_def unat_word_ariths unat_of_nat take_bit_eq_mod)
    have "load16 (put_words (STACK16 - 4) [0, r] ?m) (STACK16 + of_nat (2 * k)) = load16 ?m (STACK16 + of_nat (2 * k))"
      by (rule load16_put_other) (use that in \<open>simp_all only: u, simp_all add: STACK16_def INT32_BASE_def\<close>)
    also have "\<dots> = struct_words R ! k"
      by (rule get_put_words) (use that in \<open>simp_all add: struct_words_def STACK16_def INT32_BASE_def\<close>)
    finally show ?thesis .
  qed
  then have "get_words STACK16 12 (put_words (STACK16 - 4) [0, r] ?m) = map ((!) (struct_words R)) [0..<12]"
    unfolding get_words_def by (intro map_cong refl) simp
  then show ?thesis by (simp add: pop_registers_def struct_words_def)
qed

lemma get_pushed:
  assumes "8 \<le> k" "k < 21"
  shows "get_words STACK16 21 (put_words (INT32_BASE - 30) [v, r] (put_words (INT32_BASE - 26) (push_registers C f) m)) ! k
    = push_registers C f ! (k - 8)"
proof -
  let ?m = "put_words (INT32_BASE - 26) (push_registers C f) m"
  have a: "STACK16 + of_nat (2 * k) = (INT32_BASE - 26) + of_nat (2 * (k - 8))"
    using assms(1) by (simp add: STACK16_def INT32_BASE_def of_nat_diff)
  have u: "unat (STACK16 + of_nat (2 * k)) = 0x7BD6 + 2 * k"
    using assms(2) by (simp add: STACK16_def INT32_BASE_def unat_word_ariths unat_of_nat take_bit_eq_mod)
  have "load16 (put_words (INT32_BASE - 30) [v, r] ?m) (STACK16 + of_nat (2 * k)) = load16 ?m (STACK16 + of_nat (2 * k))"
    by (rule load16_put_other) (use assms in \<open>simp_all only: u, simp_all add: INT32_BASE_def\<close>)
  also have "\<dots> = push_registers C f ! (k - 8)"
    unfolding a by (rule get_put_words) (use assms in \<open>simp_all add: push_registers_def INT32_BASE_def\<close>)
  finally show ?thesis using assms(2) by (simp add: get_words_def)
qed

text \<open>The controllers end up at the given vectors with every line open, whatever state they were in.\<close>

lemma resetpic_pics:
  "chip_imr (fst (pics c0 (call_resetpic bh bl stk v r M))) = 0" "chip_imr (snd (pics c0 (call_resetpic bh bl stk v r M))) = 0"
  by (cases "pics c0 (M\<lparr>ram := put_words (stk - 4) [v, r] (ram M)\<rparr>)",
      simp add: call_resetpic_def resetpic_def chip_cmd_def chip_data_def)+

lemma ram_call_resetpic [simp]: "ram (call_resetpic bh bl stk v r M) = put_words (stk - 4) [v, r] (ram M)"
  by (simp add: call_resetpic_def resetpic_def)

section \<open>Properties\<close>

text \<open>With paging off, the firmware finds the first eight words of the structure in its general registers, so
  that AX is the field \<open>dl\<close> and the field \<open>ax\<close> never reaches it, while its results come back in the fields named
  after them; the carry flag, by which it reports errors, is always clear on return, and
  every interrupt line is open.\<close>

theorem bios_call:
  assumes "\<not> bit (cr0 M) 31"
  shows "\<exists>M1. let (C, f, M2) = bios n (\<lparr>c_di = b_ah R, c_si = b_bh R, c_bp = b_ch R, c_bx = b_al R, c_dx = b_bl R,
         c_cx = b_cl R, c_ax = b_dl R, c_gs = b_di R, c_fs = b_si R, c_es = b_bp R, c_ds = b_sp R\<rparr>, M1)
     in \<exists>R' M'. Send2Interrupt bios (code, r1, r2) n (R, M) = Some (R', M')
       \<and> b_ax R' = c_ax C \<and> b_bx R' = c_bx C \<and> b_cx R' = c_cx C \<and> b_dx R' = c_dx C \<and> b_si R' = c_si C \<and> b_di R' = c_di C
       \<and> \<not> bit (b_eflags R') 0 \<and> if_flag M' \<and> (\<forall>irq < 16. \<not> masked c0 M' irq)"
proof -
  let ?m = "put_words STACK16 (struct_words R) (poke_bytes INT32_BASE code (ram M))"
  let ?M1 = "(call_resetpic 0x08 0x70 STACK16 0 r1 (M\<lparr>ram := ?m, if_flag := False\<rparr>))\<lparr>if_flag := True\<rparr>"
  obtain C f M2 where b: "bios n (\<lparr>c_di = b_ah R, c_si = b_bh R, c_bp = b_ch R, c_bx = b_al R, c_dx = b_bl R,
       c_cx = b_cl R, c_ax = b_dl R, c_gs = b_di R, c_fs = b_si R, c_es = b_bp R, c_ds = b_sp R\<rparr>, ?M1) = (C, f, M2)"
    by (metis prod_cases3)
  let ?w = "get_words STACK16 21 (put_words (INT32_BASE - 30) [c_ax C, r2] (put_words (INT32_BASE - 26) (push_registers C f) (ram M2)))"
  let ?M3 = "call_resetpic 0x20 0x28 (INT32_BASE - 26) (c_ax C) r2 (M2\<lparr>ram := put_words (INT32_BASE - 26) (push_registers C f) (ram M2), if_flag := False\<rparr>)"
  have "Send2Interrupt bios (code, r1, r2) n (R, M) = Some (words_struct ?w, ?M3\<lparr>if_flag := True\<rparr>)"
    using assms by (simp add: Send2Interrupt_def int32_def Let_def pop_struct b)
  moreover have "\<not> masked c0 (?M3\<lparr>if_flag := True\<rparr>) irq" for irq
  proof -
    have "pics c0 (?M3\<lparr>if_flag := True\<rparr>) = pics c0 ?M3" by (simp add: pics_def)
    then show ?thesis by (simp add: masked_def resetpic_pics)
  qed
  moreover have "\<not> bit (xor_flags f) 0" by (simp add: xor_flags_def bit_or_iff bit_and_iff bit_not_iff)
  moreover have "b_ax (words_struct ?w) = c_ax C \<and> b_bx (words_struct ?w) = c_bx C \<and> b_cx (words_struct ?w) = c_cx C
      \<and> b_dx (words_struct ?w) = c_dx C \<and> b_si (words_struct ?w) = c_si C \<and> b_di (words_struct ?w) = c_di C
      \<and> b_eflags (words_struct ?w) = xor_flags f"
    by (simp add: words_struct_def get_pushed) (simp add: push_registers_def)
  ultimately show ?thesis
    using b by (intro exI [of _ ?M1]) (simp add: Let_def)
qed

text \<open>A firmware that leaves its registers as they are, called with \<open>dl = 3\<close>.\<close>

theorem bios_call_witness:
  "\<exists>R' M'. Send2Interrupt (\<lambda>n (C, M). (C, 1, M)) ([], 0, 0) 0x10 ((words_struct (replicate 21 0))\<lparr>b_dl := 3\<rparr>, blank) = Some (R', M')
     \<and> b_ax R' = 3 \<and> \<not> bit (b_eflags R') 0"
proof -
  have "\<not> bit (cr0 blank) 31" by (simp add: blank_def)
  from bios_call [OF this, of "\<lambda>n (C, M). (C, 1, M)" "0x10" "(words_struct (replicate 21 0))\<lparr>b_dl := 3\<rparr>" "[]" 0 0]
  show ?thesis by (fastforce simp: Let_def words_struct_def)
qed

text \<open>Once paging is on, as it is from the end of the start-up on, the switch to real mode faults.\<close>

lemma bios_call_paging: "Paging_IsEnabled M P \<Longrightarrow> Send2Interrupt bios (code, r1, r2) n (R, M) = None"
proof -
  assume "Paging_IsEnabled M P"
  then have "cr0 M AND 0x80000000 \<noteq> 0" by (simp add: Paging_IsEnabled_def)
  moreover have "(2 :: u32) ^ 31 = 0x80000000" by simp
  ultimately have "bit (cr0 M) 31" using and_exp_eq_0_iff_not_bit [of "cr0 M" 31] by (simp only:) blast
  then show ?thesis by (simp add: Send2Interrupt_def int32_def)
qed

end
