(* ===== verification/Reports.thy ===== *)
theory Reports
  imports Shell_Display Initrd PMM Paging Multiboot Scheduler Descriptor_Tables
begin

text \<open>
  The printing half of \<open>Applications::Commands\<close> (src/src/src/classes/commands.class.h): \<open>Print\<close>,
  the boxes, and reports.  A report is a list of items, executed in order; an item builds a line
  in the local buffer with the pieces of \<open>Text_Lines\<close> and prints it, plain or inside a box.  The
  main result is that a report whose pieces fit prints exactly the texts of its items.
\<close>

section \<open>The state the commands see\<close>

record kernel =
  k_mach :: mach
  k_heap :: heap
  k_pmm :: pmm
  k_multiboot :: multiboot
  k_initrd :: initrd
  k_paging :: paging
  k_gdt :: gdt
  k_idt :: idt
  k_timer :: timer
  k_sched :: sched
  k_shell :: shell
  k_kbd :: keyboard

text \<open>
  What the code takes from outside: the contents of a fresh local array (its size first, so that
  the array always has that size), the address at which the argument string of a command lies,
  the build date and time, and the \<open>cpuid\<close> instruction (leaf to eax, ebx, ecx, edx).
\<close>

record platform =
  stack_byte :: "nat \<Rightarrow> u8"
  arg_at :: u32
  build_stamp :: "u8 list"
  cpuid :: "u32 \<Rightarrow> u32 \<times> u32 \<times> u32 \<times> u32"

definition fresh :: "platform \<Rightarrow> nat \<Rightarrow> u8 list" where
  "fresh E n = map (stack_byte E) [0..<n]"

section \<open>Printing\<close>

definition Print :: "u8 list \<Rightarrow> kernel \<Rightarrow> kernel option" where
  "Print s K = map_option (\<lambda>S. K\<lparr>k_shell := S\<rparr>) (WriteC s (k_shell K))"

definition BOX_HORIZONTAL :: u8 where "BOX_HORIZONTAL = 0xC4"
definition BOX_VERTICAL :: u8 where "BOX_VERTICAL = 0xB3"
definition BOX_TL :: u8 where "BOX_TL = 0xDA"
definition BOX_TR :: u8 where "BOX_TR = 0xBF"
definition BOX_BL :: u8 where "BOX_BL = 0xC0"
definition BOX_BR :: u8 where "BOX_BR = 0xD9"
definition BOX_WIDTH :: nat where "BOX_WIDTH = 78"

lemmas box_defs = BOX_HORIZONTAL_def BOX_VERTICAL_def BOX_TL_def BOX_TR_def BOX_BL_def BOX_BR_def BOX_WIDTH_def

text \<open>\<open>for (i = 0; s[i] && j < limit; i++) buf[j++] = s[i]\<close> and \<open>while (j < limit) buf[j++] = c\<close>.\<close>

fun copy_while :: "nat \<Rightarrow> u8 list \<Rightarrow> u8 list \<times> nat \<Rightarrow> (u8 list \<times> nat) option" where
  "copy_while limit [] s = Some s"
| "copy_while limit (c # cs) (buf, j) =
     (if j < limit then do { b \<leftarrow> put buf j c; copy_while limit cs (b, j + 1) } else Some (buf, j))"

function fill_to :: "nat \<Rightarrow> u8 \<Rightarrow> u8 list \<times> nat \<Rightarrow> (u8 list \<times> nat) option" where
  "fill_to limit c (buf, j) =
     (if j < limit then do { b \<leftarrow> put buf j c; fill_to limit c (b, j + 1) } else Some (buf, j))"
  by pat_completeness auto
termination by (relation "measure (\<lambda>(limit, c, buf, j). limit - j)") auto

declare fill_to.simps [simp del]

definition BoxTop :: "platform \<Rightarrow> u8 list \<Rightarrow> kernel \<Rightarrow> kernel option" where
  "BoxTop E title K = do {
     s1 \<leftarrow> emit_all 82 [Raw BOX_TL, Raw BOX_HORIZONTAL, Raw 0x20] (fresh E 82, 0);
     s2 \<leftarrow> copy_while (BOX_WIDTH - 2) title s1;
     s3 \<leftarrow> emit 82 (Raw 0x20) s2;
     s4 \<leftarrow> fill_to (BOX_WIDTH - 1) BOX_HORIZONTAL s3;
     (buf, j) \<leftarrow> emit_all 82 [Raw BOX_TR, Nul] s4;
     text \<leftarrow> c_string buf;
     Print text K }"

definition BoxLine :: "platform \<Rightarrow> u8 list \<Rightarrow> kernel \<Rightarrow> kernel option" where
  "BoxLine E inner K = do {
     s1 \<leftarrow> emit_all 82 [Raw BOX_VERTICAL, Raw 0x20, Raw 0x20] (fresh E 82, 0);
     s2 \<leftarrow> copy_while (BOX_WIDTH - 1) inner s1;
     s3 \<leftarrow> fill_to (BOX_WIDTH - 1) 0x20 s2;
     (buf, j) \<leftarrow> emit_all 82 [Raw BOX_VERTICAL, Nul] s3;
     text \<leftarrow> c_string buf;
     Print text K }"

definition BoxBlank :: "platform \<Rightarrow> kernel \<Rightarrow> kernel option" where
  "BoxBlank E = BoxLine E []"

definition BoxBottom :: "platform \<Rightarrow> kernel \<Rightarrow> kernel option" where
  "BoxBottom E K = do {
     s1 \<leftarrow> emit 82 (Raw BOX_BL) (fresh E 82, 0);
     s2 \<leftarrow> fill_to (BOX_WIDTH - 1) BOX_HORIZONTAL s1;
     (buf, j) \<leftarrow> emit_all 82 [Raw BOX_BR, Nul] s2;
     text \<leftarrow> c_string buf;
     Print text K }"

section \<open>Reports\<close>

text \<open>
  \<open>Lit\<close> and \<open>Buf\<close> are printed plain, \<open>BoxLit\<close> and \<open>BoxBuf\<close> inside a box; \<open>Buf\<close> and \<open>BoxBuf\<close>
  build their text in the local buffer \<open>buf\<close>, which keeps its contents from line to line.
\<close>

datatype item = Lit "u8 list" | Buf "piece list" | Top "u8 list" | BoxLit "u8 list" | BoxBuf "piece list" | Bottom

definition build :: "piece list \<Rightarrow> u8 list \<Rightarrow> (u8 list \<times> u8 list) option" where
  "build ps buf = do { (b, j) \<leftarrow> emit_all (length buf) ps (buf, 0); s \<leftarrow> c_string b; Some (s, b) }"

fun run_item :: "platform \<Rightarrow> item \<Rightarrow> u8 list \<times> kernel \<Rightarrow> (u8 list \<times> kernel) option" where
  "run_item E (Lit s) (buf, K) = do { K' \<leftarrow> Print s K; Some (buf, K') }"
| "run_item E (Buf ps) (buf, K) = do { (s, b) \<leftarrow> build ps buf; K' \<leftarrow> Print s K; Some (b, K') }"
| "run_item E (Top s) (buf, K) = do { K' \<leftarrow> BoxTop E s K; Some (buf, K') }"
| "run_item E (BoxLit s) (buf, K) = do { K' \<leftarrow> BoxLine E s K; Some (buf, K') }"
| "run_item E (BoxBuf ps) (buf, K) = do { (s, b) \<leftarrow> build ps buf; K' \<leftarrow> BoxLine E s K; Some (b, K') }"
| "run_item E Bottom (buf, K) = do { K' \<leftarrow> BoxBottom E K; Some (buf, K') }"

definition report :: "platform \<Rightarrow> nat \<Rightarrow> item list \<Rightarrow> kernel \<Rightarrow> kernel option" where
  "report E n items K = map_option snd (for_each (run_item E) items (fresh E n, K))"

section \<open>The text of a box\<close>

definition box_top :: "u8 list \<Rightarrow> u8 list" where
  "box_top t = [BOX_TL, BOX_HORIZONTAL, 0x20] @ take 73 t @ [0x20]
     @ replicate (73 - length (take 73 t)) BOX_HORIZONTAL @ [BOX_TR]"

definition box_line :: "u8 list \<Rightarrow> u8 list" where
  "box_line t = [BOX_VERTICAL, 0x20, 0x20] @ take 74 t @ replicate (74 - length (take 74 t)) 0x20 @ [BOX_VERTICAL]"

definition box_bottom :: "u8 list" where
  "box_bottom = [BOX_BL] @ replicate 76 BOX_HORIZONTAL @ [BOX_BR]"

lemma holds_c_string: "holds n p (b, m) \<Longrightarrow> b ! m = 0 \<Longrightarrow> c_string b = Some p"
proof -
  assume h: "holds n p (b, m)" "b ! m = 0"
  then have q: "take m b = p" "m < length b" "0 \<notin> set p" by auto
  have e: "b = p @ 0 # drop (Suc m) b" using id_take_nth_drop [OF q(2)] q(1) h(2) by simp
  have "takeWhile (\<lambda>c. c \<noteq> 0) (p @ 0 # drop (Suc m) b) = p" using q(3) by (subst takeWhile_append2) auto
  moreover have "0 \<in> set (p @ 0 # drop (Suc m) b)" by simp
  ultimately show ?thesis unfolding c_string_def using e by metis
qed

lemma holds_put:
  assumes "holds n p (buf, j)" "c \<noteq> 0" "Suc (length p) < n"
  shows "\<exists>b. put buf j c = Some b \<and> holds n (p @ [c]) (b, j + 1)"
proof -
  from assms(1) have "length buf = n" "j < n" "take j buf = p" "length p = j" by auto
  from put_take [OF this, of c] obtain b where "put buf j c = Some b" "length b = n" "take (Suc j) b = p @ [c]" by blast
  with assms show ?thesis by auto
qed

lemma holds_fresh: "0 < n \<Longrightarrow> holds n [] (fresh E n, 0)"
  by (simp add: fresh_def)

lemma length_fresh [simp]: "length (fresh E n) = n"
  by (simp add: fresh_def)

lemma copy_while_holds:
  assumes "holds n p (buf, j)" "limit < n" "0 \<notin> set cs"
  shows "\<exists>b m. copy_while limit cs (buf, j) = Some (b, m) \<and> holds n (p @ take (limit - length p) cs) (b, m)"
  using assms
proof (induction cs arbitrary: p buf j)
  case (Cons c cs)
  show ?case
  proof (cases "j < limit")
    case True
    with Cons.prems holds_put [of n p buf j c] obtain b where
      b: "put buf j c = Some b" "holds n (p @ [c]) (b, j + 1)" by auto
    have "limit - length p = Suc (limit - length (p @ [c]))" using True Cons.prems(1) by auto
    with Cons.IH [OF b(2) Cons.prems(2)] Cons.prems(3) b(1) True show ?thesis by (simp del: holds.simps)
  next
    case False
    with Cons.prems show ?thesis by auto
  qed
qed simp

lemma fill_to_holds:
  assumes "holds n p (buf, j)" "limit < n" "c \<noteq> 0"
  shows "\<exists>b m. fill_to limit c (buf, j) = Some (b, m) \<and> holds n (p @ replicate (limit - length p) c) (b, m)"
  using assms
proof (induction "limit - length p" arbitrary: p buf j)
  case 0
  then show ?case by (subst fill_to.simps) auto
next
  case (Suc d)
  then have l: "j < limit" "limit - length p = Suc (limit - length (p @ [c]))" by auto
  with Suc.prems holds_put [of n p buf j c] obtain b where
    b: "put buf j c = Some b" "holds n (p @ [c]) (b, j + 1)" by auto
  from Suc.hyps(1) [OF _ b(2) Suc.prems(2,3)] Suc.hyps(2) l(2) b(1) l(1) show ?case
    by (subst fill_to.simps) (simp del: holds.simps)
qed

lemma box_codes [simp]:
  "BOX_HORIZONTAL \<noteq> 0" "BOX_VERTICAL \<noteq> 0" "BOX_TL \<noteq> 0" "BOX_TR \<noteq> 0" "BOX_BL \<noteq> 0" "BOX_BR \<noteq> 0"
  "BOX_HORIZONTAL \<noteq> 0x0A" "BOX_VERTICAL \<noteq> 0x0A" "BOX_TL \<noteq> 0x0A" "BOX_TR \<noteq> 0x0A" "BOX_BL \<noteq> 0x0A" "BOX_BR \<noteq> 0x0A"
  by (simp_all add: box_defs)

text \<open>Pieces behind a prefix, and the two that close a line.\<close>

lemma emit_all_step:
  assumes "holds n p s" "pieces_ok n p ps" "ps \<noteq> []" "ends_string (last ps)"
  shows "\<exists>b m. emit_all n ps s = Some (b, m) \<and> holds n (foldl (piece_text n) p ps) (b, m) \<and> b ! m = 0"
  using emit_all_holds [OF assms(1,2)] assms(3,4) by blast

lemma emit_raws:
  assumes "holds n p (buf, j)" "0 \<notin> set cs" "length p + length cs < n"
  shows "\<exists>b m. emit_all n (map Raw cs) (buf, j) = Some (b, m) \<and> holds n (p @ cs) (b, m)"
  using assms
proof (induction cs arbitrary: p buf j)
  case (Cons c cs)
  from Cons.prems holds_put [of n p buf j c] obtain b where
    b: "put buf j c = Some b" "holds n (p @ [c]) (b, j + 1)" by auto
  from Cons.IH [OF b(2)] Cons.prems b(1) show ?case by (simp del: holds.simps)
qed simp

lemma close_line:
  assumes "holds n p (buf, j)" "c \<noteq> 0" "Suc (length p) < n"
  shows "\<exists>b m. emit_all n [Raw c, Nul] (buf, j) = Some (b, m) \<and> c_string b = Some (p @ [c])"
proof -
  have "pieces_ok n p [Raw c, Nul]" using assms by simp
  from emit_all_step [OF assms(1) this] obtain b m where
    "emit_all n [Raw c, Nul] (buf, j) = Some (b, m)" "holds n (p @ [c]) (b, m)" "b ! m = 0" by auto
  then show ?thesis using holds_c_string by blast
qed

lemma BoxLine_text:
  assumes "0 \<notin> set t" shows "BoxLine E t K = Print (box_line t) K"
proof -
  let ?p1 = "[BOX_VERTICAL, 0x20, 0x20]" and ?q = "take 74 t"
  obtain b1 m1 where s1: "emit_all 82 [Raw BOX_VERTICAL, Raw 0x20, Raw 0x20] (fresh E 82, 0) = Some (b1, m1)"
    "holds 82 ?p1 (b1, m1)"
    using emit_raws [OF holds_fresh, of 82 ?p1 E] by auto
  obtain b2 m2 where s2: "copy_while (BOX_WIDTH - 1) t (b1, m1) = Some (b2, m2)" "holds 82 (?p1 @ ?q) (b2, m2)"
    using copy_while_holds [OF s1(2) _ assms, of "BOX_WIDTH - 1"] by (auto simp: BOX_WIDTH_def)
  obtain b3 m3 where s3: "fill_to (BOX_WIDTH - 1) 0x20 (b2, m2) = Some (b3, m3)"
    "holds 82 ((?p1 @ ?q) @ replicate (74 - length ?q) 0x20) (b3, m3)"
    using fill_to_holds [OF s2(2), of "BOX_WIDTH - 1" "0x20"] by (auto simp: BOX_WIDTH_def)
  obtain b4 m4 where "emit_all 82 [Raw BOX_VERTICAL, Nul] (b3, m3) = Some (b4, m4)"
    "c_string b4 = Some (((?p1 @ ?q) @ replicate (74 - length ?q) 0x20) @ [BOX_VERTICAL])"
    using close_line [OF s3(2), of BOX_VERTICAL] by auto
  with s1(1) s2(1) s3(1) show ?thesis
    unfolding BoxLine_def by (simp only: Option.bind.simps prod.case) (simp add: box_line_def)
qed

lemma BoxTop_text:
  assumes "0 \<notin> set t" shows "BoxTop E t K = Print (box_top t) K"
proof -
  let ?p1 = "[BOX_TL, BOX_HORIZONTAL, 0x20]" and ?q = "take 73 t"
  obtain b1 m1 where s1: "emit_all 82 [Raw BOX_TL, Raw BOX_HORIZONTAL, Raw 0x20] (fresh E 82, 0) = Some (b1, m1)"
    "holds 82 ?p1 (b1, m1)"
    using emit_raws [OF holds_fresh, of 82 ?p1 E] by auto
  obtain b2 m2 where s2: "copy_while (BOX_WIDTH - 2) t (b1, m1) = Some (b2, m2)" "holds 82 (?p1 @ ?q) (b2, m2)"
    using copy_while_holds [OF s1(2) _ assms, of "BOX_WIDTH - 2"] by (auto simp: BOX_WIDTH_def)
  obtain b3 m3 where s3: "emit 82 (Raw 0x20) (b2, m2) = Some (b3, m3)" "holds 82 ((?p1 @ ?q) @ [0x20]) (b3, m3)"
    using emit_holds [OF s2(2), of "Raw 0x20"] by (auto simp: min_less_iff_disj simp del: holds.simps emit.simps)
  obtain b4 m4 where s4: "fill_to (BOX_WIDTH - 1) BOX_HORIZONTAL (b3, m3) = Some (b4, m4)"
    "holds 82 (((?p1 @ ?q) @ [0x20]) @ replicate (73 - length ?q) BOX_HORIZONTAL) (b4, m4)"
    using fill_to_holds [OF s3(2), of "BOX_WIDTH - 1" "BOX_HORIZONTAL"] by (auto simp: BOX_WIDTH_def)
  obtain b5 m5 where "emit_all 82 [Raw BOX_TR, Nul] (b4, m4) = Some (b5, m5)"
    "c_string b5 = Some ((((?p1 @ ?q) @ [0x20]) @ replicate (73 - length ?q) BOX_HORIZONTAL) @ [BOX_TR])"
    using close_line [OF s4(2), of BOX_TR] by auto
  with s1(1) s2(1) s3(1) s4(1) show ?thesis
    unfolding BoxTop_def by (simp only: Option.bind.simps prod.case) (simp add: box_top_def)
qed

lemma BoxBottom_text: "BoxBottom E K = Print box_bottom K"
proof -
  obtain b1 m1 where s1: "emit 82 (Raw BOX_BL) (fresh E 82, 0) = Some (b1, m1)" "holds 82 [BOX_BL] (b1, m1)"
    using emit_raws [OF holds_fresh, of 82 "[BOX_BL]" E] by auto
  obtain b2 m2 where s2: "fill_to (BOX_WIDTH - 1) BOX_HORIZONTAL (b1, m1) = Some (b2, m2)"
    "holds 82 ([BOX_BL] @ replicate 76 BOX_HORIZONTAL) (b2, m2)"
    using fill_to_holds [OF s1(2), of "BOX_WIDTH - 1" "BOX_HORIZONTAL"] by (auto simp: BOX_WIDTH_def)
  obtain b3 m3 where "emit_all 82 [Raw BOX_BR, Nul] (b2, m2) = Some (b3, m3)"
    "c_string b3 = Some (([BOX_BL] @ replicate 76 BOX_HORIZONTAL) @ [BOX_BR])"
    using close_line [OF s2(2), of BOX_BR] by auto
  with s1(1) s2(1) show ?thesis
    unfolding BoxBottom_def by (simp only: Option.bind.simps prod.case) (simp add: box_bottom_def)
qed

section \<open>The text of a report\<close>

fun item_text :: "nat \<Rightarrow> item \<Rightarrow> u8 list" where
  "item_text n (Lit s) = s"
| "item_text n (Buf ps) = text_of n ps"
| "item_text n (Top s) = box_top s"
| "item_text n (BoxLit s) = box_line s"
| "item_text n (BoxBuf ps) = box_line (text_of n ps)"
| "item_text n Bottom = box_bottom"

definition line_ok :: "nat \<Rightarrow> piece list \<Rightarrow> bool" where
  "line_ok n ps \<longleftrightarrow> 0 < n \<and> pieces_ok n [] ps \<and> ps \<noteq> [] \<and> ends_string (last ps)"

fun item_ok :: "nat \<Rightarrow> item \<Rightarrow> bool" where
  "item_ok n (Lit s) \<longleftrightarrow> line_fits s"
| "item_ok n (Buf ps) \<longleftrightarrow> line_ok n ps \<and> n \<le> 80"
| "item_ok n (Top s) \<longleftrightarrow> 0 \<notin> set s"
| "item_ok n (BoxLit s) \<longleftrightarrow> 0 \<notin> set s"
| "item_ok n (BoxBuf ps) \<longleftrightarrow> line_ok n ps"
| "item_ok n Bottom \<longleftrightarrow> True"

lemma rows_from_short: "r \<in> set (rows_from p s) \<Longrightarrow> length r \<le> length p + length s"
proof (induction p s arbitrary: r rule: rows_from.induct)
  case (2 p c cs)
  then show ?case by (cases "c = 0x0A") fastforce+
qed simp

lemma line_fits_short: "length s \<le> 79 \<Longrightarrow> line_fits s"
  unfolding line_fits_def fits_def using rows_from_short [of _ "[]" s] by fastforce

lemma box_width [simp]: "length (box_top t) = 78" "length (box_line t) = 78" "length box_bottom = 78"
  by (simp_all add: box_top_def box_line_def box_bottom_def)

lemma box_fits [simp]: "line_fits (box_top t)" "line_fits (box_line t)" "line_fits box_bottom"
  by (simp_all add: line_fits_short)

lemma pieces_length:
  "pieces_ok n p ps \<Longrightarrow> length p < n \<Longrightarrow> length (foldl (piece_text n) p ps) < n"
proof (induction ps arbitrary: p)
  case (Cons x ps)
  have "length (piece_text n p x) < n" using Cons.prems by (cases x) auto
  with Cons show ?case by simp
qed simp

lemma text_of_fits: "line_ok n ps \<Longrightarrow> n \<le> 80 \<Longrightarrow> line_fits (text_of n ps)"
  using pieces_length [of n "[]" ps] by (auto simp: line_ok_def text_of_def intro!: line_fits_short)

lemma build_text:
  assumes "line_ok (length buf) ps"
  shows "\<exists>b. build ps buf = Some (text_of (length buf) ps, b) \<and> length b = length buf \<and> 0 \<notin> set (text_of (length buf) ps)"
proof -
  have "holds (length buf) [] (buf, 0)" using assms by (auto simp: line_ok_def)
  from emit_all_step [OF this] assms obtain b m where
    b: "emit_all (length buf) ps (buf, 0) = Some (b, m)" "holds (length buf) (text_of (length buf) ps) (b, m)" "b ! m = 0"
    unfolding line_ok_def text_of_def by blast
  have "length b = length buf" "0 \<notin> set (text_of (length buf) ps)" using b(2) by auto
  moreover have "c_string b = Some (text_of (length buf) ps)" using holds_c_string [OF b(2,3)] .
  ultimately show ?thesis using b(1) unfolding build_def by (simp only: Option.bind.simps prod.case) simp
qed

definition scroll_kernel :: "u8 list list \<Rightarrow> kernel \<Rightarrow> kernel" where
  "scroll_kernel ls K = K\<lparr>k_shell := shell_scroll ls (k_shell K)\<rparr>"

lemma Print_line: "shell_ok (k_shell K) \<Longrightarrow> line_fits l \<Longrightarrow> Print l K = Some (scroll_kernel [l] K)"
  by (simp add: Print_def terminal.print_line scroll_kernel_def)

lemma run_item_prints:
  assumes "shell_ok (k_shell K)" "item_ok (length buf) x"
  shows "\<exists>b. run_item E x (buf, K) = Some (b, scroll_kernel [item_text (length buf) x] K) \<and> length b = length buf"
proof (cases x)
  case (Buf ps)
  with assms obtain b where "build ps buf = Some (text_of (length buf) ps, b)" "length b = length buf"
    using build_text by auto
  with Buf assms show ?thesis by (simp add: Print_line text_of_fits)
next
  case (BoxBuf ps)
  with assms obtain b where "build ps buf = Some (text_of (length buf) ps, b)" "length b = length buf"
    "0 \<notin> set (text_of (length buf) ps)"
    using build_text by auto
  with BoxBuf assms show ?thesis by (simp add: BoxLine_text Print_line)
qed (use assms in \<open>simp_all add: Print_line BoxTop_text BoxLine_text BoxBottom_text\<close>)

lemma item_fits: "item_ok n x \<Longrightarrow> line_fits (item_text n x)"
  by (cases x) (simp_all add: text_of_fits)

lemma scroll_kernel_sel [simp]:
  "k_mach (scroll_kernel ls K) = k_mach K" "k_heap (scroll_kernel ls K) = k_heap K" "k_pmm (scroll_kernel ls K) = k_pmm K"
  "k_multiboot (scroll_kernel ls K) = k_multiboot K" "k_initrd (scroll_kernel ls K) = k_initrd K"
  "k_paging (scroll_kernel ls K) = k_paging K" "k_timer (scroll_kernel ls K) = k_timer K"
  "k_sched (scroll_kernel ls K) = k_sched K" "k_kbd (scroll_kernel ls K) = k_kbd K"
  "k_shell (scroll_kernel ls K) = shell_scroll ls (k_shell K)"
  by (simp_all add: scroll_kernel_def)

text \<open>The console of the kernel is a line printer as its shell is one.\<close>

interpretation console: line_printer "\<lambda>K :: kernel. shell_ok (k_shell K)" line_fits Print scroll_kernel
proof
  fix K :: kernel and l assume "shell_ok (k_shell K)" "line_fits l"
  then show "Print l K = Some (scroll_kernel [l] K)" by (rule Print_line)
next
  fix K :: kernel and ls assume "shell_ok (k_shell K)" "\<forall>l \<in> set ls. line_fits l"
  then show "shell_ok (k_shell (scroll_kernel ls K))" by (simp add: terminal.scroll_ok)
next
  fix K :: kernel and ls ms assume "shell_ok (k_shell K)" "\<forall>l \<in> set (ls @ ms). line_fits l"
  from terminal.scroll_append [OF this] show "scroll_kernel ms (scroll_kernel ls K) = scroll_kernel (ls @ ms) K"
    by (simp add: scroll_kernel_def)
next
  fix K :: kernel assume "shell_ok (k_shell K)"
  then show "scroll_kernel [] K = K" by (simp add: scroll_kernel_def terminal.scroll_nil)
qed

lemma run_items_print:
  assumes "shell_ok (k_shell K)" "\<forall>x \<in> set items. item_ok (length buf) x"
  shows "map_option snd (for_each (run_item E) items (buf, K))
    = Some (scroll_kernel (map (item_text (length buf)) items) K)"
  using assms
proof (induction items arbitrary: buf K)
  case Nil
  then show ?case by (simp add: console.scroll_nil)
next
  case (Cons x items)
  let ?l = "item_text (length buf) x"
  from Cons.prems run_item_prints [of K buf x E] obtain b where
    b: "run_item E x (buf, K) = Some (b, scroll_kernel [?l] K)" "length b = length buf" by auto
  have "shell_ok (k_shell (scroll_kernel [?l] K))"
    using console.scroll_ok [of K "[?l]"] Cons.prems item_fits by auto
  then have "map_option snd (for_each (run_item E) items (b, scroll_kernel [?l] K))
      = Some (scroll_kernel (map (item_text (length buf)) items) (scroll_kernel [?l] K))"
    using Cons.IH [of "scroll_kernel [?l] K" b] Cons.prems b(2) by simp
  also have "scroll_kernel (map (item_text (length buf)) items) (scroll_kernel [?l] K)
      = scroll_kernel (map (item_text (length buf)) (x # items)) K"
    using console.scroll_append [of K "[?l]" "map (item_text (length buf)) items"] Cons.prems item_fits by auto
  finally show ?case using b(1) by simp
qed

lemma report_prints:
  assumes "shell_ok (k_shell K)" "\<forall>x \<in> set items. item_ok n x"
  shows "report E n items K = Some (scroll_kernel (map (item_text n) items) K)"
  using run_items_print [OF assms(1), of items "fresh E n" E] assms(2) by (simp add: report_def)

end
