(* ===== verification/Commands.thy ===== *)
theory Commands
  imports Reports
begin

text \<open>
  \<open>Applications::Commands\<close> (src/src/src/classes/commands.class.h): the builtin commands, their
  table and the dispatcher.  A C string is the list of its bytes before the terminator.
\<close>

unbundle bit_operations_syntax

text \<open>
  How a command ends: it returns, it halts the processor for ever with interrupts off, it raises
  an exception vector, or it resets the machine by a fault that no handler can take.  Where a
  function returns an option, \<open>None\<close> is an access outside an array, or a wait that never ends.
\<close>

datatype outcome = Returned kernel | Stopped kernel | Trapped nat kernel | Reset kernel

section \<open>Strings\<close>

fun Strcmp :: "u8 list \<Rightarrow> u8 list \<Rightarrow> int" where
  "Strcmp (x # xs) (y # ys) = (if x = y then Strcmp xs ys else uint x - uint y)"
| "Strcmp (x # xs) [] = uint x"
| "Strcmp [] (y # ys) = - uint y"
| "Strcmp [] [] = 0"

definition hex_digit :: "u8 \<Rightarrow> u32 option" where
  "hex_digit c = (if 0x30 \<le> c \<and> c \<le> 0x39 then Some (ucast c - 0x30)
     else if 0x61 \<le> c \<and> c \<le> 0x66 then Some (ucast c - 0x61 + 10)
     else if 0x41 \<le> c \<and> c \<le> 0x46 then Some (ucast c - 0x41 + 10)
     else None)"

fun parse_loop :: "u8 list \<Rightarrow> u32 \<Rightarrow> bool \<Rightarrow> u32 \<times> bool" where
  "parse_loop [] v any = (v, any)"
| "parse_loop (c # cs) v any =
     (case hex_digit c of Some d \<Rightarrow> parse_loop cs (push_bit 4 v OR d) True | None \<Rightarrow> (v, any))"

definition ParseHex :: "u8 list \<Rightarrow> u32 option" where
  "ParseHex s =
     (if s = [] then None
      else let s' = (if hd s = 0x30 \<and> 1 < length s \<and> (s ! 1 = 0x78 \<or> s ! 1 = 0x58) then drop 2 s else s);
               (v, any) = parse_loop s' 0 False
           in if \<not> any then None else Some v)"

text \<open>The C string at an address, as far as the first \<open>n\<close> bytes go.\<close>

definition chars_at :: "mem \<Rightarrow> u32 \<Rightarrow> nat \<Rightarrow> u8 list" where
  "chars_at m a n = takeWhile (\<lambda>c. c \<noteq> 0) (map (\<lambda>i. m (a + of_nat i)) [0..<n])"

definition data_at :: "mem \<Rightarrow> u32 \<Rightarrow> u32 \<Rightarrow> u8 list" where
  "data_at m a n = map (\<lambda>i. m (a + of_nat i)) [0..<unat n]"

text \<open>
  The loop that lifts the lines of a file into \<open>char line[80]\<close>; \<open>act\<close> is what is done with a
  line, given its length and the array.  The loop of \<open>cat\<close> and the one over \<open>init.sh\<close> in
  kernel.cpp have the same shape.
\<close>

fun text_loop :: "(nat \<Rightarrow> u8 list \<Rightarrow> 's \<Rightarrow> 's option) \<Rightarrow> u8 list \<Rightarrow> u8 list \<times> nat \<Rightarrow> 's \<Rightarrow> 's option" where
  "text_loop act [] (buf, li) s = (if 0 < li then do { b \<leftarrow> put buf li 0; act li b s } else Some s)"
| "text_loop act (c # cs) (buf, li) s =
     (if c = 0x0D then text_loop act cs (buf, li) s
      else if c = 0x0A \<or> 79 \<le> li then do {
        b1 \<leftarrow> put buf li 0;
        s' \<leftarrow> act li b1 s;
        if c \<noteq> 0x0A then do { b2 \<leftarrow> put b1 0 c; text_loop act cs (b2, 1) s' }
        else text_loop act cs (b1, 0) s' }
      else do { b1 \<leftarrow> put buf li c; text_loop act cs (b1, li + 1) s })"

section \<open>The table\<close>

datatype builtin = Cmd_help | Cmd_ver | Cmd_mem | Cmd_pmm | Cmd_paging | Cmd_tasks | Cmd_ls | Cmd_cat
  | Cmd_peek | Cmd_dumpmem | Cmd_uptime | Cmd_ticks | Cmd_date | Cmd_clear | Cmd_echo | Cmd_cpuid
  | Cmd_halt | Cmd_reboot | Cmd_panic

definition Table :: "(u8 list \<times> builtin \<times> u8 list) list" where
  "Table = [
     (str ''help'', Cmd_help, str ''List all commands''),
     (str ''ver'', Cmd_ver, str ''Kernel version & build info''),
     (str ''mem'', Cmd_mem, str ''Kernel heap stats''),
     (str ''pmm'', Cmd_pmm, str ''Physical memory bitmap stats''),
     (str ''paging'', Cmd_paging, str ''MMU / page directory state''),
     (str ''tasks'', Cmd_tasks, str ''List kernel tasks (scheduler)''),
     (str ''ls'', Cmd_ls, str ''List files in the initrd ramdisk''),
     (str ''cat'', Cmd_cat, str ''Print a file from the ramdisk''),
     (str ''peek'', Cmd_peek, str ''Read a 32-bit value: peek <hex-addr>''),
     (str ''dumpmem'', Cmd_dumpmem, str ''Hexdump 64 bytes: dumpmem <hex-addr>''),
     (str ''uptime'', Cmd_uptime, str ''Time since boot''),
     (str ''ticks'', Cmd_ticks, str ''Raw timer tick count''),
     (str ''date'', Cmd_date, str ''Approximate timestamp (uptime-based)''),
     (str ''clear'', Cmd_clear, str ''Clear current terminal''),
     (str ''echo'', Cmd_echo, str ''Print arguments''),
     (str ''cpuid'', Cmd_cpuid, str ''CPU vendor & feature flags''),
     (str ''halt'', Cmd_halt, str ''Halt the CPU forever''),
     (str ''reboot'', Cmd_reboot, str ''Reboot via triple-fault''),
     (str ''panic'', Cmd_panic, str ''Trigger an intentional kernel panic'')]"

section \<open>Reports\<close>

definition help_items :: "item list" where
  "help_items = Lit (str ''Available commands:'') #
     map (\<lambda>(name, _, desc). Buf [Str (str ''  ''), Str name, Pad 12, Str (str ''- ''), Str desc, Nul]) Table"

definition cmd_help :: "platform \<Rightarrow> kernel \<Rightarrow> kernel option" where
  "cmd_help E K = report E 80 help_items K"

definition ver_items :: "platform \<Rightarrow> item list" where
  "ver_items E = [
     Lit (str ''Shiro - Operating System''),
     Lit (str ''  Version: 0.5 (development)''),
     Lit (str ''  Compiler: i686-elf-g++ 13.2.0''),
     Lit (str ''  Boot:     Multiboot2 / GRUB''),
     Lit (str ''  Build:    '' @ build_stamp E)]"

definition cmd_ver :: "platform \<Rightarrow> kernel \<Rightarrow> kernel option" where
  "cmd_ver E K = report E 0 (ver_items E) K"

definition mem_items :: "heap \<Rightarrow> multiboot \<Rightarrow> item list" where
  "mem_items H B = [
     Top (str ''Kernel Heap (System::Heap)''),
     BoxBuf [Str (str ''base       = ''), Hex (heap_base H), Str (str ''    end = ''), Hex (heap_end H)],
     BoxBuf [Str (str ''used       = ''), Num (bytes_used H), Str (str '' bytes    free = ''),
       Num (bytes_free H), Str (str '' bytes'')],
     BoxBuf [Str (str ''allocs     = ''), Num (alloc_count H), Str (str ''    frees = ''), Num (free_count H)],
     Bottom,
     Top (str ''Multiboot Info''),
     BoxBuf [Str (str ''mem_lower  = ''), Num (mem_lower B), Str (str '' KiB    mem_upper = ''),
       Num (mem_upper B), Str (str '' KiB'')],
     BoxBuf [Str (str ''mmap avail = ''), Num (ucast (mmap_total_available B div (1024 * 1024))),
       Str (str '' MiB across ''), Num (mmap_count B), Str (str '' regions'')],
     Bottom]"

definition cmd_mem :: "platform \<Rightarrow> kernel \<Rightarrow> kernel option" where
  "cmd_mem E K = report E 80 (mem_items (k_heap K) (k_multiboot K)) K"

definition pmm_items :: "pmm \<Rightarrow> item list" where
  "pmm_items P = [
     Top (str ''Physical Memory Manager''),
     BoxLit (str ''page size = 4 KiB''),
     BoxBuf [Str (str ''total = ''), Num (total_pages P), Str (str '' pages (''),
       Num (total_pages P div 256), Str (str '' MiB tracked)'')],
     BoxBuf [Str (str ''used  = ''), Num (used_pages P), Str (str '' pages (''),
       Num (used_pages P * 4), Str (str '' KiB)'')],
     BoxBuf [Str (str ''free  = ''), Num (free_pages P), Str (str '' pages (''),
       Num (free_pages P div 256), Str (str '' MiB)'')],
     Bottom]"

definition cmd_pmm :: "platform \<Rightarrow> kernel \<Rightarrow> kernel option" where
  "cmd_pmm E K = report E 80 (pmm_items (k_pmm K)) K"

definition cmd_peek :: "platform \<Rightarrow> u8 list \<Rightarrow> kernel \<Rightarrow> kernel option" where
  "cmd_peek E args K =
     (case ParseHex args of
        None \<Rightarrow> report E 0 [Lit (str ''usage: peek <hex-address>''), Lit (str ''example: peek 0xB8000'')] K
      | Some a \<Rightarrow>
          let addr = a AND NOT 3; val = load32 (ram (k_mach K)) addr
          in report E 80 [Buf [Str (str ''[''), Hex addr, Str (str ''] = ''), Hex val]] K)"

definition dump_hex :: "nat \<Rightarrow> u8 \<Rightarrow> piece list" where
  "dump_hex col b = [Raw (digit_string ! unat (drop_bit 4 b)), Raw (digit_string ! unat (b AND 0xF)), Raw 0x20]
     @ (if col = 7 then [Raw 0x20] else [])"

definition dump_char :: "u8 \<Rightarrow> u8" where
  "dump_char b = (if 0x20 \<le> b \<and> b < 0x7F then b else 0x2E)"

definition dump_row :: "mem \<Rightarrow> u32 \<Rightarrow> nat \<Rightarrow> piece list" where
  "dump_row m addr row =
     (let b = (\<lambda>col. m (addr + of_nat (row * 16 + col)))
      in [Hex (addr + of_nat (row * 16)), Str (str '':  '')]
         @ concat (map (\<lambda>col. dump_hex col (b col)) [0..<16]) @ [Raw 0x20]
         @ map (\<lambda>col. Raw (dump_char (b col))) [0..<16] @ [Nul])"

definition cmd_dumpmem :: "platform \<Rightarrow> u8 list \<Rightarrow> kernel \<Rightarrow> kernel option" where
  "cmd_dumpmem E args K =
     (case ParseHex args of
        None \<Rightarrow> report E 0 [Lit (str ''usage: dumpmem <hex-address>'')] K
      | Some a \<Rightarrow> report E 80 (map (\<lambda>row. Buf (dump_row (ram (k_mach K)) (a AND NOT 0xF) row)) [0..<4]) K)"

definition ls_entry :: "mem \<Rightarrow> initrd \<Rightarrow> nat \<Rightarrow> item list" where
  "ls_entry m I i =
     (let e = Initrd_EntryAt (of_nat i) I
      in if e = 0 then []
         else [Buf [Str (str ''  ''), Num (entry_size m e), Pad 10, Str (str ''  ''), Str (chars_at m e 80), Nul]])"

definition ls_items :: "mem \<Rightarrow> initrd \<Rightarrow> item list" where
  "ls_items m I = Buf [Str (str ''Initrd contents (''), Num (Initrd_Count I), Str (str '' files, ''),
       Num (ird_length I), Str (str '' bytes total):'')]
     # concat (map (ls_entry m I) [0..<unat (Initrd_Count I)])"

definition cmd_ls :: "platform \<Rightarrow> kernel \<Rightarrow> kernel option" where
  "cmd_ls E K =
     (if \<not> ird_ready (k_initrd K) then report E 0 [Lit (str ''ls: initrd not loaded'')] K
      else report E 80 (ls_items (ram (k_mach K)) (k_initrd K)) K)"

text \<open>The argument of \<open>Find\<close> is a C string in memory, on the stack of the caller.\<close>

definition find_file :: "platform \<Rightarrow> u8 list \<Rightarrow> kernel \<Rightarrow> u32" where
  "find_file E name K = Initrd_Find (poke_bytes (arg_at E) (name @ [0]) (ram (k_mach K))) (arg_at E) (k_initrd K)"

definition cat_line :: "nat \<Rightarrow> u8 list \<Rightarrow> kernel \<Rightarrow> kernel option" where
  "cat_line li buf K = do { s \<leftarrow> c_string buf; Print s K }"

definition cmd_cat :: "platform \<Rightarrow> u8 list \<Rightarrow> kernel \<Rightarrow> kernel option" where
  "cmd_cat E args K =
     (if args = [] then report E 0 [Lit (str ''usage: cat <filename>'')] K
      else if \<not> ird_ready (k_initrd K) then report E 0 [Lit (str ''cat: initrd not loaded'')] K
      else let e = find_file E args K in
        if e = 0 then report E 80 [Buf [Str (str ''cat: file not found: ''), Str args]] K
        else let data = Initrd_Data (ram (k_mach K)) e (k_initrd K) in
          if data = 0 then report E 0 [Lit (str ''cat: read error'')] K
          else text_loop cat_line (data_at (ram (k_mach K)) data (entry_size (ram (k_mach K)) e)) (fresh E 80, 0) K)"

fun state_text :: "task_state \<Rightarrow> u8 list" where
  "state_text TASK_READY = str ''READY   ''"
| "state_text TASK_SLEEPING = str ''SLEEPING''"
| "state_text TASK_DONE = str ''DONE    ''"
| "state_text TASK_UNUSED = str ''?''"

definition task_item :: "sched \<Rightarrow> task \<Rightarrow> item option" where
  "task_item S t = do {
     name \<leftarrow> c_string (t_name t);
     Some (BoxBuf [
       Str (if t_id t = word_of_int (CurrentId S) then str ''>> '' else str ''   ''), Back,
       Num (t_id t), Pad 4, Str (state_text (t_state t)), Str (str ''  ''), Str name, Pad 33,
       Num (t_yields t), Nul]) }"

fun task_rows :: "sched \<Rightarrow> task list \<Rightarrow> item list option" where
  "task_rows S [] = Some []"
| "task_rows S (t # ts) =
     (if t_state t = TASK_UNUSED then task_rows S ts
      else do { x \<leftarrow> task_item S t; xs \<leftarrow> task_rows S ts; Some (x # xs) })"

definition cmd_tasks :: "platform \<Rightarrow> kernel \<Rightarrow> kernel option" where
  "cmd_tasks E K = do {
     rows \<leftarrow> task_rows (k_sched K) (tasks (k_sched K));
     name \<leftarrow> c_string (CurrentName (k_sched K));
     report E 80 ([Top (str ''Kernel Scheduler (preemptive @ 50ms)''),
         BoxBuf [Str (str ''id  state     name             yields'')]]
       @ rows @ [BoxBuf [Str (str ''running: ''), Str name], Bottom]) K }"

definition paging_items :: "mach \<Rightarrow> paging \<Rightarrow> item list" where
  "paging_items M P = [
     Top (str ''Paging / MMU''),
     BoxBuf [Str (str ''enabled    = ''), Str (if Paging_IsEnabled M P then str ''yes (CR0.PG=1)'' else str ''no'')],
     BoxBuf [Str (str ''CR0        = ''), Hex (cr0 M)],
     BoxBuf [Str (str ''CR3        = ''), Hex (cr3 M), Str (str ''  (page directory)'')],
     BoxBuf [Str (str ''CR4        = ''), Hex (cr4 M), Str (str ''  (PSE bit ''),
       Str (if cr4 M AND 0x10 \<noteq> 0 then str ''on)'' else str ''off)'')],
     BoxLit (str ''page size  = 4 MiB (PSE)''),
     BoxLit (str ''mapped     = 4 GiB identity (1024 x 4 MiB)''),
     Bottom]"

definition cmd_paging :: "platform \<Rightarrow> kernel \<Rightarrow> kernel option" where
  "cmd_paging E K = report E 80 (paging_items (k_mach K) (k_paging K)) K"

definition uptime_items :: "u32 \<Rightarrow> item list" where
  "uptime_items now =
     (let hz = TICK_HZ; total_s = now div hz; hours = total_s div 3600;
          mins = (total_s mod 3600) div 60; secs = total_s mod 60
      in [Buf [Str (str ''uptime: ''), Num hours, Str (str ''h ''), Num mins, Str (str ''m ''), Num secs,
           Str (str ''s  (''), Num now, Str (str '' ticks @ ''), Num hz, Str (str '' Hz)'')]])"

definition cmd_uptime :: "platform \<Rightarrow> kernel \<Rightarrow> kernel option" where
  "cmd_uptime E K = report E 80 (uptime_items (ticks (k_timer K))) K"

definition cmd_ticks :: "platform \<Rightarrow> kernel \<Rightarrow> kernel option" where
  "cmd_ticks E K = report E 64 [Buf [Str (str ''ticks = ''), Num (ticks (k_timer K))]] K"

definition cmd_date :: "platform \<Rightarrow> kernel \<Rightarrow> kernel option" where
  "cmd_date E K = cmd_uptime E K"

definition cpuid_items :: "(u32 \<Rightarrow> u32 \<times> u32 \<times> u32 \<times> u32) \<Rightarrow> item list" where
  "cpuid_items leaf =
     (let (a, b, c, d) = leaf 0;
          vendor = takeWhile (\<lambda>x. x \<noteq> 0) (le32 b @ le32 d @ le32 c);
          (a1, b1, c1, d1) = leaf 1
      in [Buf [Str (str ''vendor: ''), Str vendor],
          Buf [Str (str ''family/model = ''), Num (drop_bit 8 a1 AND 0xF), Str (str ''/''),
            Num (drop_bit 4 a1 AND 0xF), Str (str ''  stepping = ''), Num (a1 AND 0xF)],
          Buf [Str (str ''features (EDX) = ''), Hex d1],
          Buf [Str (str ''  fpu=''), Num (drop_bit 0 d1 AND 1), Str (str '' pse=''), Num (drop_bit 3 d1 AND 1),
            Str (str '' tsc=''), Num (drop_bit 4 d1 AND 1), Str (str '' msr=''), Num (drop_bit 5 d1 AND 1),
            Str (str '' pae=''), Num (drop_bit 6 d1 AND 1), Str (str '' apic=''), Num (drop_bit 9 d1 AND 1),
            Str (str '' sse=''), Num (drop_bit 25 d1 AND 1)]])"

definition cmd_cpuid :: "platform \<Rightarrow> kernel \<Rightarrow> kernel option" where
  "cmd_cpuid E K = report E 80 (cpuid_items (cpuid E)) K"

section \<open>Actions\<close>

definition cmd_clear :: "kernel \<Rightarrow> kernel option" where
  "cmd_clear K = map_option (\<lambda>S. K\<lparr>k_shell := S\<rparr>) (ClearTerminal (current_terminal (k_shell K)) (k_shell K))"

definition cmd_echo :: "u8 list \<Rightarrow> kernel \<Rightarrow> kernel option" where
  "cmd_echo args K = Print (if args \<noteq> [] then args else []) K"

definition cmd_halt :: "kernel \<Rightarrow> outcome option" where
  "cmd_halt K = do {
     K' \<leftarrow> Print (str ''Halting CPU. Reset the machine to continue.'') K;
     Some (Stopped (K'\<lparr>k_mach := (k_mach K')\<lparr>if_flag := False\<rparr>\<rparr>)) }"

text \<open>\<open>while (inb(0x64) & 0x02)\<close>: the keyboard controller's input buffer is full.\<close>

partial_function (option) kbc_wait :: "mach \<Rightarrow> mach option" where
  "kbc_wait M = (let (v, M') = inb 0x64 M in if v AND 0x02 \<noteq> 0 then kbc_wait M' else Some M')"

definition cmd_reboot :: "kernel \<Rightarrow> outcome option" where
  "cmd_reboot K = do {
     K' \<leftarrow> Print (str ''Rebooting...'') K;
     M \<leftarrow> kbc_wait (k_mach K');
     Some (Reset (K'\<lparr>k_mach := outb 0x64 0xFE M\<rparr>)) }"

definition cmd_panic :: "kernel \<Rightarrow> outcome option" where
  "cmd_panic K = do {
     K' \<leftarrow> Print (str ''Triggering test panic via INT3 (breakpoint)...'') K;
     Some (Trapped 3 K') }"

section \<open>Dispatch\<close>

fun run_builtin :: "platform \<Rightarrow> builtin \<Rightarrow> u8 list \<Rightarrow> kernel \<Rightarrow> outcome option" where
  "run_builtin E Cmd_help args K = map_option Returned (cmd_help E K)"
| "run_builtin E Cmd_ver args K = map_option Returned (cmd_ver E K)"
| "run_builtin E Cmd_mem args K = map_option Returned (cmd_mem E K)"
| "run_builtin E Cmd_pmm args K = map_option Returned (cmd_pmm E K)"
| "run_builtin E Cmd_paging args K = map_option Returned (cmd_paging E K)"
| "run_builtin E Cmd_tasks args K = map_option Returned (cmd_tasks E K)"
| "run_builtin E Cmd_ls args K = map_option Returned (cmd_ls E K)"
| "run_builtin E Cmd_cat args K = map_option Returned (cmd_cat E args K)"
| "run_builtin E Cmd_peek args K = map_option Returned (cmd_peek E args K)"
| "run_builtin E Cmd_dumpmem args K = map_option Returned (cmd_dumpmem E args K)"
| "run_builtin E Cmd_uptime args K = map_option Returned (cmd_uptime E K)"
| "run_builtin E Cmd_ticks args K = map_option Returned (cmd_ticks E K)"
| "run_builtin E Cmd_date args K = map_option Returned (cmd_date E K)"
| "run_builtin E Cmd_clear args K = map_option Returned (cmd_clear K)"
| "run_builtin E Cmd_echo args K = map_option Returned (cmd_echo args K)"
| "run_builtin E Cmd_cpuid args K = map_option Returned (cmd_cpuid E K)"
| "run_builtin E Cmd_halt args K = cmd_halt K"
| "run_builtin E Cmd_reboot args K = cmd_reboot K"
| "run_builtin E Cmd_panic args K = cmd_panic K"

text \<open>\<open>char name[32]\<close>: the bytes before the next separator, 31 at most; the rest of the line.\<close>

fun name_loop :: "u8 list \<Rightarrow> u8 list \<times> nat \<Rightarrow> (u8 list \<times> nat \<times> u8 list) option" where
  "name_loop [] (name, i) = Some (name, i, [])"
| "name_loop (c # cs) (name, i) =
     (if c \<noteq> 0x20 \<and> c \<noteq> 0x09 \<and> c \<noteq> 0x0A \<and> i < 31
      then do { n \<leftarrow> put name i c; name_loop cs (n, i + 1) } else Some (name, i, c # cs))"

definition skip_blanks :: "u8 list \<Rightarrow> u8 list" where
  "skip_blanks s = dropWhile (\<lambda>c. c = 0x20 \<or> c = 0x09) s"

fun dispatch_loop :: "platform \<Rightarrow> u8 list \<Rightarrow> u8 list \<Rightarrow> (u8 list \<times> builtin \<times> u8 list) list \<Rightarrow> kernel \<Rightarrow> outcome option" where
  "dispatch_loop E name args [] K =
     map_option Returned (report E 80 [Buf [Str (str ''shiro: command not found: ''), Str name]] K)"
| "dispatch_loop E name args ((n, f, d) # es) K =
     (if Strcmp name n = 0 then run_builtin E f args K else dispatch_loop E name args es K)"

definition Dispatch :: "platform \<Rightarrow> u8 list \<Rightarrow> kernel \<Rightarrow> outcome option" where
  "Dispatch E cmdline0 K =
     (let l = skip_blanks cmdline0 in
      if l = [] \<or> hd l = 0x0A then Some (Returned K)
      else do {
        (buf, i, rest) \<leftarrow> name_loop l (fresh E 32, 0);
        buf' \<leftarrow> put buf i 0;
        name \<leftarrow> c_string buf';
        dispatch_loop E name (skip_blanks rest) Table K })"

end
