(* ===== verification/Commands_Contract.thy ===== *)
theory Commands_Contract
  imports Commands
begin

text \<open>
  What the commands do: the dispatcher is a lookup of the first word, the parser of addresses
  inverts the printer, the loop over a file lifts its lines, and every command of every line
  stays inside its buffers.
\<close>

unbundle bit_operations_syntax

section \<open>The dispatcher\<close>

lemma Strcmp_0: "0 \<notin> set s \<Longrightarrow> 0 \<notin> set t \<Longrightarrow> Strcmp s t = 0 \<longleftrightarrow> s = t"
proof (induction s t rule: Strcmp.induct)
  case (1 x xs y ys)
  then show ?case by (auto simp: word_uint_eq_iff)
next
  case (2 x xs)
  then show ?case by (auto simp: word_uint_eq_iff)
next
  case (3 y ys)
  then show ?case by (auto simp: word_uint_eq_iff)
qed simp

definition separator :: "u8 \<Rightarrow> bool" where
  "separator c \<longleftrightarrow> c = 0x20 \<or> c = 0x09 \<or> c = 0x0A"

definition first_word :: "u8 list \<Rightarrow> u8 list" where
  "first_word s = take 31 (takeWhile (\<lambda>c. \<not> separator c) s)"

lemma name_loop_word:
  assumes "holds 32 p (buf, i)" "0 \<notin> set s"
  shows "\<exists>b. name_loop s (buf, i) = Some (b, length p + length (take (31 - length p) (takeWhile (\<lambda>c. \<not> separator c) s)),
      drop (length (take (31 - length p) (takeWhile (\<lambda>c. \<not> separator c) s))) s)
    \<and> holds 32 (p @ take (31 - length p) (takeWhile (\<lambda>c. \<not> separator c) s))
        (b, length p + length (take (31 - length p) (takeWhile (\<lambda>c. \<not> separator c) s)))"
  using assms
proof (induction s arbitrary: p buf i)
  case (Cons c s)
  show ?case
  proof (cases "\<not> separator c \<and> i < 31")
    case True
    then have "Suc (length p) < 32" "c \<noteq> 0" using Cons.prems by auto
    with holds_put [OF Cons.prems(1)] obtain b where
      b: "put buf i c = Some b" "holds 32 (p @ [c]) (b, i + 1)" by blast
    have l: "31 - length p = Suc (31 - length (p @ [c]))" using True Cons.prems(1) by auto
    have i: "i = length p" using Cons.prems(1) by simp
    from Cons.IH [OF b(2)] Cons.prems(2) True b(1) show ?thesis
      unfolding l by (simp add: separator_def i del: holds.simps)
  next
    case False
    have i: "i = length p" using Cons.prems(1) by simp
    from False Cons.prems show ?thesis
      by (cases "separator c") (auto simp: separator_def i)
  qed
qed simp

lemma dispatch_loop_find:
  assumes "0 \<notin> set name" "\<forall>(n, f, d) \<in> set es. 0 \<notin> set n"
  shows "dispatch_loop E name args es K =
    (case map_of es name of
       Some (f, d) \<Rightarrow> run_builtin E f args K
     | None \<Rightarrow> map_option Returned (report E 80 [Buf [Str (str ''shiro: command not found: ''), Str name]] K))"
  using assms
proof (induction es)
  case (Cons e es)
  then show ?case by (cases e) (auto simp: Strcmp_0)
qed simp

lemma Table_names: "\<forall>(n, f, d) \<in> set Table. 0 \<notin> set n"
  by (simp add: Table_def zero_in_str)

definition lookup_word :: "platform \<Rightarrow> u8 list \<Rightarrow> u8 list \<Rightarrow> kernel \<Rightarrow> outcome option" where
  "lookup_word E name args K = (case map_of Table name of
       Some (f, d) \<Rightarrow> run_builtin E f args K
     | None \<Rightarrow> map_option Returned (report E 80 [Buf [Str (str ''shiro: command not found: ''), Str name]] K))"

definition dispatch_spec :: "platform \<Rightarrow> u8 list \<Rightarrow> kernel \<Rightarrow> outcome option" where
  "dispatch_spec E l K =
     (let s = skip_blanks l; name = first_word s
      in if s = [] \<or> hd s = 0x0A then Some (Returned K)
         else lookup_word E name (skip_blanks (drop (length name) s)) K)"

lemma skip_blanks_zero: "0 \<notin> set l \<Longrightarrow> 0 \<notin> set (skip_blanks l)"
  unfolding skip_blanks_def by (auto dest: set_dropWhileD)

lemma Dispatch_spec:
  assumes "0 \<notin> set l" shows "Dispatch E l K = dispatch_spec E l K"
proof (cases "skip_blanks l = [] \<or> hd (skip_blanks l) = 0x0A")
  case True
  then show ?thesis by (simp add: Dispatch_def dispatch_spec_def Let_def)
next
  case False
  let ?s = "skip_blanks l"
  let ?w = "first_word ?s"
  have s: "0 \<notin> set ?s" using skip_blanks_zero [OF assms] .
  from name_loop_word [OF holds_fresh [of 32 E], of ?s] s obtain b where
    b: "name_loop ?s (fresh E 32, 0) = Some (b, length ?w, drop (length ?w) ?s)" "holds 32 ?w (b, length ?w)"
    by (auto simp: first_word_def simp del: holds.simps)
  from b(2) have h: "length b = 32" "length ?w < 32" "take (length ?w) b = ?w" by auto
  from put_end [OF h(1,2) h(3)] obtain b' where
    b': "put b (length ?w) 0 = Some b'" "length b' = 32" "take (length ?w) b' = ?w" "b' ! length ?w = 0" by auto
  have "0 \<notin> set ?w" using b(2) by simp
  with b' h(2) have "c_string b' = Some ?w" using holds_c_string [of 32 ?w b' "length ?w"] by simp
  moreover note dispatch_loop_find [OF \<open>0 \<notin> set ?w\<close> Table_names, of E "skip_blanks (drop (length ?w) ?s)" K]
  ultimately show ?thesis
    using False b(1) b'(1) unfolding Dispatch_def dispatch_spec_def Let_def lookup_word_def
    by (simp only: Option.bind.simps prod.case if_False)
qed

section \<open>Addresses\<close>

lemma hex_digit_string: "d < 16 \<Longrightarrow> hex_digit (digit_string ! d) = Some (of_nat d)"
proof -
  have "\<forall>d \<in> set [0..<16]. hex_digit (digit_string ! d) = Some (of_nat d)" by code_simp
  then show "d < 16 \<Longrightarrow> ?thesis" by simp
qed

lemma nibble_or: "d < 16 \<Longrightarrow> push_bit 4 v OR of_nat d = (v * 16 + of_nat d :: u32)"
proof -
  assume d: "d < 16"
  have "push_bit 4 v AND (of_nat d :: u32) = 0"
  proof (rule bit_word_eqI)
    fix k assume "k < LENGTH(32)"
    have "\<not> bit d k" if "4 \<le> k"
    proof -
      have "d < 2 ^ k" using d power_increasing [OF that, of "2 :: nat"] by simp
      then show ?thesis by (simp add: bit_iff_odd)
    qed
    then show "bit (push_bit 4 v AND (of_nat d :: u32)) k = bit 0 k" by (auto simp: bit_simps)
  qed
  then have "push_bit 4 v OR of_nat d = push_bit 4 v + (of_nat d :: u32)" by (rule disjunctive_add_eq_or [symmetric])
  then show ?thesis by (simp add: push_bit_eq_mult)
qed

lemma parse_loop_hexa: "parse_loop (hexa n @ cs) 0 any = parse_loop cs (of_nat n) True"
proof (induction n arbitrary: cs any rule: hexa.induct)
  case (1 n)
  show ?case
  proof (cases "n < 16")
    case True
    then show ?thesis using nibble_or [of n 0] by (simp add: hexa.simps [of n] hex_digit_string)
  next
    case False
    have "(of_nat (n div 16) * 16 + of_nat (n mod 16) :: u32) = of_nat n"
      by (metis of_nat_add of_nat_mult of_nat_numeral div_mult_mod_eq)
    with False 1 [of "digit_string ! (n mod 16) # cs" any] nibble_or [of "n mod 16" "of_nat (n div 16)"]
    show ?thesis by (simp add: hexa.simps [of n] hex_digit_string)
  qed
qed

lemma parse_loop_stop: "cs = [] \<or> hex_digit (hd cs) = None \<Longrightarrow> parse_loop cs v any = (v, any)"
  by (cases cs) auto

lemma hexa_ne [simp]: "hexa n \<noteq> []"
  by (subst hexa.simps) simp

text \<open>The two spellings of the prefix, or none; what follows the digits starts with a blank.\<close>

lemma hexa_second:
  "1 < length (hexa n @ cs) \<Longrightarrow> cs = [] \<or> hd cs = 0x20 \<Longrightarrow> (hexa n @ cs) ! 1 \<noteq> 0x78 \<and> (hexa n @ cs) ! 1 \<noteq> 0x58"
proof -
  assume a: "1 < length (hexa n @ cs)" "cs = [] \<or> hd cs = 0x20"
  have d: "c \<noteq> 0x78 \<and> c \<noteq> 0x58" if "c \<in> set (hexa n)" for c
  proof -
    have "set (hexa n) \<subseteq> set digit_string"
    proof (induction n rule: hexa.induct)
      case (1 n)
      have "digit_string ! k \<in> set digit_string" if "k < 16" for k
        using that by (intro nth_mem) (simp add: digit_string_def)
      with 1 show ?case by (subst hexa.simps) auto
    qed
    with that show ?thesis by (auto simp: digit_string_def)
  qed
  show ?thesis
  proof (cases "1 < length (hexa n)")
    case True
    then show ?thesis using d [OF nth_mem [OF True]] by (simp add: nth_append)
  next
    case False
    then have "length (hexa n) = 1" using hexa_ne [of n] by (cases "hexa n") auto
    with a show ?thesis by (cases cs) (auto simp: nth_append)
  qed
qed

lemma ParseHex_text:
  assumes "p \<in> {[], [0x30, 0x78], [0x30, 0x58]}" "cs = [] \<or> hd cs = 0x20"
  shows "ParseHex (p @ hexa (unat v) @ cs) = Some v"
proof -
  let ?t = "hexa (unat v) @ cs"
  have "hex_digit 0x20 = None" by (simp add: hex_digit_def)
  with assms(2) have "parse_loop ?t 0 False = (v, True)"
    using parse_loop_hexa [of "unat v" cs False] parse_loop_stop [of cs v True] by auto
  moreover have "(if hd (p @ ?t) = 0x30 \<and> 1 < length (p @ ?t) \<and> ((p @ ?t) ! 1 = 0x78 \<or> (p @ ?t) ! 1 = 0x58)
      then drop 2 (p @ ?t) else p @ ?t) = ?t"
    using assms(1) hexa_second [OF _ assms(2), of "unat v"] by auto
  ultimately show ?thesis by (simp add: ParseHex_def Let_def)
qed

section \<open>Lifting the lines of a file\<close>

text \<open>The segments between line feeds; the last one counts only when it is not empty.\<close>

fun segments :: "u8 list \<Rightarrow> u8 list \<Rightarrow> u8 list list" where
  "segments p [] = (if p = [] then [] else [p])"
| "segments p (c # cs) = (if c = 0x0A then p # segments [] cs else segments (p @ [c]) cs)"

function chunks :: "u8 list \<Rightarrow> u8 list list" where
  "chunks s = (if length s \<le> 79 then [s] else take 79 s # chunks (drop 79 s))"
  by pat_completeness auto
termination by (relation "measure length") auto

declare chunks.simps [simp del]

definition file_lines :: "u8 list \<Rightarrow> u8 list list" where
  "file_lines data = concat (map chunks (segments [] (filter (\<lambda>c. c \<noteq> 0x0D) data)))"

text \<open>The array holds the line \<open>l\<close> and its terminator.\<close>

definition line_in :: "u8 list \<Rightarrow> nat \<Rightarrow> u8 list \<Rightarrow> bool" where
  "line_in l li buf \<longleftrightarrow> length buf = 80 \<and> li = length l \<and> li < 80 \<and> take li buf = l \<and> buf ! li = 0"

lemma segments_prefix:
  "segments (p @ q) cs = (case segments q cs of [] \<Rightarrow> if p = [] then [] else [p] | l # ls \<Rightarrow> (p @ l) # ls)"
proof (induction q cs rule: segments.induct)
  case (1 q)
  then show ?case by simp
next
  case (2 q c cs)
  then show ?case by (cases "c = 0x0A") auto
qed

lemma chunks_79: "length p = 79 \<Longrightarrow> q \<noteq> [] \<Longrightarrow> chunks (p @ q) = p # chunks q"
  by (subst chunks.simps) (cases q; simp)

lemma chunks_short: "length p \<le> 79 \<Longrightarrow> chunks p = [p]"
  by (subst chunks.simps) simp

text \<open>The lines of a file of which \<open>p\<close> has been read already.\<close>

definition lines_from :: "u8 list \<Rightarrow> u8 list \<Rightarrow> u8 list list" where
  "lines_from p data = concat (map chunks (segments p (filter (\<lambda>c. c \<noteq> 0x0D) data)))"

lemma lines_from_simps:
  "length p \<le> 79 \<Longrightarrow> lines_from p [] = (if p = [] then [] else [p])"
  "lines_from p (0x0D # cs) = lines_from p cs"
  "length p \<le> 79 \<Longrightarrow> lines_from p (0x0A # cs) = p # lines_from [] cs"
  by (simp_all add: lines_from_def chunks_short)

lemma lines_from_wrap:
  assumes "length p = 79" "c \<noteq> 0x0A" "c \<noteq> 0x0D"
  shows "lines_from p (c # cs) = p # lines_from [c] cs"
proof -
  let ?r = "filter (\<lambda>c. c \<noteq> 0x0D) cs"
  have "segments [c] ?r \<noteq> [] \<and> hd (segments [c] ?r) \<noteq> []"
    using segments_prefix [of "[c]" "[]" ?r] by (auto split: list.splits)
  then obtain l ls where l: "segments [c] ?r = l # ls" "l \<noteq> []" by (cases "segments [c] ?r") auto
  then have "segments (p @ [c]) ?r = (p @ l) # ls" using segments_prefix [of p "[c]" ?r] by simp
  with l assms show ?thesis by (simp add: lines_from_def chunks_79)
qed

lemma put_line:
  assumes "length buf = 80" "li = length p" "li < 80" "take li buf = p"
  shows "\<exists>b. put buf li 0 = Some b \<and> line_in p li b \<and> length b = 80"
proof -
  from put_end [OF assms(1,3,4)] assms(2) obtain b where
    "put buf li 0 = Some b" "length b = 80" "take li b = p" "b ! li = 0" by blast
  with assms(2,3) show ?thesis unfolding line_in_def by blast
qed

lemma text_loop_lines:
  assumes act: "\<And>l li b s. line_in l li b \<Longrightarrow> act li b s = act' l s"
    and buf: "length buf = 80" "li = length p" "li < 80" "take li buf = p"
  shows "text_loop act data (buf, li) s = for_each act' (lines_from p data) s"
  using buf
proof (induction data arbitrary: buf li p s)
  case Nil
  obtain b where b: "put buf li 0 = Some b" "line_in p li b" using put_line [OF Nil] by blast
  have p: "length p \<le> 79" "0 < li \<longleftrightarrow> p \<noteq> []" using Nil(2,3) by auto
  show ?case using b(1) act [OF b(2)] p by (cases "act' p s") (simp_all add: lines_from_simps(1))
next
  case (Cons c cs)
  note B = Cons.prems
  have p79: "length p \<le> 79" using B(2,3) by simp
  obtain b where b: "put buf li 0 = Some b" "line_in p li b" "length b = 80" using put_line [OF B] by blast
  note a = act [OF b(2)]
  consider "c = 0x0D" | "c = 0x0A" | "c \<noteq> 0x0D" "c \<noteq> 0x0A" "79 \<le> li" | "c \<noteq> 0x0D" "c \<noteq> 0x0A" "\<not> 79 \<le> li" by blast
  then show ?case
  proof cases
    case 1
    show ?thesis using Cons.IH [OF B] by (simp add: 1 lines_from_simps(2))
  next
    case 2
    have "text_loop act cs (b, 0) s' = for_each act' (lines_from [] cs) s'" for s'
      using Cons.IH [of b 0 "[]" s'] b(3) by simp
    then show ?thesis using b(1) a by (cases "act' p s") (simp_all add: 2 lines_from_simps(3) [OF p79])
  next
    case 3
    have l: "length p = 79" using B(2,3) 3(3) by simp
    obtain b2 where b2: "put b 0 c = Some b2" "length b2 = 80" "take 1 b2 = [c]"
      using put_take [of b 80 0 "[]" c] b(3) by auto
    then have "text_loop act cs (b2, 1) s' = for_each act' (lines_from [c] cs) s'" for s'
      using Cons.IH [of b2 1 "[c]" s'] by simp
    then show ?thesis using 3 b(1) b2(1) a by (cases "act' p s") (simp_all add: lines_from_wrap [OF l 3(2,1)])
  next
    case 4
    obtain b1 where b1: "put buf li c = Some b1" "length b1 = 80" "take (Suc li) b1 = p @ [c]"
      using put_take [OF B(1,3,4) B(2) [symmetric]] by blast
    have "li + 1 = length (p @ [c])" "li + 1 < 80" "take (li + 1) b1 = p @ [c]" using B(2,3) b1(3) 4(3) by simp_all
    from Cons.IH [OF b1(2) this] have "text_loop act cs (b1, li + 1) s = for_each act' (lines_from (p @ [c]) cs) s" .
    moreover have "lines_from p (c # cs) = lines_from (p @ [c]) cs" using 4 by (simp add: lines_from_def)
    ultimately show ?thesis using 4 b1(1) by simp
  qed
qed

lemma file_lines_from: "file_lines data = lines_from [] data"
  by (simp add: file_lines_def lines_from_def)

lemma chunks_length: "l \<in> set (chunks s) \<Longrightarrow> length l \<le> 79"
proof (induction s rule: chunks.induct)
  case (1 s)
  then show ?case by (subst (asm) (2) chunks.simps) (auto split: if_splits)
qed

lemma file_lines_length: "l \<in> set (file_lines data) \<Longrightarrow> length l \<le> 79"
  by (auto simp: file_lines_def dest: chunks_length)

lemma line_in_c_string: "line_in l li b \<Longrightarrow> c_string b = Some (takeWhile (\<lambda>c. c \<noteq> 0) l)"
proof -
  assume a: "line_in l li b"
  then have l: "li < length b" "take li b = l" "b ! li = 0" by (auto simp: line_in_def)
  then have e: "b = l @ 0 # drop (Suc li) b" using id_take_nth_drop [OF l(1)] by simp
  have "0 \<in> set b" using nth_mem [OF l(1)] l(3) by simp
  note e = e this
  have "takeWhile (\<lambda>c. c \<noteq> 0) (l @ 0 # xs) = takeWhile (\<lambda>c. c \<noteq> 0) l" for xs
    by (induction l) auto
  then show ?thesis unfolding c_string_def using e by metis
qed

section \<open>Every command stays inside its buffers\<close>

text \<open>What holds of the kernel whenever a command runs, and what a command may change.\<close>

definition kernel_ok :: "kernel \<Rightarrow> bool" where
  "kernel_ok K \<longleftrightarrow> started (k_shell K) \<and> current (k_sched K) < length (tasks (k_sched K))
     \<and> (\<forall>t \<in> set (tasks (k_sched K)). 0 \<in> set (t_name t))"

definition shell_only :: "kernel \<Rightarrow> kernel \<Rightarrow> bool" where
  "shell_only K K' \<longleftrightarrow> (\<exists>S. started S \<and> current_terminal S = current_terminal (k_shell K) \<and> K' = K\<lparr>k_shell := S\<rparr>)"

lemma started_scroll:
  "started S \<Longrightarrow> \<forall>l \<in> set ls. line_fits l \<Longrightarrow> started (shell_scroll ls S)"
  using terminal.scroll_ok [of S ls] by (simp add: started_def shell_scroll_def)

lemma shell_scroll_current: "current_terminal (shell_scroll ls S) = current_terminal S"
  by (simp add: shell_scroll_def)

lemma shell_only_scroll:
  "kernel_ok K \<Longrightarrow> \<forall>l \<in> set ls. line_fits l \<Longrightarrow> shell_only K (scroll_kernel ls K)"
  unfolding shell_only_def kernel_ok_def
  by (intro exI [of _ "shell_scroll ls (k_shell K)"]) (simp add: started_scroll scroll_kernel_def shell_scroll_current)

lemma report_safe:
  assumes "kernel_ok K" "\<forall>x \<in> set items. item_ok n x"
  shows "\<exists>K'. report E n items K = Some K' \<and> shell_only K K'"
proof -
  have "shell_ok (k_shell K)" using assms(1) by (simp add: kernel_ok_def started_def)
  from report_prints [OF this assms(2), of E] shell_only_scroll [OF assms(1)] assms(2) item_fits
  show ?thesis by auto
qed

lemma Print_safe: "kernel_ok K \<Longrightarrow> line_fits s \<Longrightarrow> \<exists>K'. Print s K = Some K' \<and> shell_only K K'"
  using shell_only_scroll [of K "[s]"] by (simp add: Print_line kernel_ok_def started_def)

lemma pieces_raws:
  "pieces_ok n p (map Raw cs @ xs) \<longleftrightarrow> 0 \<notin> set cs \<and> (cs \<noteq> [] \<longrightarrow> length p + length cs < n) \<and> pieces_ok n (p @ cs) xs"
proof (induction cs arbitrary: p)
  case (Cons c cs)
  then show ?case by (cases "cs = []") auto
qed simp

lemma hex_text_length: "length (hex_text v) \<le> 10"
  using hexa_length [of "unat v" 8] unat_u32_less [of v] by (simp add: hex_text_def)

definition dump_bytes :: "mem \<Rightarrow> u32 \<Rightarrow> nat \<Rightarrow> u8 list" where
  "dump_bytes m addr row =
     (let b = (\<lambda>col. m (addr + of_nat (row * 16 + col)))
      in concat (map (\<lambda>col. [digit_string ! (unat (b col) div 16), digit_string ! (unat (b col) mod 16), 0x20]
           @ (if col = 7 then [0x20] else [])) [0..<16])
         @ [0x20] @ map (\<lambda>col. dump_char (b col)) [0..<16])"

lemma dump_row_raws:
  "dump_row m addr row = [Hex (addr + of_nat (row * 16)), Str (str '':  '')] @ map Raw (dump_bytes m addr row) @ [Nul]"
proof -
  have n: "unat (drop_bit 4 b) = unat b div 16" "unat (b AND 0xF) = unat b mod 16" for b :: u8
  proof -
    show "unat (drop_bit 4 b) = unat b div 16" by (simp add: drop_bit_eq_div unat_div)
    have "b AND 0xF = take_bit 4 b" by (simp add: take_bit_eq_mask mask_eq_exp_minus_1)
    then show "unat (b AND 0xF) = unat b mod 16" by (simp add: take_bit_eq_mod unat_mod)
  qed
  have "dump_hex col b = map Raw ([digit_string ! (unat b div 16), digit_string ! (unat b mod 16), 0x20]
      @ (if col = 7 then [0x20] else []))" for col b
    by (simp add: dump_hex_def n)
  then show ?thesis unfolding dump_row_def dump_bytes_def Let_def map_append map_concat by (simp add: comp_def del: upt_rec_numeral)
qed

lemma length_dump_bytes: "length (dump_bytes m addr row) = 66"
  by (simp add: dump_bytes_def Let_def upt_rec)

lemma dump_bytes_nonzero: "0 \<notin> set (dump_bytes m addr row)"
proof -
  have c: "dump_char b \<noteq> 0" for b by (auto simp: dump_char_def)
  have d: "digit_string ! (unat b div 16) \<noteq> 0" "digit_string ! (unat b mod 16) \<noteq> 0" for b :: u8
  proof -
    have "unat b < 256" using unsigned_less [of b] by simp
    then show "digit_string ! (unat b div 16) \<noteq> 0" "digit_string ! (unat b mod 16) \<noteq> 0"
      by (intro digit_string_nonzero; simp)+
  qed
  show ?thesis unfolding dump_bytes_def Let_def using c d by (auto split: if_splits simp del: upt_rec_numeral)
qed

lemma dump_row_ok: "line_ok 80 (dump_row m addr row)"
proof -
  have "length (hex_text v) + 69 < 80" for v using hex_text_length [of v] by simp
  moreover have "take 79 (hex_text v) = hex_text v" for v using hex_text_length [of v] by simp
  moreover have "take 79 (hex_text v @ [0x3A, 0x20, 0x20]) = hex_text v @ [0x3A, 0x20, 0x20]" for v
    using hex_text_length [of v] by simp
  ultimately show ?thesis
    unfolding dump_row_raws line_ok_def
    by (simp add: pieces_raws dump_bytes_nonzero length_dump_bytes)
qed

definition platform_ok :: "platform \<Rightarrow> bool" where
  "platform_ok E \<longleftrightarrow> length (build_stamp E) \<le> 67"

lemma chars_at_nonzero: "0 \<notin> set (chars_at m a n)"
  unfolding chars_at_def using set_takeWhileD by fastforce

lemma cstr_nonzero: "0 \<notin> set (takeWhile (\<lambda>c. c \<noteq> 0) s)"
  using set_takeWhileD by fastforce

text \<open>Pieces that are in order after any prefix.\<close>

fun safe_piece :: "nat \<Rightarrow> piece \<Rightarrow> bool" where
  "safe_piece n (Str s) \<longleftrightarrow> 0 \<notin> set s"
| "safe_piece n (Pad k) \<longleftrightarrow> 79 < n \<or> k < n"
| "safe_piece n (Raw c) \<longleftrightarrow> False"
| "safe_piece n Back \<longleftrightarrow> False"
| "safe_piece n _ \<longleftrightarrow> True"

lemma safe_pieces: "\<forall>x \<in> set ps. safe_piece n x \<Longrightarrow> pieces_ok n p ps"
proof (induction ps arbitrary: p)
  case (Cons x ps)
  then show ?case by (cases x) auto
qed simp

lemma safe_line:
  "0 < n \<Longrightarrow> \<forall>x \<in> set ps. safe_piece n x \<Longrightarrow> ps \<noteq> [] \<Longrightarrow> ends_string (last ps) \<Longrightarrow> line_ok n ps"
  by (simp add: line_ok_def safe_pieces)

lemma help_items_ok: "\<forall>x \<in> set help_items. item_ok 80 x"
proof -
  have "item_ok 80 (Buf [Str (str ''  ''), Str name, Pad 12, Str (str ''- ''), Str desc, Nul])"
    if "0 \<notin> set name" "0 \<notin> set desc" for name desc
    using that by (simp add: safe_line zero_in_str)
  moreover have "\<forall>(name, f, desc) \<in> set Table. 0 \<notin> set name \<and> 0 \<notin> set desc"
    by (simp add: Table_def zero_in_str)
  ultimately show ?thesis unfolding help_items_def by (auto simp: line_fits_short simp del: item_ok.simps(2))
qed

lemma ver_items_ok: "platform_ok E \<Longrightarrow> \<forall>x \<in> set (ver_items E). item_ok 0 x"
  by (simp add: ver_items_def platform_ok_def line_fits_short)

lemma mem_items_ok: "\<forall>x \<in> set (mem_items H B). item_ok 80 x"
  by (simp add: mem_items_def safe_line zero_in_str)

lemma pmm_items_ok: "\<forall>x \<in> set (pmm_items P). item_ok 80 x"
  by (simp add: pmm_items_def safe_line zero_in_str)

lemma paging_items_ok: "\<forall>x \<in> set (paging_items M P). item_ok 80 x"
  by (simp add: paging_items_def safe_line zero_in_str)

lemma uptime_items_ok: "\<forall>x \<in> set (uptime_items now). item_ok 80 x"
  by (simp add: uptime_items_def safe_line zero_in_str Let_def)

lemma cpuid_items_ok: "\<forall>x \<in> set (cpuid_items leaf). item_ok 80 x"
proof -
  obtain a b c d where l0: "leaf 0 = (a, b, c, d)" by (cases "leaf 0") auto
  obtain a1 b1 c1 d1 where l1: "leaf 1 = (a1, b1, c1, d1)" by (cases "leaf 1") auto
  show ?thesis unfolding cpuid_items_def l0 l1 Let_def prod.case
    by (simp add: safe_line zero_in_str cstr_nonzero)
qed

lemma ls_items_ok: "x \<in> set (ls_items m I) \<Longrightarrow> item_ok 80 x"
  by (auto simp: ls_items_def ls_entry_def safe_line zero_in_str chars_at_nonzero Let_def split: if_splits)

lemma cmd_peek_safe: "kernel_ok K \<Longrightarrow> \<exists>K'. cmd_peek E args K = Some K' \<and> shell_only K K'"
  unfolding cmd_peek_def Let_def
  by (cases "ParseHex args") (auto simp: safe_line zero_in_str line_fits_short intro!: report_safe)

lemma cmd_dumpmem_safe: "kernel_ok K \<Longrightarrow> \<exists>K'. cmd_dumpmem E args K = Some K' \<and> shell_only K K'"
  unfolding cmd_dumpmem_def
  by (cases "ParseHex args") (auto simp: dump_row_ok line_fits_short intro!: report_safe)

lemma cmd_ls_safe: "kernel_ok K \<Longrightarrow> \<exists>K'. cmd_ls E K = Some K' \<and> shell_only K K'"
  unfolding cmd_ls_def by (auto simp: line_fits_short ls_items_ok intro!: report_safe)

lemma marker_line:
  "s \<noteq> [] \<Longrightarrow> 0 \<notin> set s \<Longrightarrow> \<forall>x \<in> set ps. safe_piece 80 x \<Longrightarrow> ps \<noteq> [] \<Longrightarrow> ends_string (last ps) \<Longrightarrow>
     line_ok 80 (Str s # Back # ps)"
  by (simp add: line_ok_def safe_pieces)

lemma task_item_ok:
  assumes "0 \<in> set (t_name t)" shows "\<exists>x. task_item S t = Some x \<and> item_ok 80 x"
proof -
  have st: "0 \<notin> set (state_text (t_state t))" by (cases "t_state t") (simp_all add: zero_in_str)
  have c: "c_string (t_name t) = Some (takeWhile (\<lambda>c. c \<noteq> 0) (t_name t))" using assms by (simp add: c_string_def)
  show ?thesis unfolding task_item_def c Option.bind.simps
    using st cstr_nonzero [of "t_name t"] by (simp add: marker_line zero_in_str)
qed

lemma task_rows_ok:
  assumes "\<forall>t \<in> set ts. 0 \<in> set (t_name t)"
  shows "\<exists>xs. task_rows S ts = Some xs \<and> (\<forall>x \<in> set xs. item_ok 80 x)"
  using assms
proof (induction ts)
  case (Cons t ts)
  from Cons.prems task_item_ok [of t S] obtain x where x: "task_item S t = Some x" "item_ok 80 x" by auto
  from Cons obtain xs where xs: "task_rows S ts = Some xs" "\<forall>x \<in> set xs. item_ok 80 x" by auto
  from x xs show ?case by simp
qed simp

lemma current_name_nul: "kernel_ok K \<Longrightarrow> 0 \<in> set (CurrentName (k_sched K))"
  by (auto simp: CurrentName_def kernel_ok_def)

lemma cmd_tasks_safe:
  assumes "kernel_ok K" shows "\<exists>K'. cmd_tasks E K = Some K' \<and> shell_only K K'"
proof -
  from assms task_rows_ok [of "tasks (k_sched K)" "k_sched K"] obtain xs where
    xs: "task_rows (k_sched K) (tasks (k_sched K)) = Some xs" "\<forall>x \<in> set xs. item_ok 80 x"
    by (auto simp: kernel_ok_def)
  have n: "c_string (CurrentName (k_sched K)) = Some (takeWhile (\<lambda>c. c \<noteq> 0) (CurrentName (k_sched K)))"
    using current_name_nul [OF assms] by (simp add: c_string_def)
  show ?thesis unfolding cmd_tasks_def xs(1) n Option.bind.simps
    by (rule report_safe [OF assms]) (use xs(2) in \<open>auto simp: safe_line zero_in_str cstr_nonzero\<close>)
qed

definition print_cstr :: "u8 list \<Rightarrow> kernel \<Rightarrow> kernel option" where
  "print_cstr l = Print (takeWhile (\<lambda>c. c \<noteq> 0) l)"

lemma cat_loop:
  "text_loop cat_line data (fresh E 80, 0) K = for_each print_cstr (file_lines data) K"
  unfolding file_lines_from
  by (rule text_loop_lines) (simp_all add: cat_line_def line_in_c_string print_cstr_def)

lemma for_each_map: "for_each (\<lambda>l. f (g l)) ls s = for_each f (map g ls) s"
proof (induction ls arbitrary: s)
  case (Cons l ls)
  then show ?case by (cases "f (g l) s") simp_all
qed simp

lemma print_file:
  assumes "shell_ok (k_shell K)" "\<forall>l \<in> set ls. length l \<le> 79"
  shows "for_each print_cstr ls K = Some (scroll_kernel (map (takeWhile (\<lambda>c. c \<noteq> 0)) ls) K)"
proof -
  have "\<forall>l \<in> set (map (takeWhile (\<lambda>c. c \<noteq> 0)) ls). line_fits l"
    using assms(2) length_takeWhile_le le_trans by (fastforce intro!: line_fits_short)
  from console.print_all [OF assms(1) this] for_each_map [of Print "takeWhile (\<lambda>c. c \<noteq> 0)" ls K]
  show ?thesis by (simp add: print_cstr_def [abs_def])
qed

lemma cmd_cat_safe: 
  assumes "kernel_ok K" "0 \<notin> set args"
  shows "\<exists>K'. cmd_cat E args K = Some K' \<and> shell_only K K'"
proof -
  have "\<exists>K'. for_each print_cstr (file_lines d) K = Some K' \<and> shell_only K K'" for d
  proof -
    have l: "\<forall>l \<in> set (file_lines d). length l \<le> 79" using file_lines_length by blast
    have "\<forall>l \<in> set (map (takeWhile (\<lambda>c. c \<noteq> 0)) (file_lines d)). line_fits l"
      using l length_takeWhile_le le_trans by (fastforce intro!: line_fits_short)
    with shell_only_scroll [OF assms(1)] print_file [OF _ l] assms(1) show ?thesis
      by (auto simp: kernel_ok_def started_def)
  qed
  moreover have "\<exists>K'. report E 0 [Lit s] K = Some K' \<and> shell_only K K'" if "length s \<le> 79" for s
    using that by (intro report_safe [OF assms(1)]) (simp add: line_fits_short)
  moreover have "\<exists>K'. report E 80 [Buf [Str (str ''cat: file not found: ''), Str args]] K = Some K' \<and> shell_only K K'"
    using assms(2) by (intro report_safe [OF assms(1)]) (simp add: safe_line zero_in_str)
  ultimately show ?thesis unfolding cmd_cat_def Let_def cat_loop by (simp split: if_splits)
qed

end
