(* ===== verification/Commands_Correct.thy ===== *)
theory Commands_Correct
  imports Commands_Contract
begin

text \<open>
  The properties of the commands: dispatch is a lookup, no command line makes a command leave its
  buffers or touch more of the kernel than its console, and what the commands print.
\<close>

unbundle bit_operations_syntax

section \<open>The commands that act\<close>

lemma ClearTerminal_ok:
  assumes "started S"
  shows "\<exists>S'. ClearTerminal (current_terminal S) S = Some S' \<and> started S' \<and> current_terminal S' = current_terminal S
    \<and> content S' = replicate 1760 (blank_cell S)"
proof -
  have g: "shell_geo S" using assms by (simp add: started_def shell_ok_def)
  let ?t = "current_terminal S" and ?b = "blank_cell S"
  have t: "?t < length (terminal_screens S)" "length (terminal_screens S ! ?t) = 3000"
    using g by (auto simp: shell_geo_def)
  let ?xs = "take 160 (terminal_screens S ! ?t) @ replicate 1760 ?b @ drop 1920 (terminal_screens S ! ?t)"
  let ?S = "S\<lparr>terminal_screens := (terminal_screens S)[?t := ?xs], content_current_x := 0, content_current_y := 0\<rparr>"
  have st: "ClearTerminal ?t S = Some ?S"
    using fill_terminal [OF t, of 1760 ?b] shell_geo_sel(1) [OF g]
    by (simp add: ClearTerminal_def Let_def blank_cell_def del: upt_rec_numeral)
  have b: "blank_cell ?S = ?b" by (simp add: blank_cell_def)
  have r: "take 80 (drop 1840 ?xs) = replicate 80 ?b"
    using t(2) drop_replicate [of 1680 1760 ?b] by simp
  have "last_row_blank ?S u" if u: "u \<in> {1..5}" for u
  proof (cases "u = ?t")
    case True
    then show ?thesis using t(1) r by (simp add: last_row_blank_def b)
  next
    case False
    then show ?thesis using assms u by (simp add: started_def shell_ok_def last_row_blank_def b)
  qed
  moreover have "shell_geo ?S"
    using g t set_update_subset_insert [of "terminal_screens S" ?t ?xs]
    by (auto simp: shell_geo_def dest!: subsetD [OF set_update_subset_insert])
  moreover have "content ?S = replicate 1760 ?b" using t by (simp add: content_def the_term_def)
  ultimately show ?thesis using assms st by (auto simp: started_def shell_ok_def)
qed

lemma cmd_clear_safe: "kernel_ok K \<Longrightarrow> \<exists>K'. cmd_clear K = Some K' \<and> shell_only K K'"
  using ClearTerminal_ok [of "k_shell K"] unfolding cmd_clear_def kernel_ok_def shell_only_def by auto

text \<open>The keyboard controller after \<open>n\<close> reads of its status port; it is free when bit 1 is clear.\<close>

definition polled :: "nat \<Rightarrow> mach \<Rightarrow> mach" where
  "polled n M = ((\<lambda>M. snd (inb 0x64 M)) ^^ n) M"

definition kbc_free :: "mach \<Rightarrow> bool" where
  "kbc_free M \<longleftrightarrow> fst (inb 0x64 M) AND 0x02 = 0"

lemma polled_0 [simp]: "polled 0 M = M" and polled_Suc: "polled (Suc n) M = polled n (snd (inb 0x64 M))"
  by (simp_all add: polled_def funpow_Suc_right del: funpow.simps(2))

lemma kbc_wait_free: "kbc_free (polled n M) \<Longrightarrow> \<exists>k. kbc_wait M = Some (polled (Suc k) M)"
proof (induction n arbitrary: M)
  case 0
  then show ?case by (subst kbc_wait.simps) (auto simp: kbc_free_def inb_def polled_Suc Let_def intro!: exI [of _ 0])
next
  case (Suc n)
  show ?case
  proof (cases "kbc_free M")
    case True
    then show ?thesis
      by (subst kbc_wait.simps) (auto simp: kbc_free_def inb_def polled_Suc Let_def intro!: exI [of _ 0])
  next
    case False
    from Suc.prems Suc.IH [of "snd (inb 0x64 M)"] obtain k where
      "kbc_wait (snd (inb 0x64 M)) = Some (polled (Suc (Suc k)) M)" by (auto simp: polled_Suc)
    with False show ?thesis
      by (subst kbc_wait.simps) (auto simp: kbc_free_def inb_def Let_def intro!: exI [of _ "Suc k"])
  qed
qed

text \<open>
  How a command may end: it returns with only the console changed, or it stops the processor with
  interrupts off, raises the breakpoint exception, or pulses the reset line after polling.
\<close>

fun ends_safely :: "kernel \<Rightarrow> outcome \<Rightarrow> bool" where
  "ends_safely K (Returned K') \<longleftrightarrow> shell_only K K'"
| "ends_safely K (Stopped K') \<longleftrightarrow> (\<exists>K1. shell_only K K1 \<and> K' = K1\<lparr>k_mach := (k_mach K)\<lparr>if_flag := False\<rparr>\<rparr>)"
| "ends_safely K (Trapped v K') \<longleftrightarrow> v = 3 \<and> shell_only K K'"
| "ends_safely K (Reset K') \<longleftrightarrow> (\<exists>K1 n. shell_only K K1 \<and> K' = K1\<lparr>k_mach := outb 0x64 0xFE (polled n (k_mach K))\<rparr>)"

lemma shell_only_mach: "shell_only K K' \<Longrightarrow> k_mach K' = k_mach K"
  by (auto simp: shell_only_def)

lemma halting_safe:
  assumes "kernel_ok K"
  shows "\<exists>out. cmd_halt K = Some out \<and> ends_safely K out" "\<exists>out. cmd_panic K = Some out \<and> ends_safely K out"
    "kbc_free (polled n (k_mach K)) \<Longrightarrow> \<exists>out. cmd_reboot K = Some out \<and> ends_safely K out"
proof -
  have p: "\<exists>K'. Print s K = Some K' \<and> shell_only K K' \<and> k_mach K' = k_mach K" if "length s \<le> 79" for s
    using Print_safe [OF assms line_fits_short [OF that]] shell_only_mach by blast
  from p [of "str ''Halting CPU. Reset the machine to continue.''"]
  show "\<exists>out. cmd_halt K = Some out \<and> ends_safely K out" by (force simp: cmd_halt_def)
  from p [of "str ''Triggering test panic via INT3 (breakpoint)...''"]
  show "\<exists>out. cmd_panic K = Some out \<and> ends_safely K out" by (auto simp: cmd_panic_def)
  assume "kbc_free (polled n (k_mach K))"
  then obtain k where "kbc_wait (k_mach K) = Some (polled (Suc k) (k_mach K))" using kbc_wait_free by blast
  with p [of "str ''Rebooting...''"]
  show "\<exists>out. cmd_reboot K = Some out \<and> ends_safely K out" by (force simp: cmd_reboot_def)
qed

lemma run_builtin_safe:
  assumes "kernel_ok K" "platform_ok E" "0 \<notin> set args" "length args \<le> 79" "kbc_free (polled n (k_mach K))"
  shows "\<exists>out. run_builtin E f args K = Some out \<and> ends_safely K out"
proof (cases f)
  case Cmd_tasks with cmd_tasks_safe [OF assms(1), of E] show ?thesis by auto
next
  case Cmd_ls with cmd_ls_safe [OF assms(1), of E] show ?thesis by auto
next
  case Cmd_cat with cmd_cat_safe [OF assms(1,3), of E] show ?thesis by auto
next
  case Cmd_peek with cmd_peek_safe [OF assms(1), of E args] show ?thesis by auto
next
  case Cmd_dumpmem with cmd_dumpmem_safe [OF assms(1), of E args] show ?thesis by auto
next
  case Cmd_ticks
  have "\<forall>x \<in> set [Buf [Str (str ''ticks = ''), Num (ticks (k_timer K))]]. item_ok 64 x"
    by (simp add: safe_line zero_in_str)
  from report_safe [OF assms(1) this, of E] show ?thesis by (auto simp: Cmd_ticks cmd_ticks_def)
next
  case Cmd_clear with cmd_clear_safe [OF assms(1)] show ?thesis by auto
next
  case Cmd_echo
  then show ?thesis using Print_safe [OF assms(1) line_fits_short [OF assms(4)]] by (cases args) (auto simp: cmd_echo_def)
next
  case Cmd_help with report_safe [OF assms(1) help_items_ok, of E] show ?thesis by (auto simp: cmd_help_def)
next
  case Cmd_ver with report_safe [OF assms(1) ver_items_ok [OF assms(2)], of E] show ?thesis by (auto simp: cmd_ver_def)
next
  case Cmd_mem with report_safe [OF assms(1) mem_items_ok [of "k_heap K" "k_multiboot K"], of E] show ?thesis by (auto simp: cmd_mem_def)
next
  case Cmd_pmm with report_safe [OF assms(1) pmm_items_ok [of "k_pmm K"], of E] show ?thesis by (auto simp: cmd_pmm_def)
next
  case Cmd_paging with report_safe [OF assms(1) paging_items_ok [of "k_mach K" "k_paging K"], of E] show ?thesis by (auto simp: cmd_paging_def)
next
  case Cmd_uptime with report_safe [OF assms(1) uptime_items_ok [of "ticks (k_timer K)"], of E] show ?thesis by (auto simp: cmd_uptime_def)
next
  case Cmd_date with report_safe [OF assms(1) uptime_items_ok [of "ticks (k_timer K)"], of E] show ?thesis
    by (auto simp: cmd_date_def cmd_uptime_def)
next
  case Cmd_cpuid with report_safe [OF assms(1) cpuid_items_ok [of "cpuid E"], of E] show ?thesis by (auto simp: cmd_cpuid_def)
next
  case Cmd_halt with halting_safe(1) [OF assms(1)] show ?thesis by simp
next
  case Cmd_panic with halting_safe(2) [OF assms(1)] show ?thesis by simp
next
  case Cmd_reboot with halting_safe(3) [OF assms(1,5)] show ?thesis by simp
qed

lemma report_returns:
  "kernel_ok K \<Longrightarrow> \<forall>x \<in> set items. item_ok n x \<Longrightarrow>
    \<exists>out. map_option Returned (report E n items K) = Some out \<and> ends_safely K out"
  using report_safe [of K items n E] by auto

lemma skip_blanks_length: "length (skip_blanks s) \<le> length s"
  by (simp add: skip_blanks_def length_dropWhile_le)

lemma Dispatch_safe:
  assumes "kernel_ok K" "platform_ok E" "0 \<notin> set l" "length l \<le> 79" "kbc_free (polled n (k_mach K))"
  shows "\<exists>out. Dispatch E l K = Some out \<and> ends_safely K out"
proof -
  let ?s = "skip_blanks l"
  let ?w = "first_word ?s"
  let ?args = "skip_blanks (drop (length ?w) ?s)"
  have s: "0 \<notin> set ?s" "length ?s \<le> 79" using skip_blanks_zero [OF assms(3)] skip_blanks_length [of l] assms(4) by simp_all
  then have "0 \<notin> set (drop (length ?w) ?s)" by (meson in_set_dropD)
  then have a: "0 \<notin> set ?args" "length ?args \<le> 79"
    using skip_blanks_zero skip_blanks_length [of "drop (length ?w) ?s"] s(2) by auto
  have w: "0 \<notin> set ?w" using s(1) unfolding first_word_def by (meson in_set_takeD set_takeWhileD)
  have "\<exists>out. lookup_word E ?w ?args K = Some out \<and> ends_safely K out"
  proof (cases "map_of Table ?w")
    case None
    have "\<forall>x \<in> set [Buf [Str (str ''shiro: command not found: ''), Str ?w]]. item_ok 80 x"
      using w by (simp add: safe_line zero_in_str)
    from report_returns [OF assms(1) this] None show ?thesis by (simp add: lookup_word_def)
  next
    case (Some fd)
    with run_builtin_safe [OF assms(1,2) a assms(5)] show ?thesis by (cases fd) (simp add: lookup_word_def)
  qed
  then show ?thesis using assms(1) unfolding Dispatch_spec [OF assms(3)] dispatch_spec_def Let_def
    by (auto simp: shell_only_def kernel_ok_def intro!: exI [of _ "k_shell K"])
qed

section \<open>Files\<close>

text \<open>The string of \<open>n\<close> characters at \<open>arg_at\<close> does not overlap the \<open>l\<close> bytes from \<open>b\<close> on.\<close>

definition arg_apart :: "platform \<Rightarrow> nat \<Rightarrow> u32 \<Rightarrow> nat \<Rightarrow> bool" where
  "arg_apart E n b l \<longleftrightarrow> unat (arg_at E) + n + 1 \<le> 2 ^ 32
     \<and> (unat (arg_at E) + n + 1 \<le> unat b \<or> unat b + l \<le> unat (arg_at E))"

lemma file_found:
  assumes m: "mounted (ram (k_mach K)) b (xs @ (n, p) # ys) (k_initrd K)"
    and room: "unat b + length (ird_image (xs @ (n, p) # ys)) < 2 ^ 32"
    and first: "file_name (n, p) \<notin> file_name ` set xs"
    and arg: "arg_apart E (length (file_name (n, p))) b (length (ird_image (xs @ (n, p) # ys)))"
  defines "e \<equiv> find_file E (file_name (n, p)) K" and "r \<equiv> ram (k_mach K)"
  shows "e \<noteq> 0" "Initrd_Data r e (k_initrd K) \<noteq> 0" "data_at r (Initrd_Data r e (k_initrd K)) (entry_size r e) = p"
proof -
  let ?fs = "xs @ (n, p) # ys" and ?s = "file_name (n, p) @ [0]" and ?q = "arg_at E"
  let ?r = "poke_bytes ?q ?s r"
  note lim = room [unfolded length_image]
  have "?r (b + of_nat i) = r (b + of_nat i)" if "i < length (ird_image ?fs)" for i
  proof (rule poke_bytes_other)
    have "unat (b + of_nat i) = unat b + i"
      using that room by (subst unat_add_lem [THEN iffD1]) (simp_all add: length_image)
    with that arg show "unat (b + of_nat i) < unat ?q \<or> unat ?q + length ?s \<le> unat (b + of_nat i)"
      by (auto simp: arg_apart_def)
  qed (use arg in \<open>simp add: arg_apart_def\<close>)
  then have "bytes_at ?r b (ird_image ?fs) = bytes_at r b (ird_image ?fs)" by (rule bytes_at_cong)
  with m have "mounted ?r b ?fs (k_initrd K)" by (simp add: mounted_def r_def)
  moreover have z: "0 \<notin> set n" using m by (auto simp: mounted_def)
  have "length ?s < 2 ^ 32" by (simp add: file_name_def)
  then have "bytes_at ?r ?q ?s" by (rule bytes_at_poke_bytes)
  then have "cstr_at ?r ?q (file_name (n, p))"
    using z by (auto simp: cstr_at_def file_name_def dest: in_set_takeD)
  ultimately have e: "e = entry_addr b (length xs)"
    unfolding e_def find_file_def r_def [symmetric] by (rule Initrd_Find_first [OF _ _ first])
  show e0: "e \<noteq> 0" using entry_addr_nonzero [OF m] e by simp
  have im: "bytes_at r b (ird_image ?fs)" using m by (simp add: mounted_def r_def)
  note f = ird_image_file [OF im]
  let ?off = "8 + length ?fs * 40 + length (concat (map snd xs))"
  have d: "Initrd_Data r e (k_initrd K) = b + of_nat ?off"
    using e0 m f(3) by (simp add: Initrd_Data_def mounted_def e)
  have "unat b + ?off < 2 ^ 32" using lim by simp
  then have "unat (b + of_nat ?off) = unat b + ?off" by (subst unat_add_lem [THEN iffD1]) (simp_all del: of_nat_add)
  then show "Initrd_Data r e (k_initrd K) \<noteq> 0" unfolding d by (auto simp del: of_nat_add)
  have l: "unat (entry_size r e) = length p" using lim f(2) by (simp add: e)
  show "data_at r (Initrd_Data r e (k_initrd K)) (entry_size r e) = p"
    using f(4) unfolding d data_at_def l by (intro nth_equalityI) (simp_all add: bytes_at_def del: of_nat_add)
qed

section \<open>Texts\<close>

text \<open>A line whose pieces are not cut short is the concatenation of their texts.\<close>

fun plain_text :: "piece \<Rightarrow> u8 list" where
  "plain_text (Str s) = s"
| "plain_text (Num v) = dec (unat v)"
| "plain_text (Hex v) = hex_text v"
| "plain_text (Raw c) = [c]"
| "plain_text _ = []"

lemma hex_text_min: "3 \<le> length (hex_text v)"
  using hexa_ne [of "unat v"] by (cases "hexa (unat v)") (auto simp: hex_text_def)

lemma plain_line:
  assumes "\<forall>x \<in> set ps. x = Nul \<or> plain_text x \<noteq> [] \<or> (\<exists>s. x = Str s)"
    "length (p @ concat (map plain_text ps)) < n"
  shows "foldl (piece_text n) p ps = p @ concat (map plain_text ps)"
  using assms
proof (induction ps arbitrary: p)
  case (Cons x ps)
  have "piece_text n p x = p @ plain_text x"
  proof (cases x)
    case (Hex v)
    then show ?thesis using Cons.prems hex_text_min [of v] by simp
  qed (use Cons.prems in auto)
  with Cons show ?case by simp
qed simp

fun plain_piece :: "piece \<Rightarrow> bool" where
  "plain_piece (Str s) \<longleftrightarrow> 0 \<notin> set s"
| "plain_piece (Raw c) \<longleftrightarrow> c \<noteq> 0"
| "plain_piece (Pad k) \<longleftrightarrow> False"
| "plain_piece Back \<longleftrightarrow> False"
| "plain_piece _ \<longleftrightarrow> True"

lemma plain_pieces_ok:
  "\<forall>x \<in> set ps. plain_piece x \<Longrightarrow> length (p @ concat (map plain_text ps)) < n \<Longrightarrow> pieces_ok n p ps"
proof (induction ps arbitrary: p)
  case (Cons x ps)
  have "piece_text n p x = p @ plain_text x"
  proof (cases x)
    case (Hex v)
    have "4 \<le> n - length p" using Hex Cons.prems(2) hex_text_min [of v] by simp
    then show ?thesis using Hex Cons.prems(2) by simp
  qed (use Cons.prems in auto)
  with Cons show ?case by (cases x) auto
qed simp

lemma text_of_plain:
  assumes "\<forall>x \<in> set ps. x = Nul \<or> plain_text x \<noteq> [] \<or> (\<exists>s. x = Str s)" "length (concat (map plain_text ps)) < n"
  shows "text_of n ps = concat (map plain_text ps)"
  using plain_line [of ps "[]" n] assms by (simp add: text_of_def)

lemma dec_ne [simp]: "dec n \<noteq> []" and hex_text_ne [simp]: "hex_text v \<noteq> []"
  by (subst dec.simps) (simp_all add: hex_text_def)

lemma report_lines:
  assumes "kernel_ok K" "\<forall>x \<in> set items. item_ok n x"
  shows "report E n items K = Some (scroll_kernel (map (item_text n) items) K)"
  using report_prints [of K items n E] assms by (simp add: kernel_ok_def started_def)

lemma peek_text:
  assumes "kernel_ok K" "ParseHex args = Some a"
  shows "cmd_peek E args K = Some (scroll_kernel [str ''['' @ hex_text (a AND NOT 3) @ str ''] = ''
     @ hex_text (load32 (ram (k_mach K)) (a AND NOT 3))] K)"
proof -
  let ?a = "a AND NOT 3" and ?v = "load32 (ram (k_mach K)) (a AND NOT 3)"
  let ?ps = "[Str (str ''[''), Hex ?a, Str (str ''] = ''), Hex ?v]"
  have "text_of 80 ?ps = concat (map plain_text ?ps)"
    by (rule text_of_plain) (use hex_text_length [of ?a] hex_text_length [of ?v] in auto)
  moreover have "\<forall>x \<in> set [Buf ?ps]. item_ok 80 x" by (simp add: safe_line zero_in_str)
  ultimately show ?thesis using report_lines [OF assms(1), of "[Buf ?ps]" 80 E] assms(2)
    by (simp add: cmd_peek_def Let_def)
qed

definition dump_text :: "mem \<Rightarrow> u32 \<Rightarrow> nat \<Rightarrow> u8 list" where
  "dump_text m addr row = hex_text (addr + of_nat (row * 16)) @ str '':  '' @ dump_bytes m addr row"

lemma dump_row_text: "text_of 80 (dump_row m addr row) = dump_text m addr row"
proof -
  let ?v = "addr + of_nat (row * 16)"
  have raws: "foldl (piece_text 80) q (map Raw cs) = q @ cs" for q cs by (induction cs arbitrary: q) auto
  have "foldl (piece_text 80) [] [Hex ?v, Str (str '':  '')] = hex_text ?v @ str '':  ''"
    using plain_line [of "[Hex ?v, Str (str '':  '')]" "[]" 80] hex_text_length [of ?v] by simp
  then show ?thesis by (simp only: text_of_def dump_row_raws foldl_append raws) (simp add: dump_text_def)
qed

lemma dumpmem_text:
  assumes "kernel_ok K" "ParseHex args = Some a"
  shows "cmd_dumpmem E args K = Some (scroll_kernel (map (dump_text (ram (k_mach K)) (a AND NOT 0xF)) [0..<4]) K)"
proof -
  let ?items = "map (\<lambda>row. Buf (dump_row (ram (k_mach K)) (a AND NOT 0xF) row)) [0..<4]"
  have "\<forall>x \<in> set ?items. item_ok 80 x" by (auto simp: dump_row_ok)
  from report_lines [OF assms(1) this, of E] assms(2) show ?thesis
    by (simp add: cmd_dumpmem_def comp_def dump_row_text del: upt_rec_numeral)
qed

definition uptime_text :: "u32 \<Rightarrow> u8 list" where
  "uptime_text now = (let t = unat now div 100 in
     str ''uptime: '' @ dec (t div 3600) @ str ''h '' @ dec (t div 60 mod 60) @ str ''m '' @ dec (t mod 60)
       @ str ''s  ('' @ dec (unat now) @ str '' ticks @ 100 Hz)'')"

lemma dec_100: "dec 100 = str ''100''"
  by (simp add: dec.simps)

lemma uptime_prints:
  assumes "kernel_ok K"
  shows "cmd_uptime E K = Some (scroll_kernel [uptime_text (ticks (k_timer K))] K)"
proof -
  define now where "now = ticks (k_timer K)"
  let ?t = "now div 100"
  have u: "unat (?t div 3600) = unat now div 100 div 3600" "unat ((?t mod 3600) div 60) = unat now div 100 div 60 mod 60"
    "unat (?t mod 60) = unat now div 100 mod 60"
  proof -
    have "x mod 3600 div 60 = x div 60 mod 60" for x :: nat
      using mod_mult2_eq [of x 60 60] by simp
    then show "unat (?t div 3600) = unat now div 100 div 3600"
      "unat ((?t mod 3600) div 60) = unat now div 100 div 60 mod 60" "unat (?t mod 60) = unat now div 100 mod 60"
      by (simp_all add: unat_div unat_mod)
  qed
  let ?ps = "[Str (str ''uptime: ''), Num (?t div 3600), Str (str ''h ''), Num ((?t mod 3600) div 60),
    Str (str ''m ''), Num (?t mod 60), Str (str ''s  (''), Num now, Str (str '' ticks @ ''), Num 100, Str (str '' Hz)'')]"
  have "length (dec (unat v)) \<le> 10" for v :: u32 by (rule dec_u32_length)
  from this [of "?t div 3600"] this [of "(?t mod 3600) div 60"] this [of "?t mod 60"] this [of now] this [of 100]
  have "text_of 80 ?ps = concat (map plain_text ?ps)" by (intro text_of_plain) auto
  also have "\<dots> = uptime_text now" by (simp add: uptime_text_def Let_def u dec_100)
  finally show ?thesis
    using report_lines [OF assms uptime_items_ok [of now], of E]
    by (simp add: cmd_uptime_def uptime_items_def Let_def TICK_HZ_def now_def)
qed

lemma cat_text:
  assumes "kernel_ok K" "find_file E name K \<noteq> 0" "name \<noteq> []" "ird_ready (k_initrd K)"
    "Initrd_Data (ram (k_mach K)) (find_file E name K) (k_initrd K) \<noteq> 0"
    "data_at (ram (k_mach K)) (Initrd_Data (ram (k_mach K)) (find_file E name K) (k_initrd K))
       (entry_size (ram (k_mach K)) (find_file E name K)) = p"
  shows "cmd_cat E name K = Some (scroll_kernel (map (takeWhile (\<lambda>c. c \<noteq> 0)) (file_lines p)) K)"
proof -
  have "\<forall>l \<in> set (file_lines p). length l \<le> 79" using file_lines_length by blast
  with assms print_file [of K "file_lines p"] show ?thesis
    by (simp add: cmd_cat_def Let_def cat_loop kernel_ok_def started_def)
qed

section \<open>A kernel to try the properties on\<close>

definition demo_files :: "rdfile list" where
  "demo_files = [(str ''motd'', str ''hello'' @ [0x0D, 0x0A] @ str ''world''),
     (str ''init.sh'', str ''# boot'' @ [0x0A] @ str ''ver'' @ [0x0A, 0x0A] @ str ''ticks'')]"

definition demo_kernel :: "shell \<Rightarrow> kernel" where
  "demo_kernel S = \<lparr>k_mach = blank\<lparr>ram := poke_bytes 0x200000 (ird_image demo_files) (\<lambda>_. 0)\<rparr>, k_heap = heap0, k_pmm = pmm0,
     k_multiboot = \<lparr>mb_valid = False, mem_lower = 0, mem_upper = 0, cmdline = 0, mmap_count = 0,
       mmap_total_available = 0, fb_addr = 0, fb_width = 0, fb_height = 0, fb_bpp = 0, fb_type = 0\<rparr>,
     k_initrd = \<lparr>ird_base = 0x200000, ird_length = 117, file_count = 2, ird_entries = 0x200008, ird_ready = True\<rparr>,
     k_paging = paging0, k_gdt = \<lparr>gdt_entries = replicate 5 gdt_null, gdt_ptr_limit = 0, gdt_ptr_base = 0\<rparr>,
     k_idt = \<lparr>idt_entries = replicate 256 idt_null, idt_ptr_limit = 0, idt_ptr_base = 0\<rparr>, k_timer = timer0\<lparr>ticks := 366542\<rparr>, k_sched = sched0, k_shell = S, k_kbd = keyboard0\<rparr>"

definition demo_platform :: platform where
  "demo_platform = \<lparr>stack_byte = (\<lambda>i. of_nat (i + 7)), arg_at = 0x9000, build_stamp = str ''Jan  1 2026 00:00:00'',
     cpuid = (\<lambda>leaf. (leaf, 0x756E6547, 0x6C65746E, 0x49656E69))\<rparr>"

lemma demo_kernel_ok: "started S \<Longrightarrow> kernel_ok (demo_kernel S)" "platform_ok demo_platform"
  "kbc_free (polled 0 (k_mach (demo_kernel S)))"
  by (simp_all add: kernel_ok_def demo_kernel_def sched0_def blank_task_def platform_ok_def demo_platform_def
      kbc_free_def inb_def blank_def Let_def)

lemma demo_length: "length (ird_image demo_files) = 117"
  by (simp add: length_image demo_files_def)

lemma demo_mounted: "mounted (ram (k_mach (demo_kernel S))) 0x200000 demo_files (k_initrd (demo_kernel S))"
  using bytes_at_poke_bytes [of "ird_image demo_files" "0x200000" "\<lambda>_. 0"] demo_length
  by (simp add: mounted_def demo_kernel_def) (simp add: demo_files_def zero_in_str)

section \<open>Properties\<close>

text \<open>C21: dispatching a line is a lookup: leading blanks are skipped, an empty line does nothing, the first
  word (31 bytes at most) selects the builtin of that name and the rest, blanks skipped, is its
  argument; any other word is reported as not found.\<close>

theorem dispatch_lookup:
  assumes "0 \<notin> set l"
  shows "Dispatch E l K = (let s = skip_blanks l; name = take 31 (takeWhile (\<lambda>c. c \<notin> {0x20, 0x09, 0x0A}) s) in
    if s = [] \<or> hd s = 0x0A then Some (Returned K)
    else case map_of Table name of
        Some (f, desc) \<Rightarrow> run_builtin E f (skip_blanks (drop (length name) s)) K
      | None \<Rightarrow> map_option Returned (report E 80 [Buf [Str (str ''shiro: command not found: ''), Str name]] K))"
proof -
  have "(\<lambda>c. c \<notin> {0x20, 0x09, 0x0A}) = (\<lambda>c. \<not> separator c)" by (auto simp: separator_def)
  with Dispatch_spec [OF assms] show ?thesis
    by (simp add: dispatch_spec_def Let_def first_word_def lookup_word_def del: length_take)
qed

theorem dispatch_lookup_witness:
  "\<forall>K. Dispatch demo_platform (str ''  peek  0x10'') K = run_builtin demo_platform Cmd_peek (str ''0x10'') K"
proof
  fix K
  have l: "0 \<notin> set (str ''  peek  0x10'')" by (simp add: zero_in_str)
  show "Dispatch demo_platform (str ''  peek  0x10'') K = run_builtin demo_platform Cmd_peek (str ''0x10'') K" unfolding dispatch_lookup [OF l]
    by (simp add: skip_blanks_def Table_def Let_def)
qed

text \<open>C15: no command line makes a command leave its buffers: whatever is typed (79 bytes, no NUL), dispatching
  it ends, and it returns with nothing changed but the console, or it halts the processor with
  interrupts off, raises the breakpoint exception, or pulses the reset line of the keyboard
  controller after polling it.\<close>

theorem dispatch_safe:
  assumes "kernel_ok K" "platform_ok E" "0 \<notin> set l" "length l \<le> 79" "kbc_free (polled n (k_mach K))"
  shows "\<exists>out. Dispatch E l K = Some out \<and> ends_safely K out"
  using Dispatch_safe [OF assms] .

theorem dispatch_safe_witness:
  "\<exists>S K'. started S \<and> Dispatch demo_platform (str ''tasks'') (demo_kernel S) = Some K' \<and> ends_safely (demo_kernel S) K'"
proof (rule sample_shell)
  fix S assume s: "started S"
  have "0 \<notin> set (str ''tasks'')" "length (str ''tasks'') \<le> 79" by (simp_all add: zero_in_str)
  from dispatch_safe [OF demo_kernel_ok(1) [OF s] demo_kernel_ok(2) this demo_kernel_ok(3)] s show ?thesis by blast
qed

text \<open>An address the kernel prints in hexadecimal is parsed back, in either spelling of the prefix or
  without one, and \<open>peek\<close> of it prints the aligned address and the word stored there.\<close>

theorem peek_roundtrip:
  assumes "kernel_ok K" "p \<in> {[], str ''0x'', str ''0X''}"
  shows "ParseHex (p @ hexa (unat a)) = Some a
    \<and> cmd_peek E (p @ hexa (unat a)) K = Some (scroll_kernel [str ''['' @ hex_text (a AND NOT 3) @ str ''] = ''
       @ hex_text (load32 (ram (k_mach K)) (a AND NOT 3))] K)"
proof
  show h: "ParseHex (p @ hexa (unat a)) = Some a" using ParseHex_text [of p "[]" a] assms(2) by simp
  show "cmd_peek E (p @ hexa (unat a)) K = Some (scroll_kernel [str ''['' @ hex_text (a AND NOT 3) @ str ''] = ''
       @ hex_text (load32 (ram (k_mach K)) (a AND NOT 3))] K)" by (rule peek_text [OF assms(1) h])
qed

theorem peek_roundtrip_witness: "ParseHex (str ''0xb8000'') = Some 0xB8000"
proof (rule sample_shell)
  fix S assume s: "started S"
  have "hexa (unat (0xB8000 :: u32)) = str ''b8000''" by (simp add: hexa.simps digit_string_def)
  with peek_roundtrip [OF demo_kernel_ok(1) [OF s], of "str ''0x''" "0xB8000" demo_platform] show ?thesis by simp
qed

text \<open>\<open>dumpmem\<close> prints four lines: the address of each group of sixteen bytes, their two-digit
  hexadecimal values, and the printable ones; a line never exceeds the 79 characters its buffer
  holds, and with an eight-digit address it fills them exactly.\<close>

theorem dumpmem_lines:
  assumes "kernel_ok K" "ParseHex args = Some a"
  shows "cmd_dumpmem E args K = Some (scroll_kernel (map (dump_text (ram (k_mach K)) (a AND NOT 0xF)) [0..<4]) K)
    \<and> (\<forall>row. length (dump_text (ram (k_mach K)) (a AND NOT 0xF) row)
         = 69 + length (hex_text ((a AND NOT 0xF) + of_nat (row * 16))))
    \<and> (\<forall>v. length (hex_text v) \<le> 10)"
  using dumpmem_text [OF assms, of E] hex_text_length by (simp add: dump_text_def [of _ _ "_ :: nat"] length_dump_bytes del: upt_rec_numeral)

theorem dumpmem_lines_witness:
  "\<exists>S K'. started S \<and> cmd_dumpmem demo_platform (str ''200000'') (demo_kernel S) = Some K' \<and> shell_ok (k_shell (demo_kernel S))"
proof (rule sample_shell)
  fix S assume s: "started S"
  have "ParseHex (str ''200000'') = Some 0x200000" by (simp add: ParseHex_def Let_def hex_digit_def)
  from dumpmem_lines [OF demo_kernel_ok(1) [OF s] this, of demo_platform] s
  show ?thesis by (auto simp: demo_kernel_def started_def)
qed

text \<open>C23: \<open>cat\<close> of a file the packer put on the mounted disk prints its lines in order: carriage returns are
  dropped, a line feed ends a line, a longer line is cut every 79 characters, and a last line
  without a line feed is printed too.\<close>

theorem cat_prints_file:
  assumes "kernel_ok K" "mounted (ram (k_mach K)) b (xs @ (n, p) # ys) (k_initrd K)" "n \<noteq> []"
    "unat b + length (ird_image (xs @ (n, p) # ys)) < 2 ^ 32" "file_name (n, p) \<notin> file_name ` set xs"
    "arg_apart E (length (file_name (n, p))) b (length (ird_image (xs @ (n, p) # ys)))"
  shows "cmd_cat E (file_name (n, p)) K = Some (scroll_kernel (map (takeWhile (\<lambda>c. c \<noteq> 0)) (file_lines p)) K)"
proof (rule cat_text [OF assms(1)])
  show "file_name (n, p) \<noteq> []" using assms(3) by (simp add: file_name_def)
  show "ird_ready (k_initrd K)" using assms(2) by (simp add: mounted_def)
qed (use file_found [OF assms(2,4-6)] in simp_all)

theorem cat_prints_file_witness:
  "\<exists>S. started S \<and> cmd_cat demo_platform (str ''motd'') (demo_kernel S)
     = Some (scroll_kernel [str ''hello'', str ''world''] (demo_kernel S))"
proof (rule sample_shell)
  fix S assume s: "started S"
  let ?n = "str ''motd''" and ?p = "str ''hello'' @ [0x0D, 0x0A] @ str ''world''"
  let ?ys = "tl demo_files"
  have f: "[] @ (?n, ?p) # ?ys = demo_files" by (simp add: demo_files_def)
  have m: "mounted (ram (k_mach (demo_kernel S))) 0x200000 ([] @ (?n, ?p) # ?ys) (k_initrd (demo_kernel S))"
    unfolding f by (rule demo_mounted)
  have l: "length (ird_image ([] @ (?n, ?p) # ?ys)) = 117" unfolding f by (rule demo_length)
  have n: "file_name (?n, ?p) = ?n" by (simp add: file_name_def)
  have "arg_apart demo_platform (length (file_name (?n, ?p))) 0x200000 (length (ird_image ([] @ (?n, ?p) # ?ys)))"
    unfolding l n by (simp add: arg_apart_def demo_platform_def)
  from cat_prints_file [OF demo_kernel_ok(1) [OF s] m _ _ _ this] l
  have "cmd_cat demo_platform ?n (demo_kernel S) = Some (scroll_kernel (map (takeWhile (\<lambda>c. c \<noteq> 0)) (file_lines ?p)) (demo_kernel S))"
    by (simp add: file_name_def)
  moreover have "file_lines ?p = [str ''hello'', str ''world'']" by (simp add: file_lines_def chunks_short)
  ultimately show ?thesis using s by auto
qed

text \<open>\<open>uptime\<close> prints the tick count as hours, minutes and seconds of the right value: minutes and seconds
  are below 60 and together they are the elapsed time at 100 ticks a second.\<close>

theorem uptime_value:
  assumes "kernel_ok K"
  shows "\<exists>h m s. cmd_uptime E K = Some (scroll_kernel [str ''uptime: '' @ dec h @ str ''h '' @ dec m @ str ''m ''
        @ dec s @ str ''s  ('' @ dec (unat (ticks (k_timer K))) @ str '' ticks @ 100 Hz)''] K)
    \<and> m < 60 \<and> s < 60 \<and> 3600 * h + 60 * m + s = unat (ticks (k_timer K)) div 100"
proof (intro exI conjI)
  let ?t = "unat (ticks (k_timer K)) div 100"
  show "cmd_uptime E K = Some (scroll_kernel [str ''uptime: '' @ dec (?t div 3600) @ str ''h '' @ dec (?t div 60 mod 60) @ str ''m ''
        @ dec (?t mod 60) @ str ''s  ('' @ dec (unat (ticks (k_timer K))) @ str '' ticks @ 100 Hz)''] K)"
    using uptime_prints [OF assms, of E] by (simp add: uptime_text_def Let_def)
  show "3600 * (?t div 3600) + 60 * (?t div 60 mod 60) + ?t mod 60 = ?t"
    using mod_mult2_eq [of ?t 60 60] div_mult_mod_eq [of ?t 3600] by simp
qed simp_all

theorem uptime_value_witness:
  "\<exists>S h m s. started S \<and> 3600 * h + 60 * m + s = (3665 :: nat) \<and> m < 60 \<and> s < 60
     \<and> cmd_uptime demo_platform (demo_kernel S) = Some (scroll_kernel [str ''uptime: '' @ dec h @ str ''h '' @ dec m
         @ str ''m '' @ dec s @ str ''s  (366542 ticks @ 100 Hz)''] (demo_kernel S))"
proof (rule sample_shell)
  fix S assume s: "started S"
  have d: "dec 366542 = str ''366542''" by (simp add: dec.simps)
  from uptime_value [OF demo_kernel_ok(1) [OF s], of demo_platform] s d show ?thesis
    by (auto simp: demo_kernel_def)
qed

end
