(* ===== verification/Shell_Update.thy ===== *)
theory Shell_Update
  imports Commands_Correct
begin

text \<open>
  \<open>Shell::Update\<close> and \<open>Shell::Execute\<close> (src/src/src/classes/shell.class.h): the tick of the main
  loop that turns the line buffer of the keyboard into a terminal switch, a prompt, or a command.
  The buffer is read as it is when \<open>Update\<close> starts; no interrupt comes in between.
\<close>

section \<open>The model\<close>

text \<open>What follows a command is only reached when the command returns.\<close>

fun and_then :: "outcome \<Rightarrow> (kernel \<Rightarrow> outcome option) \<Rightarrow> outcome option" where
  "and_then (Returned K) f = f K"
| "and_then out f = Some out"

definition Execute :: "platform \<Rightarrow> u8 list \<Rightarrow> kernel \<Rightarrow> outcome option" where
  "Execute E command K = (if command = [] then Some (Returned K) else Dispatch E command K)"

definition repaint_screen :: "kernel \<Rightarrow> kernel option" where
  "repaint_screen K = map_option (\<lambda>M. K\<lparr>k_mach := M\<rparr>) (UpdateScreen (k_kbd K) (k_mach K, k_shell K))"

definition clean_footer :: "kernel \<Rightarrow> kernel option" where
  "clean_footer K = map_option (\<lambda>(M, S). K\<lparr>k_mach := M, k_shell := S\<rparr>)
     (StartTerminalFooter (k_kbd K) (k_mach K, k_shell K))"

definition write_footer :: "u8 list \<Rightarrow> kernel \<Rightarrow> kernel option" where
  "write_footer s K = map_option (\<lambda>(M, S). K\<lparr>k_mach := M, k_shell := S\<rparr>) (WriteF s (k_kbd K) (k_mach K, k_shell K))"

text \<open>The switch of terminals by a function key.\<close>

definition switch_terminal :: "u16 \<Rightarrow> kernel \<Rightarrow> kernel option" where
  "switch_terminal fkey K =
     (if 0 < fkey then do {
        S \<leftarrow> RenderHeader ((k_shell K)\<lparr>current_terminal := unat fkey\<rparr>);
        repaint_screen (K\<lparr>k_shell := S\<rparr>) }
      else Some K)"

text \<open>The copy of the buffer into \<open>char command[51]\<close>, without a final line feed.\<close>

definition command_of :: "platform \<Rightarrow> u8 list \<Rightarrow> u8 list option" where
  "command_of E keys = do {
     let end0 = length keys;
     let end1 = (if 0 < end0 \<and> keys ! (end0 - 1) = 0x0A then end0 - 1 else end0);
     let end2 = (if 50 < end1 then 50 else end1);
     buf \<leftarrow> for_each (\<lambda>i buf. put buf i (keys ! i)) [0..<end2] (fresh E 51);
     buf' \<leftarrow> put buf end2 0;
     c_string buf' }"

definition finish_command :: "kernel \<Rightarrow> outcome option" where
  "finish_command K = do {
     K1 \<leftarrow> clean_footer K;
     K2 \<leftarrow> repaint_screen K1;
     Some (Returned K2) }"

definition run_command :: "platform \<Rightarrow> u8 list \<Rightarrow> kernel \<Rightarrow> outcome option" where
  "run_command E keys K = do {
     command \<leftarrow> command_of E keys;
     S \<leftarrow> WriteCEcho (C_concat (str ''Shiro> '') command) (k_shell K);
     kb \<leftarrow> BufferReset (k_kbd K);
     out \<leftarrow> Execute E command (K\<lparr>k_shell := S, k_kbd := kb\<rparr>);
     and_then out finish_command }"

definition Shell_Update :: "platform \<Rightarrow> kernel \<Rightarrow> outcome option" where
  "Shell_Update E K = do {
     keys \<leftarrow> c_string (kb_buffer (k_kbd K));
     let (wupd, kb1) = WasUpdated (k_kbd K);
     let (fkey, kb2) = GetFunctionKey kb1;
     K1 \<leftarrow> switch_terminal fkey (K\<lparr>k_kbd := kb2\<rparr>);
     if \<not> wupd then Some (Returned K1)
     else do {
       let execute = (\<exists>c \<in> set keys. c = 0x0A);
       K2 \<leftarrow> clean_footer K1;
       if execute \<and> 1 < length keys then run_command E keys K2
       else map_option Returned (write_footer keys K2) } }"

section \<open>The steps\<close>

text \<open>What a step of \<open>Update\<close> may change: the machine, but not its devices, the shell and the keyboard.\<close>

definition console_step :: "kernel \<Rightarrow> kernel \<Rightarrow> bool" where
  "console_step K K' \<longleftrightarrow> (\<exists>M S. K' = K\<lparr>k_mach := M, k_shell := S\<rparr> \<and> dev M = dev (k_mach K) \<and> started S)"

lemma console_stepI:
  "K' = K\<lparr>k_mach := M, k_shell := S\<rparr> \<Longrightarrow> dev M = dev (k_mach K) \<Longrightarrow> started S \<Longrightarrow> console_step K K'"
  unfolding console_step_def by blast

lemma console_step_trans: "console_step K K1 \<Longrightarrow> console_step K1 K2 \<Longrightarrow> console_step K K2"
proof -
  assume "console_step K K1" "console_step K1 K2"
  then obtain M S N T where "K1 = K\<lparr>k_mach := M, k_shell := S\<rparr>" "dev M = dev (k_mach K)"
    "K2 = K1\<lparr>k_mach := N, k_shell := T\<rparr>" "dev N = dev (k_mach K1)" "started T" by (auto simp: console_step_def)
  then show "console_step K K2" by (intro console_stepI [where M = N and S = T]) simp_all
qed

lemma console_step_refl: "started (k_shell K) \<Longrightarrow> console_step K K"
  unfolding console_step_def by (intro exI [of _ "k_mach K"] exI [of _ "k_shell K"]) simp

lemma shell_only_step: "shell_only K K' \<Longrightarrow> console_step K K'"
  unfolding shell_only_def console_step_def by (auto intro!: exI [of _ "k_mach K"])

lemma console_step_sel:
  assumes "console_step K K'"
  shows "started (k_shell K')" "k_kbd K' = k_kbd K" "dev (k_mach K') = dev (k_mach K)" "k_sched K' = k_sched K"
  using assms by (auto simp: console_step_def)

lemma started_geo: "started S \<Longrightarrow> shell_geo S" "started S \<Longrightarrow> screen S = SCREEN_ADDR"
  by (auto simp: started_def shell_ok_def)

lemma started_same: "started S \<Longrightarrow> same_but {} S S' \<Longrightarrow> started S'"
proof -
  assume s: "started S" "same_but {} S S'"
  then have "shell_geo S'" using same_but_geo started_geo by blast
  with s show "started S'"
    by (simp add: started_def shell_ok_def same_but_def last_row_blank_def blank_cell_def)
qed

lemma dev_UpdateScreen:
  assumes "started S" "GetBufferSize kb = Some n" "UpdateScreen kb (M, S) = Some M'"
  shows "dev M' = dev M"
  using UpdateScreen_eq [OF started_geo [OF assms(1)] assms(2), of M] assms(3)
  by (simp add: Cursor_moveTo_def Let_def)

lemma repaint_step:
  assumes "started (k_shell K)" "GetBufferSize (k_kbd K) = Some n"
  shows "\<exists>K'. repaint_screen K = Some K' \<and> console_step K K' \<and> k_shell K' = k_shell K"
proof -
  from UpdateScreen_shown [OF started_geo [OF assms(1)] assms(2), of "k_mach K"] obtain M where
    m: "UpdateScreen (k_kbd K) (k_mach K, k_shell K) = Some M" by blast
  with dev_UpdateScreen [OF assms m] assms(1) show ?thesis
    unfolding repaint_screen_def console_step_def by (auto intro!: exI [of _ "k_shell K"])
qed

lemma updated_dev:
  assumes "started S" "GetBufferSize kb = Some n" "updated kb M (Some S) = Some (M', S')"
  shows "dev M' = dev M"
  using assms(3) dev_UpdateScreen [OF assms(1,2), of M] by (auto simp: updated_def bind_eq_Some_conv)

lemma set_footer_x: "set_footer i v S = Some S' \<Longrightarrow> footer_current_x S' = footer_current_x S"
  by (auto simp: set_footer_def)

lemma write_f_loop_x: "write_f_loop limit cs gi S = Some S' \<Longrightarrow> footer_current_x S' \<le> footer_current_x S + length cs"
proof (induction cs arbitrary: gi S)
  case (Cons c cs)
  let ?S1 = "if limit \<le> gi then S\<lparr>footer_current_x := 0\<rparr> else S"
  let ?gi = "footer_starting_point (layout S) + footer_current_x ?S1"
  from Cons.prems obtain S2 where
    s: "set_footer ?gi (setColor c (footer_color (colours S))) ?S1 = Some S2"
      "write_f_loop limit cs ?gi (S2\<lparr>footer_current_x := footer_current_x S2 + 1\<rparr>) = Some S'"
    by (auto simp: Let_def bind_eq_Some_conv simp del: if_split_asm split del: if_split)
  from Cons.IH [OF s(2)] set_footer_x [OF s(1)] show ?case by (auto split: if_splits)
qed simp

lemma write_footer_step:
  assumes "started (k_shell K)" "GetBufferSize (k_kbd K) = Some n" "footer_current_x (k_shell K) + length s \<le> 80"
  shows "\<exists>K'. write_footer s K = Some K' \<and> console_step K K' \<and> same_but {} (k_shell K) (k_shell K')
    \<and> footer_current_x (k_shell K') \<le> footer_current_x (k_shell K) + length s"
proof -
  note g = started_geo [OF assms(1)]
  let ?l = "footer_size (layout (k_shell K)) - 1"
  from write_f_loop_step [OF g(1) assms(3), of ?l 0] obtain S' where
    w: "write_f_loop ?l s 0 (k_shell K) = Some S'" "same_but {} (k_shell K) S'" by blast
  have s: "started S'" by (rule started_same [OF assms(1) w(2)])
  from updated_step [OF started_geo [OF s] assms(2), of "k_mach K"] obtain M' where
    u: "updated (k_kbd K) (k_mach K) (Some S') = Some (M', S')" by blast
  have "write_footer s K = Some (K\<lparr>k_mach := M', k_shell := S'\<rparr>)"
    using w(1) u by (simp add: write_footer_def WriteF_def)
  with updated_dev [OF s assms(2) u] s write_f_loop_x [OF w(1)] w(2) show ?thesis by (auto simp: console_step_def)
qed

lemma clean_footer_step:
  assumes "started (k_shell K)" "GetBufferSize (k_kbd K) = Some n"
  shows "\<exists>K'. clean_footer K = Some K' \<and> console_step K K' \<and> same_but {} (k_shell K) (k_shell K')
    \<and> footer_current_x (k_shell K') \<le> 7"
proof -
  note g = started_geo [OF assms(1)]
  let ?f = "\<lambda>pos. set_footer pos (setColor 0x20 (footer_color (colours (k_shell K))))"
  have "\<exists>S1. for_each ?f [1920..<2000] (k_shell K) = Some S1 \<and> same_but {} (k_shell K) S1"
    by (rule for_each_same_range [OF _ g(1)]) (use set_same(3) in blast)
  then obtain S1 where s: "for_each ?f [1920..<2000] (k_shell K) = Some S1" "same_but {} (k_shell K) S1" by blast
  let ?K1 = "K\<lparr>k_shell := S1\<lparr>footer_current_x := 0\<rparr>\<rparr>"
  have sb: "same_but {} (k_shell K) (S1\<lparr>footer_current_x := 0\<rparr>)" using s(2) by simp
  from started_same [OF assms(1) this] have st: "started (k_shell ?K1)" by simp
  from write_footer_step [OF st, of n "str ''Shiro> ''"] assms(2) obtain K' where
    k: "write_footer (str ''Shiro> '') ?K1 = Some K'" "console_step ?K1 K'" "footer_current_x (k_shell K') \<le> 7"
    "same_but {} (k_shell ?K1) (k_shell K')" by auto
  have "clean_footer K = write_footer (str ''Shiro> '') ?K1"
    using s(1) shell_geo_sel(1) [OF g(1)]
    by (auto simp: clean_footer_def write_footer_def StartTerminalFooter_def Let_def map_option_case split: option.splits prod.splits simp del: upt_rec_numeral)
  moreover have "console_step K K'" using k(2) by (auto simp: console_step_def)
  moreover have "same_but {} (k_shell K) (k_shell K')" using same_but_trans [OF sb] k(4) by fastforce
  ultimately show ?thesis using k(1,3) by auto
qed

lemma copy_keys:
  "n \<le> length buf \<Longrightarrow> n \<le> length keys \<Longrightarrow>
     for_each (\<lambda>i buf. put buf i (keys ! i)) [0..<n] buf = Some (take n keys @ drop n buf)"
proof (induction n)
  case (Suc n)
  have "[0..<Suc n] = [0..<n] @ [n]" by simp
  with Suc show ?case
    by (simp only: for_each_append) (simp add: put_def list_update_append drop_update_swap Cons_nth_drop_Suc [symmetric] take_Suc_conv_app_nth)
qed simp

definition typed :: "u8 list \<Rightarrow> u8 list" where
  "typed keys = (if keys \<noteq> [] \<and> last keys = 0x0A then butlast keys else keys)"

lemma command_of_typed:
  assumes "0 \<notin> set keys" "length keys < 50"
  shows "command_of E keys = Some (typed keys)"
proof -
  let ?n = "if 0 < length keys \<and> keys ! (length keys - 1) = 0x0A then length keys - 1 else length keys"
  have l: "(if 50 < ?n then 50 else ?n) = length (typed keys)"
    using assms(2) by (auto simp: typed_def last_conv_nth)
  have t: "take (length (typed keys)) keys = typed keys" "length (typed keys) \<le> length keys" "0 \<notin> set (typed keys)"
    using assms(1) by (auto simp: typed_def butlast_conv_take dest: in_set_takeD)
  let ?b = "typed keys @ drop (length (typed keys)) (fresh E 51)"
  have c: "for_each (\<lambda>i buf. put buf i (keys ! i)) [0..<length (typed keys)] (fresh E 51) = Some ?b"
    using copy_keys [of "length (typed keys)" "fresh E 51" keys] t assms(2) by simp
  have h: "length ?b = 51" "length (typed keys) < 51" "take (length (typed keys)) ?b = typed keys" using t(2) assms(2) by simp_all
  from put_end [OF h refl] obtain b' where
    b: "put ?b (length (typed keys)) 0 = Some b'" "length b' = 51" "take (length (typed keys)) b' = typed keys" "b' ! length (typed keys) = 0"
    by blast
  have "c_string b' = Some (typed keys)" using b h(2) t(3) holds_c_string [of 51 "typed keys" b' "length (typed keys)"] by simp
  then show ?thesis unfolding command_of_def Let_def l c Option.bind.simps b(1) .
qed

lemma echo_line:
  assumes "started S" "length s \<le> 79"
  shows "WriteCEcho s S = Some (after_rows (terminal_color_echo palette) (rows_from [] s) S)"
    "started (after_rows (terminal_color_echo palette) (rows_from [] s) S)"
proof -
  have ok: "shell_ok S" "colours S = palette" using assms(1) by (simp_all add: started_def)
  have f: "fits (rows_from [] s)" using line_fits_short [OF assms(2)] by (simp add: line_fits_def)
  show "WriteCEcho s S = Some (after_rows (terminal_color_echo palette) (rows_from [] s) S)"
    using write_line_eq [OF ok(1)] f ok(2) by (simp add: WriteC_line fits_def)
  show "started (after_rows (terminal_color_echo palette) (rows_from [] s) S)"
    using after_rows_ok [OF ok(1) f] assms(1) by (simp add: started_def)
qed

lemma BufferReset_ok: "kb_ok kb \<Longrightarrow> \<exists>kb'. BufferReset kb = Some kb' \<and> kb_ok kb' \<and> kb_text kb' = [] \<and> function_key kb' = function_key kb"
proof -
  assume "kb_ok kb"
  then obtain c cs where c: "kb_buffer kb = c # cs" "length cs = 49" by (cases "kb_buffer kb") (auto simp: kb_ok_def)
  then show ?thesis by (auto simp: BufferReset_def put_def kb_ok_def kb_text_def UpdateNotification_def)
qed

text \<open>The keyboard controller always becomes free again.\<close>

definition kbc_live :: "mach \<Rightarrow> bool" where
  "kbc_live M \<longleftrightarrow> (\<forall>h. \<exists>n. kbc_free (polled n (M\<lparr>io := h\<rparr>)))"

lemma polled_same:
  "dev M = dev M' \<Longrightarrow> io M = io M' \<Longrightarrow> dev (polled n M) = dev (polled n M') \<and> io (polled n M) = io (polled n M')"
  by (induction n arbitrary: M M') (simp_all add: polled_Suc inb_def Let_def)

lemma kbc_free_same: "dev M = dev M' \<Longrightarrow> io M = io M' \<Longrightarrow> kbc_free M = kbc_free M'"
  by (simp add: kbc_free_def inb_def Let_def)

lemma kbc_live_free:
  assumes "kbc_live M" "dev M' = dev M" obtains n where "kbc_free (polled n M')"
proof -
  from assms(1) obtain n where n: "kbc_free (polled n (M\<lparr>io := io M'\<rparr>))" by (auto simp: kbc_live_def)
  have "kbc_free (polled n M')"
    using kbc_free_same [of "polled n M'" "polled n (M\<lparr>io := io M'\<rparr>)"] polled_same [of M' "M\<lparr>io := io M'\<rparr>" n] assms(2) n by simp
  then show thesis by (rule that)
qed

lemma kbc_live_dev: "kbc_live M \<Longrightarrow> dev M' = dev M \<Longrightarrow> kbc_live M'"
  by (metis kbc_live_def kbc_live_free mach.select_convs(3) mach.surjective mach.update_convs(2))

section \<open>The loop invariant\<close>

definition update_ok :: "kernel \<Rightarrow> bool" where
  "update_ok K \<longleftrightarrow> kernel_ok K \<and> kb_ok (k_kbd K) \<and> function_key (k_kbd K) \<le> 5 \<and> kbc_live (k_mach K)"

lemma kernel_ok_step: "kernel_ok K \<Longrightarrow> console_step K K' \<Longrightarrow> kernel_ok K'"
  using console_step_sel [of K K'] by (simp add: kernel_ok_def)

lemma update_ok_step: "update_ok K \<Longrightarrow> console_step K K' \<Longrightarrow> update_ok K'"
  using console_step_sel [of K K'] kernel_ok_step [of K K'] kbc_live_dev [of "k_mach K" "k_mach K'"]
  by (simp add: update_ok_def)

lemma update_ok_size: "update_ok K \<Longrightarrow> GetBufferSize (k_kbd K) = Some (length (kb_text (k_kbd K)))"
  by (simp add: update_ok_def GetBufferSize_def kb_string)

lemma update_ok_started: "update_ok K \<Longrightarrow> started (k_shell K)"
  by (simp add: update_ok_def kernel_ok_def)

lemma finish_command_ok:
  assumes "update_ok K"
  shows "\<exists>K'. finish_command K = Some (Returned K') \<and> update_ok K' \<and> console_step K K'"
proof -
  from clean_footer_step [OF update_ok_started [OF assms] update_ok_size [OF assms]] obtain K1 where
    c: "clean_footer K = Some K1" "console_step K K1" by blast
  note o1 = update_ok_step [OF assms c(2)]
  from repaint_step [OF update_ok_started [OF o1] update_ok_size [OF o1]] obtain K2 where
    r: "repaint_screen K1 = Some K2" "console_step K1 K2" by blast
  from c r update_ok_step [OF o1 r(2)] console_step_trans [OF c(2) r(2)] show ?thesis
    by (simp add: finish_command_def)
qed

lemma run_command_eq:
  assumes "update_ok K" "0 \<notin> set keys" "length keys < 50"
  shows "\<exists>kb. kb_ok kb \<and> kb_text kb = [] \<and> function_key kb = function_key (k_kbd K) \<and>
    run_command E keys K = Option.bind (Execute E (typed keys)
      (K\<lparr>k_shell := after_rows (terminal_color_echo palette) (rows_from [] (str ''Shiro> '' @ typed keys)) (k_shell K),
         k_kbd := kb\<rparr>)) (\<lambda>out. and_then out finish_command)"
proof -
  have l: "length (typed keys) < 50" using assms(3) by (auto simp: typed_def)
  then have c: "C_concat (str ''Shiro> '') (typed keys) = str ''Shiro> '' @ typed keys" by (simp add: C_concat_take)
  have "length (str ''Shiro> '' @ typed keys) \<le> 79" using l by simp
  from echo_line(1) [OF update_ok_started [OF assms(1)] this] command_of_typed [OF assms(2,3), of E]
    BufferReset_ok [of "k_kbd K"] assms(1) c
  show ?thesis unfolding run_command_def update_ok_def by (auto simp del: str_simps)
qed

lemma Execute_safe:
  assumes "update_ok K" "platform_ok E" "0 \<notin> set command" "length command \<le> 79"
  shows "\<exists>out. Execute E command K = Some out \<and> ends_safely K out"
proof (cases "command = []")
  case True
  have "shell_only K K" using update_ok_started [OF assms(1)] unfolding shell_only_def by (auto intro!: exI [of _ "k_shell K"])
  with True show ?thesis by (simp add: Execute_def)
next
  case False
  have k: "kernel_ok K" "kbc_live (k_mach K)" using assms(1) by (simp_all add: update_ok_def)
  from kbc_live_free [OF k(2) refl] obtain n where "kbc_free (polled n (k_mach K))" .
  from Dispatch_safe [OF k(1) assms(2-4) this] False show ?thesis by (simp add: Execute_def)
qed

text \<open>A tick either returns in a state in which the next one may run, or a command stopped the machine.\<close>

definition tick_ok :: "outcome \<Rightarrow> bool" where
  "tick_ok out \<longleftrightarrow> (\<forall>K'. out = Returned K' \<longrightarrow> update_ok K')"

lemma run_command_to:
  assumes "update_ok K" "0 \<notin> set keys" "length keys < 50"
  shows "\<exists>K1. update_ok K1 \<and> kb_text (k_kbd K1) = [] \<and>
    run_command E keys K = Option.bind (Execute E (typed keys) K1) (\<lambda>out. and_then out finish_command)"
proof -
  from run_command_eq [OF assms, of E] obtain kb where
    kb: "kb_ok kb" "kb_text kb = []" "function_key kb = function_key (k_kbd K)" and
    r: "run_command E keys K = Option.bind (Execute E (typed keys)
      (K\<lparr>k_shell := after_rows (terminal_color_echo palette) (rows_from [] (str ''Shiro> '' @ typed keys)) (k_shell K),
         k_kbd := kb\<rparr>)) (\<lambda>out. and_then out finish_command)" by blast
  let ?K = "K\<lparr>k_shell := after_rows (terminal_color_echo palette) (rows_from [] (str ''Shiro> '' @ typed keys)) (k_shell K),
         k_kbd := kb\<rparr>"
  have t: "length (typed keys) \<le> 49" using assms(3) by (auto simp: typed_def)
  have "started (k_shell ?K)"
    using echo_line(2) [OF update_ok_started [OF assms(1)], of "str ''Shiro> '' @ typed keys"] t by simp
  with assms(1) kb have "update_ok ?K" by (simp add: update_ok_def kernel_ok_def)
  moreover have "kb_text (k_kbd ?K) = []" using kb(2) by simp
  ultimately show ?thesis using r by blast
qed

lemma run_command_safe:
  assumes "update_ok K" "platform_ok E" "0 \<notin> set keys" "length keys < 50"
  shows "\<exists>out. run_command E keys K = Some out \<and> tick_ok out"
proof -
  from run_command_to [OF assms(1,3,4), of E] obtain K1 where u: "update_ok K1" and
    r: "run_command E keys K = Option.bind (Execute E (typed keys) K1) (\<lambda>out. and_then out finish_command)" by blast
  have t: "0 \<notin> set (typed keys)" "length (typed keys) \<le> 79"
    using assms(3,4) by (auto simp: typed_def dest: in_set_butlastD)
  from Execute_safe [OF u assms(2) t] obtain out where
    out: "Execute E (typed keys) K1 = Some out" "ends_safely K1 out" by blast
  show ?thesis
  proof (cases out)
    case (Returned K2)
    with out(2) have "update_ok K2" using update_ok_step [OF u shell_only_step] by simp
    from finish_command_ok [OF this] show ?thesis using r out(1) Returned by (auto simp: tick_ok_def)
  qed (use r out(1) in \<open>auto simp: tick_ok_def\<close>)
qed

lemma switch_terminal_ok:
  assumes "update_ok K" "fkey \<le> 5"
  shows "\<exists>K'. switch_terminal fkey K = Some K' \<and> update_ok K' \<and> k_kbd K' = k_kbd K
    \<and> (fkey = 0 \<longrightarrow> K' = K)"
proof (cases "0 < fkey")
  case True
  have f: "unat fkey \<in> {1..5}" using True assms(2) by (simp add: word_less_nat_alt word_le_nat_alt)
  let ?S = "(k_shell K)\<lparr>current_terminal := unat fkey\<rparr>"
  note st = update_ok_started [OF assms(1)]
  have s: "started ?S" using st shell_ok_current [OF _ f] by (simp add: started_def)
  from RenderHeader_eq [OF started_geo(1) [OF s]] obtain S' where
    h: "RenderHeader ?S = Some S'" "S' = ?S\<lparr>terminal_screen_header := header_cells ?S @ drop 64 (terminal_screen_header ?S)\<rparr>" by blast
  have "same_but {} ?S S'" using h(2) length_header_cells [of ?S] by (simp add: same_but_def shell_arrays_def)
  then have s': "started S'" by (rule started_same [OF s])
  then have u: "update_ok (K\<lparr>k_shell := S'\<rparr>)" using assms(1) by (simp add: update_ok_def kernel_ok_def)
  from repaint_step [OF update_ok_started [OF u] update_ok_size [OF u]] obtain K' where
    r: "repaint_screen (K\<lparr>k_shell := S'\<rparr>) = Some K'" "console_step (K\<lparr>k_shell := S'\<rparr>) K'" by blast
  from h(1) r update_ok_step [OF u r(2)] console_step_sel(2) [OF r(2)] True show ?thesis
    by (auto simp: switch_terminal_def)
qed (use assms in \<open>simp add: switch_terminal_def word_neq_0_conv\<close>)

text \<open>The keyboard once \<open>Update\<close> has taken its flags.\<close>

definition taken :: "keyboard \<Rightarrow> keyboard" where
  "taken kb = kb\<lparr>was_updated := False, function_key := 0\<rparr>"

lemma Shell_Update_eq:
  assumes "update_ok K"
  shows "\<exists>K1. switch_terminal (function_key (k_kbd K)) (K\<lparr>k_kbd := taken (k_kbd K)\<rparr>) = Some K1 \<and> update_ok K1
    \<and> k_kbd K1 = taken (k_kbd K) \<and> (function_key (k_kbd K) = 0 \<longrightarrow> K1 = K\<lparr>k_kbd := taken (k_kbd K)\<rparr>)
    \<and> Shell_Update E K = (if \<not> was_updated (k_kbd K) then Some (Returned K1)
        else do {
          K2 \<leftarrow> clean_footer K1;
          if 0x0A \<in> set (kb_text (k_kbd K)) \<and> 1 < length (kb_text (k_kbd K)) then run_command E (kb_text (k_kbd K)) K2
          else map_option Returned (write_footer (kb_text (k_kbd K)) K2) })"
proof -
  let ?kb = "taken (k_kbd K)"
  have kb: "kb_ok (k_kbd K)" "function_key (k_kbd K) \<le> 5" using assms by (simp_all add: update_ok_def)
  have w: "WasUpdated (k_kbd K) = (was_updated (k_kbd K), (k_kbd K)\<lparr>was_updated := False\<rparr>)"
    by (simp add: WasUpdated_def Let_def UpdateNotification_def)
  have g: "GetFunctionKey ((k_kbd K)\<lparr>was_updated := False\<rparr>) = (function_key (k_kbd K), ?kb)"
    by (simp add: GetFunctionKey_def taken_def)
  have "update_ok (K\<lparr>k_kbd := ?kb\<rparr>)" using assms by (simp add: update_ok_def kernel_ok_def taken_def)
  from switch_terminal_ok [OF this kb(2)] obtain K1 where
    k: "switch_terminal (function_key (k_kbd K)) (K\<lparr>k_kbd := ?kb\<rparr>) = Some K1" "update_ok K1" "k_kbd K1 = ?kb"
      "function_key (k_kbd K) = 0 \<longrightarrow> K1 = K\<lparr>k_kbd := ?kb\<rparr>" by auto
  then show ?thesis unfolding Shell_Update_def kb_string [OF kb(1)] w g Option.bind.simps Let_def prod.case
    by (intro exI [of _ K1]) simp
qed

lemma Shell_Update_writes:
  assumes "update_ok K" "was_updated (k_kbd K)" "\<not> (0x0A \<in> set (kb_text (k_kbd K)) \<and> 1 < length (kb_text (k_kbd K)))"
  shows "\<exists>K1. Shell_Update E K = Some (Returned K1) \<and> update_ok K1 \<and> k_kbd K1 = taken (k_kbd K)"
proof -
  let ?t = "kb_text (k_kbd K)"
  from Shell_Update_eq [OF assms(1), of E] assms(2,3) obtain K1 where
    k: "update_ok K1" "k_kbd K1 = taken (k_kbd K)" and
    u: "Shell_Update E K = Option.bind (clean_footer K1) (\<lambda>K2. map_option Returned (write_footer ?t K2))"
    by auto
  have t: "length ?t < 50" using kb_text_length assms(1) by (auto simp: update_ok_def)
  from clean_footer_step [OF update_ok_started [OF k(1)] update_ok_size [OF k(1)]] obtain K2 where
    c: "clean_footer K1 = Some K2" "console_step K1 K2" "footer_current_x (k_shell K2) \<le> 7" by blast
  note o2 = update_ok_step [OF k(1) c(2)]
  have "footer_current_x (k_shell K2) + length ?t \<le> 80" using c(3) t by simp
  from write_footer_step [OF update_ok_started [OF o2] update_ok_size [OF o2] this] obtain K3 where
    w: "write_footer ?t K2 = Some K3" "console_step K2 K3" by blast
  from u c(1) w(1) k(2) update_ok_step [OF o2 w(2)] console_step_sel(2) [OF c(2)] console_step_sel(2) [OF w(2)]
  show ?thesis by simp
qed

lemma Shell_Update_safe:
  assumes "update_ok K" "platform_ok E"
  shows "\<exists>out. Shell_Update E K = Some out \<and> tick_ok out"
proof -
  let ?t = "kb_text (k_kbd K)"
  from Shell_Update_eq [OF assms(1), of E] obtain K1 where
    k: "update_ok K1" "k_kbd K1 = taken (k_kbd K)" and
    u: "Shell_Update E K = (if \<not> was_updated (k_kbd K) then Some (Returned K1)
        else do {
          K2 \<leftarrow> clean_footer K1;
          if 0x0A \<in> set ?t \<and> 1 < length ?t then run_command E ?t K2 else map_option Returned (write_footer ?t K2) })" by blast
  consider "\<not> was_updated (k_kbd K)" | "was_updated (k_kbd K)" "0x0A \<in> set ?t \<and> 1 < length ?t"
    | "was_updated (k_kbd K)" "\<not> (0x0A \<in> set ?t \<and> 1 < length ?t)" by blast
  then show ?thesis
  proof cases
    case 1
    with u k(1) show ?thesis by (auto simp: tick_ok_def)
  next
    case 2
    have t: "0 \<notin> set ?t" "length ?t < 50" using kb_text_nonzero kb_text_length assms(1) by (auto simp: update_ok_def)
    from clean_footer_step [OF update_ok_started [OF k(1)] update_ok_size [OF k(1)]] obtain K2 where
      c: "clean_footer K1 = Some K2" "console_step K1 K2" by blast
    from run_command_safe [OF update_ok_step [OF k(1) c(2)] assms(2) t] u 2 c(1) show ?thesis by auto
  next
    case 3
    from Shell_Update_writes [OF assms(1) 3, of E] show ?thesis by (auto simp: tick_ok_def)
  qed
qed

section \<open>Typing a line\<close>

text \<open>The scancodes of a series of keyboard interrupts.\<close>

fun scancodes :: "u8 list \<Rightarrow> keyboard \<Rightarrow> keyboard option" where
  "scancodes [] kb = Some kb"
| "scancodes (sc # scs) kb = Option.bind (scancode sc kb) (scancodes scs)"

text \<open>The handler drops Enter on an empty line, so a line never starts with a line feed; and whatever
  is in the buffer is announced to \<open>Update\<close>.\<close>

definition typing_ok :: "keyboard \<Rightarrow> bool" where
  "typing_ok kb \<longleftrightarrow> kb_ok kb \<and> function_key kb \<le> 5
     \<and> (kb_text kb \<noteq> [] \<longrightarrow> was_updated kb \<and> hd (kb_text kb) \<noteq> 0x0A)"

lemma fkey_bound:
  assumes "0x3B \<le> c" "c \<le> (0x3F :: u8)"
  shows "(ucast (c - 0x3A) :: u16) \<le> 5"
proof -
  have "unat c \<in> {0x3B, 0x3C, 0x3D, 0x3E, 0x3F}" using assms by (auto simp: word_le_nat_alt)
  then have "c \<in> {0x3B, 0x3C, 0x3D, 0x3E, 0x3F}" by (auto simp: word_unat_eq_iff)
  then show ?thesis by auto
qed

lemma buffer_flags:
  "BufferAdd s kb = Some kb' \<Longrightarrow> (was_updated kb \<longrightarrow> was_updated kb') \<and> function_key kb' = function_key kb"
  "BufferRemoveOne kb = Some kb' \<Longrightarrow> was_updated kb' \<and> function_key kb' = function_key kb"
  by (auto simp: BufferAdd_def BufferRemoveOne_def UpdateNotification_def bind_eq_Some_conv split: if_splits)

lemma scancode_flags:
  assumes "scancode sc kb = Some kb'"
  shows "(was_updated kb \<longrightarrow> was_updated kb') \<and> (function_key kb \<le> 5 \<longrightarrow> function_key kb' \<le> 5)"
proof (cases "press sc kb")
  case True
  from assms show ?thesis
    unfolding scancode_press [OF True] Let_def
    by (auto simp: bind_eq_Some_conv dest!: buffer_flags split: if_splits)
next
  case False
  with assms show ?thesis
    by (auto simp: scancode_def press_def Let_def SetFunctionKey_def intro: fkey_bound split: if_splits)
qed

lemma scancode_typing_ok:
  assumes "typing_ok kb" "scancode sc kb = Some kb'"
  shows "typing_ok kb'"
proof -
  have ok: "kb_ok kb" and l: "kb_text kb \<noteq> [] \<Longrightarrow> was_updated kb \<and> hd (kb_text kb) \<noteq> 0x0A"
    using assms(1) by (simp_all add: typing_ok_def)
  note t = scancode_text(2) [OF ok assms(2)]
  note f = scancode_flags [OF assms(2)]
  have "was_updated kb' \<and> hd (kb_text kb') \<noteq> 0x0A" if ne: "kb_text kb' \<noteq> []"
  proof (cases "appends sc kb")
    case True
    then have c: "press sc kb" "key_char (sc AND 0x7F) kb \<notin> {0, 0x08}"
      "key_char (sc AND 0x7F) kb = 0x0A \<Longrightarrow> kb_text kb \<noteq> []" by (simp_all add: appends_def)
    have "scancode sc kb = BufferAdd [key_char (sc AND 0x7F) kb] kb"
      using c ok unfolding scancode_press [OF c(1)] by (auto simp: Let_def GetBufferSize_def kb_string)
    with assms(2) BufferAdd_ok [OF ok, of "key_char (sc AND 0x7F) kb" kb'] c(2) have "was_updated kb'" by simp
    with t True l c(3) show ?thesis by (cases "kb_text kb") auto
  next
    case False
    show ?thesis
    proof (cases "removes sc kb")
      case True
      then have b: "kb_text kb' = butlast (kb_text kb)" using t False by simp
      with ne have "kb_text kb \<noteq> []" "hd (kb_text kb') = hd (kb_text kb)" by (cases "kb_text kb"; auto)+
      with l f show ?thesis by simp
    next
      case none: False
      with t False ne l f show ?thesis by simp
    qed
  qed
  with t f assms(1) show ?thesis by (simp add: typing_ok_def)
qed

lemma scancodes_typing_ok: "typing_ok kb \<Longrightarrow> scancodes scs kb = Some kb' \<Longrightarrow> typing_ok kb'"
  by (induction scs arbitrary: kb) (auto simp: bind_eq_Some_conv dest: scancode_typing_ok)

lemma line_feed_inside:
  assumes "typing_ok kb" "0x0A \<in> set (kb_text kb)"
  shows "was_updated kb" "1 < length (kb_text kb)" "typed (kb_text kb) \<noteq> []"
proof -
  obtain c cs where t: "kb_text kb = c # cs" using assms(2) by (cases "kb_text kb") auto
  with assms have c: "c \<noteq> 0x0A" "was_updated kb" by (simp_all add: typing_ok_def)
  with assms(2) t have "cs \<noteq> []" by auto
  with t c show "was_updated kb" "1 < length (kb_text kb)" "typed (kb_text kb) \<noteq> []" by (auto simp: typed_def)
qed

section \<open>Properties\<close>

text \<open>C16: a tick of the shell never leaves an array, whatever is in the line buffer and whichever of the five
  function keys was pressed: it returns in a state in which the next tick may run, or the typed
  command stopped the machine.\<close>

theorem update_keeps_invariant:
  assumes "update_ok K" "platform_ok E"
  shows "\<exists>out. Shell_Update E K = Some out \<and> (\<forall>K'. out = Returned K' \<longrightarrow> update_ok K')"
  using Shell_Update_safe [OF assms] by (simp add: tick_ok_def)

definition demo_keys :: "shell \<Rightarrow> u8 list \<Rightarrow> kernel" where
  "demo_keys S keys = (demo_kernel S)\<lparr>k_kbd := keyboard0\<lparr>kb_buffer := keys @ replicate (50 - length keys) 0, was_updated := True\<rparr>\<rparr>"

lemma demo_keys_ok:
  assumes "started S" "0 \<notin> set keys" "length keys < 50"
  shows "update_ok (demo_keys S keys)" "kb_text (k_kbd (demo_keys S keys)) = keys"
proof -
  have "kbc_live (k_mach (demo_keys S keys))"
    unfolding kbc_live_def
    by (intro allI exI [of _ 0]) (simp add: demo_keys_def demo_kernel_def blank_def kbc_free_def inb_def Let_def)
  moreover have "kernel_ok (demo_keys S keys)" using demo_kernel_ok(1) [OF assms(1)] by (simp add: demo_keys_def kernel_ok_def)
  moreover have "0 \<in> set (replicate (50 - length keys) 0)" using assms(3) by simp
  ultimately show "update_ok (demo_keys S keys)" using assms(3)
    by (simp add: update_ok_def) (simp add: demo_keys_def kb_ok_def keyboard0_def)
  have "replicate (50 - length keys) (0 :: u8) = 0 # replicate (49 - length keys) 0"
    using assms(3) by (simp flip: replicate_Suc add: Suc_diff_le)
  then show "kb_text (k_kbd (demo_keys S keys)) = keys" using assms(2) by (simp add: demo_keys_def kb_text_def)
qed

theorem update_keeps_invariant_witness:
  "\<exists>S out. started S \<and> Shell_Update demo_platform (demo_keys S (str ''ls'' @ [0x0A])) = Some out"
proof (rule sample_shell)
  fix S assume s: "started S"
  have "0 \<notin> set (str ''ls'' @ [0x0A])" "length (str ''ls'' @ [0x0A]) < 50" by simp_all
  from update_keeps_invariant [OF demo_keys_ok(1) [OF s this] demo_kernel_ok(2)] s show ?thesis by blast
qed

text \<open>C26: once Enter is in the line buffer, the next tick echoes the prompt and the line above the older output,
  empties the buffer, and runs the line: all of it up to a final line feed, so that keys which
  arrived after Enter and before the tick are part of the command.\<close>

theorem update_executes:
  assumes "update_ok K" "was_updated (k_kbd K)" "function_key (k_kbd K) = 0" "0x0A \<in> set (kb_text (k_kbd K))"
    "1 < length (kb_text (k_kbd K))"
  shows "\<exists>K1. kb_text (k_kbd K1) = [] \<and> K1 = K\<lparr>k_mach := k_mach K1, k_shell := k_shell K1, k_kbd := k_kbd K1\<rparr>
    \<and> visible (k_shell K1) = scrolled (visible (k_shell K)) (map (row_cells (blank_cell (k_shell K)) (terminal_color_echo palette))
        (rows_from [] (str ''Shiro> '' @ typed (kb_text (k_kbd K)))))
    \<and> Shell_Update E K = Option.bind (Execute E (typed (kb_text (k_kbd K))) K1) (\<lambda>out. and_then out finish_command)"
proof -
  let ?t = "kb_text (k_kbd K)"
  let ?K = "K\<lparr>k_kbd := taken (k_kbd K)\<rparr>"
  from Shell_Update_eq [OF assms(1), of E] assms(2-5) have
    k: "update_ok ?K" and u: "Shell_Update E K = Option.bind (clean_footer ?K) (run_command E ?t)"
    by auto
  have t: "0 \<notin> set ?t" "length ?t < 50" using kb_text_nonzero kb_text_length assms(1) by (auto simp: update_ok_def)
  from clean_footer_step [OF update_ok_started [OF k] update_ok_size [OF k]] obtain K2 where
    c: "clean_footer ?K = Some K2" "console_step ?K K2" "same_but {} (k_shell ?K) (k_shell K2)" by blast
  note o2 = update_ok_step [OF k c(2)]
  from run_command_eq [OF o2 t, of E] obtain kb where kb: "kb_text kb = []" and
    r: "run_command E ?t K2 = Option.bind (Execute E (typed ?t)
      (K2\<lparr>k_shell := after_rows (terminal_color_echo palette) (rows_from [] (str ''Shiro> '' @ typed ?t)) (k_shell K2),
         k_kbd := kb\<rparr>)) (\<lambda>out. and_then out finish_command)" by blast
  let ?S = "after_rows (terminal_color_echo palette) (rows_from [] (str ''Shiro> '' @ typed ?t)) (k_shell K2)"
  have "length (str ''Shiro> '' @ typed ?t) \<le> 79" using t(2) by (auto simp: typed_def)
  from line_fits_short [OF this] have "fits (rows_from [] (str ''Shiro> '' @ typed ?t))" unfolding line_fits_def .
  from after_rows_visible(1) [OF started_geo(1) [OF update_ok_started [OF o2]] this, of "terminal_color_echo palette"]
  have "visible ?S = scrolled (visible (k_shell K)) (map (row_cells (blank_cell (k_shell K)) (terminal_color_echo palette))
        (rows_from [] (str ''Shiro> '' @ typed ?t)))"
    using c(3) by (simp add: same_but_def visible_def content_def the_term_def blank_cell_def)
  moreover have "K2\<lparr>k_shell := T, k_kbd := b\<rparr> = K\<lparr>k_mach := k_mach K2, k_shell := T, k_kbd := b\<rparr>" for T b
    using c(2) by (auto simp: console_step_def)
  ultimately show ?thesis using u c(1) r kb
    by (intro exI [of _ "K2\<lparr>k_shell := ?S, k_kbd := kb\<rparr>"]) (auto simp del: str_simps)
qed

theorem update_executes_witness:
  "\<exists>S K1. started S \<and> kb_text (k_kbd K1) = [] \<and> Shell_Update demo_platform (demo_keys S (str ''ticks'' @ [0x0A, 0x78]))
     = Option.bind (Execute demo_platform (str ''ticks'' @ [0x0A, 0x78]) K1) (\<lambda>out. and_then out finish_command)"
proof (rule sample_shell)
  fix S assume s: "started S"
  let ?k = "str ''ticks'' @ [0x0A, 0x78]"
  have k: "0 \<notin> set ?k" "length ?k < 50" by simp_all
  have f: "was_updated (k_kbd (demo_keys S ?k))" "function_key (k_kbd (demo_keys S ?k)) = 0"
    by (simp_all add: demo_keys_def keyboard0_def)
  have "typed ?k = ?k" by (simp add: typed_def)
  with update_executes [OF demo_keys_ok(1) [OF s k] f, of demo_platform] demo_keys_ok(2) [OF s k] s
  show ?thesis by (auto simp del: str_simps)
qed

text \<open>C36: Enter is never left in the line buffer. Whatever keys are pressed from an empty line on, as long as
  they fit the buffer: if Enter has been taken, the next tick of the shell, after a switch of terminals
  if there was a function key among them, empties the buffer and dispatches a command, and the command
  is not empty. It does not wait in the buffer for a key to come.\<close>

theorem update_runs_line:
  assumes "update_ok K" "kb_text (k_kbd K) = []" "scancodes scs (k_kbd K) = Some kb" "0x0A \<in> set (kb_text kb)"
  shows "typed (kb_text kb) \<noteq> []
    \<and> (\<exists>K1. update_ok K1 \<and> kb_text (k_kbd K1) = [] \<and> Shell_Update E (K\<lparr>k_kbd := kb\<rparr>)
          = Option.bind (Dispatch E (typed (kb_text kb)) K1) (\<lambda>out. and_then out finish_command))"
proof -
  let ?t = "kb_text kb" and ?K = "K\<lparr>k_kbd := kb\<rparr>"
  have "typing_ok (k_kbd K)" using assms(1,2) by (simp add: typing_ok_def update_ok_def)
  from scancodes_typing_ok [OF this assms(3)] have lo: "typing_ok kb" .
  note lf = line_feed_inside [OF lo assms(4)]
  have "update_ok ?K" using assms(1) lo by (simp add: update_ok_def kernel_ok_def typing_ok_def)
  from Shell_Update_eq [OF this, of E] lf(1,2) assms(4) obtain K1 where
    k: "update_ok K1" and u: "Shell_Update E ?K = Option.bind (clean_footer K1) (run_command E ?t)" by auto
  have t: "0 \<notin> set ?t" "length ?t < 50" using kb_text_nonzero kb_text_length lo by (auto simp: typing_ok_def)
  from clean_footer_step [OF update_ok_started [OF k] update_ok_size [OF k]] obtain K2 where
    c: "clean_footer K1 = Some K2" "console_step K1 K2" by blast
  note o2 = update_ok_step [OF k c(2)]
  from run_command_to [OF o2 t, of E] u c(1) lf(3) show ?thesis by (auto simp: Execute_def)
qed

lemma typed_ls:
  "scancodes [0x26, 0x1F, 0x9F, 0x1C] keyboard0 = Some (keyboard0\<lparr>kb_buffer := str ''ls'' @ 0x0A # replicate 47 0, was_updated := True\<rparr>)"
  by code_simp

theorem update_runs_line_witness:
  "\<exists>S kb K1. started S \<and> scancodes [0x26, 0x1F, 0x9F, 0x1C] keyboard0 = Some kb
     \<and> Shell_Update demo_platform ((demo_kernel S)\<lparr>k_kbd := kb\<rparr>)
       = Option.bind (Dispatch demo_platform (str ''ls'') K1) (\<lambda>out. and_then out finish_command)"
proof (rule sample_shell)
  fix S assume s: "started S"
  let ?K = "(demo_kernel S)\<lparr>k_kbd := keyboard0\<rparr>"
  let ?kb = "keyboard0\<lparr>kb_buffer := str ''ls'' @ 0x0A # replicate 47 0, was_updated := True\<rparr>"
  have "update_ok (demo_keys S [])" using demo_keys_ok(1) [OF s] by simp
  then have "update_ok ?K" by (simp add: update_ok_def kernel_ok_def demo_keys_def kb_ok_def keyboard0_def)
  moreover have "kb_text (k_kbd ?K) = []" by (simp add: kb_text_def keyboard0_def)
  moreover have "scancodes [0x26, 0x1F, 0x9F, 0x1C] (k_kbd ?K) = Some ?kb" using typed_ls by simp
  moreover have t: "kb_text ?kb = str ''ls'' @ [0x0A]" by (simp add: kb_text_def)
  moreover have "0x0A \<in> set (kb_text ?kb)" unfolding t by simp
  ultimately obtain K1 where "Shell_Update demo_platform (?K\<lparr>k_kbd := ?kb\<rparr>)
     = Option.bind (Dispatch demo_platform (typed (kb_text ?kb)) K1) (\<lambda>out. and_then out finish_command)"
    using update_runs_line [of ?K "[0x26, 0x1F, 0x9F, 0x1C]" ?kb demo_platform] by blast
  moreover have "typed (kb_text ?kb) = str ''ls''" unfolding t by (simp add: typed_def)
  ultimately show ?thesis using s typed_ls
    by (intro exI [of _ S] exI [of _ ?kb] exI [of _ K1]) simp
qed

end
