(* ===== verification/Demo_Tasks.thy ===== *)
theory Demo_Tasks
  imports Shell_Update
begin

text \<open>
  \<open>System::DemoTasks\<close> (src/src/src/classes/tasks.class.h): the four background tasks.  A task is
  an endless loop that paints something, repaints the screen and sleeps; its model is one round
  of the loop up to the \<open>Sleep\<close>, on the task's own variables and the kernel.  Each owns cells of
  the header or the status bar that nobody else writes.
\<close>

unbundle bit_operations_syntax

section \<open>The rounds of the tasks\<close>

definition header_cell :: "nat \<Rightarrow> u8 \<Rightarrow> kernel \<Rightarrow> kernel option" where
  "header_cell col c K = map_option (\<lambda>S. K\<lparr>k_shell := S\<rparr>)
     (set_header col (setColor c (header_color (colours (k_shell K)))) (k_shell K))"

definition spinner_frames :: "u8 list" where
  "spinner_frames = [0x7C, 0x2F, 0x2D, 0x5C]"

definition task_spinner :: "u32 \<times> kernel \<Rightarrow> (u32 \<times> kernel) option" where
  "task_spinner = (\<lambda>(i, K). do {
     K1 \<leftarrow> header_cell 66 (spinner_frames ! unat (i AND 3)) K;
     K2 \<leftarrow> repaint_screen K1;
     Some (i + 1, K2) })"

definition task_heartbeat :: "bool \<times> kernel \<Rightarrow> (bool \<times> kernel) option" where
  "task_heartbeat = (\<lambda>(on, K). do {
     K1 \<leftarrow> header_cell 64 (if on then 0x03 else 0x20) K;
     K2 \<leftarrow> repaint_screen K1;
     Some (\<not> on, K2) })"

text \<open>\<open>HH:MM:SS\<close> of the tick count, as bytes.\<close>

definition clock_bytes :: "u32 \<Rightarrow> u8 list" where
  "clock_bytes now =
     (let total_sec = now div TICK_HZ; h = total_sec div 3600; m = (total_sec div 60) mod 60; s = total_sec mod 60
      in u32_to_2digit h @ [0x3A] @ u32_to_2digit m @ [0x3A] @ u32_to_2digit s)"

definition task_clock :: "platform \<Rightarrow> kernel \<Rightarrow> kernel option" where
  "task_clock E K = do {
     (buf, j) \<leftarrow> emit_all 10 (map Raw (clock_bytes (ticks (k_timer K))) @ [Nul]) (fresh E 10, 0);
     K1 \<leftarrow> for_each (\<lambda>i K. do { c \<leftarrow> aget buf i; header_cell (70 + i) c K }) [0..<8] K;
     repaint_screen K1 }"

definition statusbar_pieces :: "kernel \<Rightarrow> piece list" where
  "statusbar_pieces K =
     (let now = ticks (k_timer K); H = k_heap K; bar = [0x20, 0x20, 0xB3, 0x20, 0x20]
      in map Raw (str '' up '' @ clock_bytes now) @ map Raw (bar @ str ''mem '')
         @ [Num (bytes_used H div 1024)] @ map Raw (str ''K/'')
         @ [Num ((bytes_used H + bytes_free H) div (1024 * 1024)), Raw 0x4D]
         @ map Raw (bar @ str ''pmm '') @ [Num (free_pages (k_pmm K) div 256)] @ map Raw (str ''M free'')
         @ map Raw (bar @ str ''tasks '') @ [Num (of_nat (Task_Count (k_sched K)))]
         @ map Raw (bar @ str ''ticks '') @ [Num now, Nul])"

text \<open>\<open>buf\<close> is declared outside the loop: a round starts with what the last one left.\<close>

definition task_statusbar :: "u8 list \<times> kernel \<Rightarrow> (u8 list \<times> kernel) option" where
  "task_statusbar = (\<lambda>(buf, K). do {
     (text, buf') \<leftarrow> build (statusbar_pieces K) buf;
     S \<leftarrow> RenderStatus text (k_shell K);
     K1 \<leftarrow> repaint_screen (K\<lparr>k_shell := S\<rparr>);
     Some (buf', K1) })"

section \<open>What a round changes\<close>

text \<open>The header with one cell replaced, the screen memory repainted, and nothing else.\<close>

definition with_header :: "u16 list \<Rightarrow> kernel \<Rightarrow> kernel" where
  "with_header h K = K\<lparr>k_shell := (k_shell K)\<lparr>terminal_screen_header := h\<rparr>\<rparr>"

lemma header_cell_eq:
  assumes "shell_geo (k_shell K)" "col < 80"
  shows "header_cell col c K = Some (with_header ((terminal_screen_header (k_shell K))
    [col := setColor c (header_color (colours (k_shell K)))]) K)"
  using assms by (simp add: header_cell_def set_header_def aset_def shell_geo_def with_header_def)

lemma with_header_geo [simp]:
  "length h = 80 \<Longrightarrow> shell_geo (k_shell K) \<Longrightarrow> shell_geo (k_shell (with_header h K))"
  "k_timer (with_header h K) = k_timer K" "k_kbd (with_header h K) = k_kbd K" "k_mach (with_header h K) = k_mach K"
  "screen (k_shell (with_header h K)) = screen (k_shell K)" "colours (k_shell (with_header h K)) = colours (k_shell K)"
  "terminal_screen_header (k_shell (with_header h K)) = h" "with_header h' (with_header h K) = with_header h' K"
  by (simp_all add: shell_geo_def with_header_def)

lemma header_cells_loop:
  assumes "shell_geo (k_shell K)" "n \<le> 8" "length buf = 10"
  shows "for_each (\<lambda>i K. do { c \<leftarrow> aget buf i; header_cell (70 + i) c K }) [0..<n] K
    = Some (with_header (take 70 (terminal_screen_header (k_shell K))
        @ map (\<lambda>c. setColor c (header_color (colours (k_shell K)))) (take n buf)
        @ drop (70 + n) (terminal_screen_header (k_shell K))) K)"
  using assms(2)
proof (induction n)
  case 0
  then show ?case by (simp add: with_header_def)
next
  case (Suc n)
  let ?h = "terminal_screen_header (k_shell K)" and ?c = "\<lambda>c. setColor c (header_color (colours (k_shell K)))"
  let ?hn = "take 70 ?h @ map ?c (take n buf) @ drop (70 + n) ?h"
  have l: "length ?h = 80" using assms(1) by (simp add: shell_geo_def)
  have ln: "length ?hn = 80" using Suc.prems assms(3) l by simp
  have "?hn[70 + n := ?c (buf ! n)] = take 70 ?h @ map ?c (take (Suc n) buf) @ drop (70 + Suc n) ?h"
    using Suc.prems assms(3) l
    by (simp add: list_update_append drop_update_swap Cons_nth_drop_Suc [symmetric] take_Suc_conv_app_nth)
  moreover have "[0..<Suc n] = [0..<n] @ [n]" by simp
  ultimately show ?case
    using Suc assms(3) header_cell_eq [of "with_header ?hn K" "70 + n" "buf ! n"] with_header_geo(1) [OF ln assms(1)]
    by (simp only: for_each_append) (simp add: aget_def)
qed

lemma repaint_screen_eq:
  assumes "shell_geo (k_shell K)" "screen (k_shell K) = SCREEN_ADDR" "GetBufferSize (k_kbd K) = Some n"
  shows "\<exists>M. repaint_screen K = Some (K\<lparr>k_mach := M\<rparr>) \<and> (\<forall>p < 2000. cell (ram M) p = shown (k_shell K) p)"
  using UpdateScreen_shown [OF assms, of "k_mach K"] by (auto simp: repaint_screen_def)

lemma length_clock_bytes [simp]: "length (clock_bytes now) = 8"
  by (simp add: clock_bytes_def u32_to_2digit_def Let_def)

lemma two_digits_nonzero: "0 \<notin> set (u32_to_2digit v)"
proof -
  have "(0x30 + ucast (w mod 10) :: u8) \<noteq> 0" for w :: u32
  proof -
    have u: "unat (w mod 10) < 10" by (simp add: unat_mod)
    then have "(ucast (w mod 10) :: u8) = of_nat (unat (w mod 10))" by simp
    then show ?thesis using digit_nonzero [OF u] by metis
  qed
  from this [of "v div 10"] this [of v] show ?thesis by (auto simp: u32_to_2digit_def)
qed

lemma clock_bytes_nonzero: "0 \<notin> set (clock_bytes now)"
  by (simp add: clock_bytes_def Let_def two_digits_nonzero)

section \<open>The status bar\<close>

lemma set_status_eq:
  "i < length (terminal_screen_status S) \<Longrightarrow>
     set_status i v S = Some (S\<lparr>terminal_screen_status := (terminal_screen_status S)[i := v]\<rparr>)"
  by (simp add: set_status_def aset_def)

lemma status_fill_eq:
  assumes "shell_geo S"
  shows "status_fill S = Some (S\<lparr>terminal_screen_status := take 80 (terminal_screen_status S)
    @ replicate 80 (setColor 0x20 (status_color (colours S)))\<rparr>)"
proof -
  let ?v = "setColor 0x20 (status_color (colours S))"
  have l: "length (terminal_screen_status S) = 160" using assms by (simp add: shell_geo_def)
  have "for_each (\<lambda>pos. set_status pos ?v) [80..<80 + n] S = Some (S\<lparr>terminal_screen_status :=
      take 80 (terminal_screen_status S) @ replicate n ?v @ drop (80 + n) (terminal_screen_status S)\<rparr>)" if "n \<le> 80" for n
    using that
  proof (induction n)
    case (Suc n)
    have "[80..<80 + Suc n] = [80..<80 + n] @ [80 + n]" by (simp only: add_Suc_right upt_Suc_append le_add1)
    moreover have "(take 80 (terminal_screen_status S) @ replicate n ?v @ drop (80 + n) (terminal_screen_status S))[80 + n := ?v]
      = take 80 (terminal_screen_status S) @ replicate (Suc n) ?v @ drop (80 + Suc n) (terminal_screen_status S)"
      using Suc.prems l by (simp add: list_update_append drop_update_swap replicate_append_same [symmetric] Cons_nth_drop_Suc [symmetric])
    ultimately show ?case using Suc l by (simp only: for_each_append) (simp add: set_status_eq)
  qed simp
  from this [of 80] l show ?thesis
    using shell_geo_sel(1) [OF assms] by (simp add: status_fill_def del: upt_rec_numeral)
qed

lemma status_text_eq:
  assumes "limit \<le> length (terminal_screen_status S)" "col \<le> limit"
  shows "status_text cs col limit S = Some (S\<lparr>terminal_screen_status := take col (terminal_screen_status S)
    @ map (\<lambda>c. setColor c (status_color (colours S))) (take (limit - col) cs)
    @ drop (col + length (take (limit - col) cs)) (terminal_screen_status S)\<rparr>)"
  using assms
proof (induction cs arbitrary: col S)
  case (Cons c cs)
  let ?xs = "terminal_screen_status S" and ?v = "setColor c (status_color (colours S))"
  show ?case
  proof (cases "col < limit")
    case True
    let ?S = "S\<lparr>terminal_screen_status := ?xs[col := ?v]\<rparr>"
    have s: "set_status col ?v S = Some ?S" using True Cons.prems by (simp add: set_status_eq)
    have t: "take (Suc col) (?xs[col := ?v]) = take col ?xs @ [?v]"
      using True Cons.prems by (simp add: take_Suc_conv_app_nth)
    have m: "limit - col = Suc (limit - Suc col)" using True by simp
    have "drop (Suc col + k) (?xs[col := ?v]) = drop (Suc col + k) ?xs" for k by simp
    with Cons.IH [of ?S "Suc col"] s t True Cons.prems show ?thesis unfolding m by simp
  qed (use Cons.prems in simp)
qed simp

text \<open>The status row with a text: a margin, the first 78 characters, blanks.\<close>

definition status_row :: "shell \<Rightarrow> u8 list \<Rightarrow> u16 list" where
  "status_row S text = map (\<lambda>c. setColor c (status_color (colours S)))
     ([0x20] @ take 78 text @ replicate (79 - length (take 78 text)) 0x20)"

lemma RenderStatus_eq:
  assumes "shell_geo S"
  shows "RenderStatus text S = Some (S\<lparr>terminal_screen_status := take 80 (terminal_screen_status S) @ status_row S text\<rparr>)"
proof -
  let ?b = "setColor 0x20 (status_color (colours S))"
  let ?S = "S\<lparr>terminal_screen_status := take 80 (terminal_screen_status S) @ replicate 80 ?b\<rparr>"
  have l: "length (terminal_screen_status S) = 160" using assms by (simp add: shell_geo_def)
  have "status_text text 81 159 ?S = Some (?S\<lparr>terminal_screen_status := take 81 (terminal_screen_status ?S)
      @ map (\<lambda>c. setColor c (status_color (colours S))) (take 78 text)
      @ drop (81 + length (take 78 text)) (terminal_screen_status ?S)\<rparr>)"
    using status_text_eq [of 159 ?S 81 "text"] l by simp
  moreover have "take 81 (terminal_screen_status ?S) = take 80 (terminal_screen_status S) @ [?b]" using l by simp
  moreover have "drop (81 + length (take 78 text)) (terminal_screen_status ?S) = replicate (79 - length (take 78 text)) ?b"
    using l by simp
  ultimately show ?thesis
    using shell_geo_sel(1) [OF assms] status_fill_eq [OF assms]
    by (simp add: RenderStatus_def status_row_def map_replicate)
qed

definition bar_prefix :: "kernel \<Rightarrow> u8 list" where
  "bar_prefix K =
     (let H = k_heap K; bar = [0x20, 0x20, 0xB3, 0x20, 0x20] in
      str '' up '' @ clock_bytes (ticks (k_timer K)) @ bar @ str ''mem '' @ dec (unat (bytes_used H) div 1024) @ str ''K/''
      @ dec (unat (bytes_used H + bytes_free H) div 1048576) @ str ''M'' @ bar @ str ''pmm ''
      @ dec (unat (free_pages (k_pmm K)) div 256) @ str ''M free'' @ bar @ str ''tasks ''
      @ dec (Task_Count (k_sched K)) @ bar @ str ''ticks '')"

lemma Task_Count_8: "Task_Count S \<le> 8"
  using length_filter_le [of _ "[0..<MAX_TASKS]"] by (simp add: Task_Count_def MAX_TASKS_def)

lemma bar_prefix_length:
  assumes "unat (free_pages (k_pmm K)) \<le> 0x100000"
  shows "length (bar_prefix K) \<le> 77"
proof -
  have "length (dec (unat (bytes_used (k_heap K)) div 1024)) \<le> 7"
    using unat_u32_less [of "bytes_used (k_heap K)"] by (intro dec_length) (auto simp: less_mult_imp_div_less)
  moreover have "length (dec (unat (bytes_used (k_heap K) + bytes_free (k_heap K)) div 1048576)) \<le> 4"
    using unat_u32_less [of "bytes_used (k_heap K) + bytes_free (k_heap K)"]
    by (intro dec_length) (auto simp: less_mult_imp_div_less)
  moreover have "length (dec (unat (free_pages (k_pmm K)) div 256)) \<le> 4"
    using assms by (intro dec_length) (auto simp: less_mult_imp_div_less)
  moreover have "length (dec (Task_Count (k_sched K))) \<le> 1"
    using Task_Count_8 [of "k_sched K"] by (intro dec_length) auto
  ultimately show ?thesis by (simp add: bar_prefix_def Let_def)
qed

definition bar_pieces :: "kernel \<Rightarrow> piece list" where
  "bar_pieces K = butlast (butlast (statusbar_pieces K))"

lemma plain_raws: "concat (map plain_text (map Raw cs)) = cs"
  by (induction cs) simp_all

lemma bar_pieces_append:
  "statusbar_pieces K = bar_pieces K @ [Num (ticks (k_timer K)), Nul]"
  by (simp add: bar_pieces_def statusbar_pieces_def Let_def butlast_append)

lemma bar_pieces_plain:
  "\<forall>x \<in> set (bar_pieces K). plain_piece x \<and> (x = Nul \<or> plain_text x \<noteq> [] \<or> (\<exists>s. x = Str s))"
  "concat (map plain_text (bar_pieces K)) = bar_prefix K"
proof -
  have n: "unat (of_nat (Task_Count (k_sched K)) :: u32) = Task_Count (k_sched K)"
    using Task_Count_8 [of "k_sched K"] by (intro unat_of_nat_u32) simp
  show "\<forall>x \<in> set (bar_pieces K). plain_piece x \<and> (x = Nul \<or> plain_text x \<noteq> [] \<or> (\<exists>s. x = Str s))"
    using clock_bytes_nonzero [of "ticks (k_timer K)"]
    by (auto simp: bar_pieces_def statusbar_pieces_def Let_def butlast_append)
  show "concat (map plain_text (bar_pieces K)) = bar_prefix K"
    by (simp add: bar_pieces_def statusbar_pieces_def bar_prefix_def Let_def butlast_append plain_raws n unat_div comp_def)
qed

lemma pieces_ok_append:
  "pieces_ok n p (xs @ ys) \<longleftrightarrow> pieces_ok n p xs \<and> pieces_ok n (foldl (piece_text n) p xs) ys"
  by (induction xs arbitrary: p) auto

lemma statusbar_line:
  assumes "unat (free_pages (k_pmm K)) \<le> 0x100000"
  shows "line_ok 80 (statusbar_pieces K)"
    "text_of 80 (statusbar_pieces K) = take 79 (bar_prefix K @ dec (unat (ticks (k_timer K))))"
proof -
  note b = bar_pieces_plain [of K]
  have l: "length ([] @ concat (map plain_text (bar_pieces K))) < 80" using bar_prefix_length [OF assms] b(2) by simp
  have f: "foldl (piece_text 80) [] (bar_pieces K) = bar_prefix K" using plain_line [OF _ l] b by simp
  have "pieces_ok 80 [] (bar_pieces K)" using plain_pieces_ok [OF _ l] b(1) by blast
  then show "line_ok 80 (statusbar_pieces K)"
    unfolding line_ok_def bar_pieces_append pieces_ok_append f by simp
  show "text_of 80 (statusbar_pieces K) = take 79 (bar_prefix K @ dec (unat (ticks (k_timer K))))"
    unfolding text_of_def bar_pieces_append foldl_append f by simp
qed

section \<open>The rounds\<close>

definition painting :: "kernel \<Rightarrow> bool" where
  "painting K \<longleftrightarrow> started (k_shell K) \<and> GetBufferSize (k_kbd K) \<noteq> None"

lemma painting_geo: "painting K \<Longrightarrow> shell_geo (k_shell K)" "painting K \<Longrightarrow> screen (k_shell K) = SCREEN_ADDR"
  by (auto simp: painting_def started_def shell_ok_def)

lemma repaint:
  assumes "painting K" "length h = 80"
  shows "\<exists>M. repaint_screen (with_header h K) = Some ((with_header h K)\<lparr>k_mach := M\<rparr>)
    \<and> (\<forall>p < 2000. cell (ram M) p = shown (k_shell (with_header h K)) p)"
proof -
  obtain n where "GetBufferSize (k_kbd (with_header h K)) = Some n" using assms(1) by (auto simp: painting_def)
  from repaint_screen_eq [OF _ _ this] painting_geo [OF assms(1)] assms(2) show ?thesis by simp
qed

text \<open>The colour of the header, and what each task makes of the header row.\<close>

definition header_mark :: "kernel \<Rightarrow> u8 \<Rightarrow> u16" where
  "header_mark K c = setColor c (header_color (colours (k_shell K)))"

definition spun :: "u32 \<Rightarrow> kernel \<Rightarrow> u16 list" where
  "spun i K = (terminal_screen_header (k_shell K))[66 := header_mark K (spinner_frames ! unat (i AND 3))]"

definition beaten :: "bool \<Rightarrow> kernel \<Rightarrow> u16 list" where
  "beaten on K = (terminal_screen_header (k_shell K))[64 := header_mark K (if on then 0x03 else 0x20)]"

definition clocked :: "kernel \<Rightarrow> u16 list" where
  "clocked K = (let h = terminal_screen_header (k_shell K)
     in take 70 h @ map (header_mark K) (clock_bytes (ticks (k_timer K))) @ drop 78 h)"

lemma header_80: "painting K \<Longrightarrow> length (terminal_screen_header (k_shell K)) = 80"
  using painting_geo by (simp add: shell_geo_def)

lemma length_painted [simp]:
  "painting K \<Longrightarrow> length (spun i K) = 80" "painting K \<Longrightarrow> length (beaten on K) = 80" "painting K \<Longrightarrow> length (clocked K) = 80"
  using header_80 [of K] by (simp_all add: spun_def beaten_def clocked_def Let_def)

lemma task_spinner_eq:
  assumes "painting K"
  shows "\<exists>M. task_spinner (i, K) = Some (i + 1, (with_header (spun i K) K)\<lparr>k_mach := M\<rparr>)
    \<and> (\<forall>p < 2000. cell (ram M) p = shown (k_shell (with_header (spun i K) K)) p)"
  using repaint [OF assms, of "spun i K"] assms header_cell_eq [OF painting_geo(1) [OF assms], of 66]
  by (auto simp: task_spinner_def spun_def header_mark_def header_80)

lemma task_heartbeat_eq:
  assumes "painting K"
  shows "\<exists>M. task_heartbeat (on, K) = Some (\<not> on, (with_header (beaten on K) K)\<lparr>k_mach := M\<rparr>)
    \<and> (\<forall>p < 2000. cell (ram M) p = shown (k_shell (with_header (beaten on K) K)) p)"
  using repaint [OF assms, of "beaten on K"] assms header_cell_eq [OF painting_geo(1) [OF assms], of 64]
  by (auto simp: task_heartbeat_def beaten_def header_mark_def header_80)

lemma task_clock_eq:
  assumes "painting K"
  shows "\<exists>M. task_clock E K = Some ((with_header (clocked K) K)\<lparr>k_mach := M\<rparr>)
    \<and> (\<forall>p < 2000. cell (ram M) p = shown (k_shell (with_header (clocked K) K)) p)"
proof -
  let ?c = "clock_bytes (ticks (k_timer K))"
  have "pieces_ok 10 [] (map Raw ?c @ [Nul])" by (simp add: pieces_raws clock_bytes_nonzero)
  from emit_all_step [OF holds_fresh [of 10 E] this] obtain b m where
    b: "emit_all 10 (map Raw ?c @ [Nul]) (fresh E 10, 0) = Some (b, m)"
      "holds 10 (foldl (piece_text 10) [] (map Raw ?c @ [Nul])) (b, m)" by auto
  have raws: "foldl (piece_text 10) q (map Raw cs) = q @ cs" for q cs by (induction cs arbitrary: q) auto
  have "take m b = ?c" "length b = 10" "m = 8" using b(2) by (auto simp: raws)
  then have t: "take 8 b = ?c" "length b = 10" by simp_all
  have "for_each (\<lambda>i K. do { c \<leftarrow> aget b i; header_cell (70 + i) c K }) [0..<8] K = Some (with_header (clocked K) K)"
    using header_cells_loop [OF painting_geo(1) [OF assms] order_refl t(2)] t(1)
    by (simp add: clocked_def header_mark_def [abs_def] Let_def del: upt_rec_numeral)
  with b(1) repaint [OF assms, of "clocked K"] assms show ?thesis
    unfolding task_clock_def by (simp only: Option.bind.simps prod.case) (simp add: assms)
qed

lemma task_statusbar_eq:
  assumes "painting K" "unat (free_pages (k_pmm K)) \<le> 0x100000" "length buf = 80"
  shows "\<exists>M S b. task_statusbar (buf, K) = Some (b, K\<lparr>k_mach := M, k_shell := S\<rparr>) \<and> length b = 80
    \<and> S = (k_shell K)\<lparr>terminal_screen_status := take 80 (terminal_screen_status (k_shell K))
        @ status_row (k_shell K) (take 79 (bar_prefix K @ dec (unat (ticks (k_timer K)))))\<rparr>
    \<and> (\<forall>p < 2000. cell (ram M) p = shown S p)"
proof -
  note l = statusbar_line [OF assms(2)]
  let ?t = "take 79 (bar_prefix K @ dec (unat (ticks (k_timer K))))"
  let ?S = "(k_shell K)\<lparr>terminal_screen_status := take 80 (terminal_screen_status (k_shell K)) @ status_row (k_shell K) ?t\<rparr>"
  from build_text [of buf "statusbar_pieces K"] l assms(3) obtain b where
    b: "build (statusbar_pieces K) buf = Some (?t, b)" "length b = 80" by auto
  note g = painting_geo [OF assms(1)]
  have r: "RenderStatus ?t (k_shell K) = Some ?S" by (rule RenderStatus_eq [OF g(1)])
  have "length (status_row (k_shell K) ?t) = 80" by (simp add: status_row_def)
  then have "shell_geo ?S" "screen ?S = SCREEN_ADDR" using g by (simp_all add: shell_geo_def)
  moreover obtain n where "GetBufferSize (k_kbd K) = Some n" using assms(1) by (auto simp: painting_def)
  ultimately obtain M where "repaint_screen (K\<lparr>k_shell := ?S\<rparr>) = Some (K\<lparr>k_shell := ?S, k_mach := M\<rparr>)"
    "\<forall>p < 2000. cell (ram M) p = shown ?S p"
    using repaint_screen_eq [of "K\<lparr>k_shell := ?S\<rparr>" n] by auto
  with b r show ?thesis unfolding task_statusbar_def prod.case
    by (simp only: Option.bind.simps prod.case) (auto intro!: exI [of _ M])
qed

section \<open>Properties\<close>

lemma round_painting:
  assumes "painting K" "length h = 80"
  shows "painting ((with_header h K)\<lparr>k_mach := M\<rparr>)"
proof -
  have "shell_ok (k_shell (with_header h K))"
    using assms painting_geo(1) [of K] with_header_geo(1) [of h K]
    by (auto simp: painting_def started_def shell_ok_def) (auto simp: with_header_def last_row_blank_def blank_cell_def)
  with assms(1) show ?thesis by (simp add: painting_def started_def)
qed

lemma painted_simps [simp]:
  "spun i ((with_header h K)\<lparr>k_mach := M\<rparr>) = h[66 := header_mark K (spinner_frames ! unat (i AND 3))]"
  "beaten on ((with_header h K)\<lparr>k_mach := M\<rparr>) = h[64 := header_mark K (if on then 0x03 else 0x20)]"
  "clocked ((with_header h K)\<lparr>k_mach := M\<rparr>) = take 70 h @ map (header_mark K) (clock_bytes (ticks (k_timer K))) @ drop 78 h"
  "with_header h' ((with_header h K)\<lparr>k_mach := M\<rparr>) = (with_header h' K)\<lparr>k_mach := M\<rparr>"
  by (simp_all add: spun_def beaten_def clocked_def header_mark_def with_header_def Let_def)

text \<open>Two ways to run two rounds, with the same shell and the same picture at the end.\<close>

definition same_picture :: "kernel option \<Rightarrow> kernel option \<Rightarrow> bool" where
  "same_picture x y \<longleftrightarrow> (\<exists>K1 K2. x = Some K1 \<and> y = Some K2 \<and> k_shell K1 = k_shell K2
     \<and> (\<forall>p < 2000. cell (ram (k_mach K1)) p = cell (ram (k_mach K2)) p))"

definition round_makes :: "(kernel \<Rightarrow> kernel option) \<Rightarrow> (kernel \<Rightarrow> u16 list) \<Rightarrow> bool" where
  "round_makes f h \<longleftrightarrow> (\<forall>K. painting K \<longrightarrow> length (h K) = 80 \<and> (\<exists>M. f K = Some ((with_header (h K) K)\<lparr>k_mach := M\<rparr>)
     \<and> (\<forall>p < 2000. cell (ram M) p = shown (k_shell (with_header (h K) K)) p)))"

lemma rounds_commute:
  assumes "round_makes f h" "round_makes g k" "painting K"
    "\<And>M N. h ((with_header (k K) K)\<lparr>k_mach := M\<rparr>) = k ((with_header (h K) K)\<lparr>k_mach := N\<rparr>)"
  shows "same_picture (Option.bind (f K) g) (Option.bind (g K) f)"
proof -
  from assms(1,3) obtain M1 where
    f: "f K = Some ((with_header (h K) K)\<lparr>k_mach := M1\<rparr>)" "length (h K) = 80" by (auto simp: round_makes_def)
  from assms(2,3) obtain M2 where
    g: "g K = Some ((with_header (k K) K)\<lparr>k_mach := M2\<rparr>)" "length (k K) = 80" by (auto simp: round_makes_def)
  let ?K1 = "(with_header (h K) K)\<lparr>k_mach := M1\<rparr>" and ?K2 = "(with_header (k K) K)\<lparr>k_mach := M2\<rparr>"
  let ?h = "h ?K2"
  have e: "k ?K1 = ?h" using assms(4) [of M2 M1] by simp
  have p: "painting ?K1" "painting ?K2" using round_painting assms(3) f(2) g(2) by blast+
  from assms(2) p(1) obtain N1 where
    n1: "g ?K1 = Some ((with_header ?h ?K1)\<lparr>k_mach := N1\<rparr>)" "\<forall>p < 2000. cell (ram N1) p = shown (k_shell (with_header ?h ?K1)) p"
    unfolding round_makes_def e [symmetric] by blast
  from assms(1) p(2) obtain N2 where
    n2: "f ?K2 = Some ((with_header ?h ?K2)\<lparr>k_mach := N2\<rparr>)" "\<forall>p < 2000. cell (ram N2) p = shown (k_shell (with_header ?h ?K2)) p"
    unfolding round_makes_def by blast
  have "k_shell (with_header ?h ?K1) = k_shell (with_header ?h ?K2)" by (simp add: with_header_def)
  with f g n1 n2 show ?thesis by (auto simp: same_picture_def)
qed

lemma round_spinner: "round_makes (\<lambda>K. map_option snd (task_spinner (i, K))) (spun i)"
  unfolding round_makes_def using task_spinner_eq [of _ i] by fastforce

lemma round_heartbeat: "round_makes (\<lambda>K. map_option snd (task_heartbeat (on, K))) (beaten on)"
  unfolding round_makes_def using task_heartbeat_eq [of _ on] by fastforce

lemma round_clock: "round_makes (task_clock E) clocked"
  unfolding round_makes_def using task_clock_eq [of _ E] by fastforce

text \<open>C35: the header tasks do not get in each other's way: spinner, heartbeat and clock leave the same shell
  and the same picture in whichever order two of them run, and none touches the columns of the tabs.\<close>

theorem header_tasks_commute:
  assumes "painting K"
  shows "same_picture (Option.bind (map_option snd (task_spinner (i, K))) (\<lambda>K. map_option snd (task_heartbeat (on, K))))
      (Option.bind (map_option snd (task_heartbeat (on, K))) (\<lambda>K. map_option snd (task_spinner (i, K))))
    \<and> same_picture (Option.bind (map_option snd (task_spinner (i, K))) (task_clock E))
      (Option.bind (task_clock E K) (\<lambda>K. map_option snd (task_spinner (i, K))))
    \<and> same_picture (Option.bind (map_option snd (task_heartbeat (on, K))) (task_clock E))
      (Option.bind (task_clock E K) (\<lambda>K. map_option snd (task_heartbeat (on, K))))
    \<and> take 64 (spun i K) = take 64 (terminal_screen_header (k_shell K))
    \<and> take 64 (beaten on K) = take 64 (terminal_screen_header (k_shell K))
    \<and> take 64 (clocked K) = take 64 (terminal_screen_header (k_shell K))"
proof (intro conjI)
  note h = header_80 [OF assms]
  show "same_picture (Option.bind (map_option snd (task_spinner (i, K))) (\<lambda>K. map_option snd (task_heartbeat (on, K))))
      (Option.bind (map_option snd (task_heartbeat (on, K))) (\<lambda>K. map_option snd (task_spinner (i, K))))"
    by (rule rounds_commute [OF round_spinner round_heartbeat assms]) (simp, simp add: spun_def beaten_def list_update_swap)
  show "same_picture (Option.bind (map_option snd (task_spinner (i, K))) (task_clock E))
      (Option.bind (task_clock E K) (\<lambda>K. map_option snd (task_spinner (i, K))))"
    by (rule rounds_commute [OF round_spinner round_clock assms])
      (simp, simp add: spun_def clocked_def Let_def h list_update_append take_update_swap)
  show "same_picture (Option.bind (map_option snd (task_heartbeat (on, K))) (task_clock E))
      (Option.bind (task_clock E K) (\<lambda>K. map_option snd (task_heartbeat (on, K))))"
    by (rule rounds_commute [OF round_heartbeat round_clock assms])
      (simp, simp add: beaten_def clocked_def Let_def h list_update_append take_update_swap)
qed (simp_all add: spun_def beaten_def clocked_def Let_def header_80 [OF assms] min_def)

theorem header_tasks_commute_witness:
  "\<exists>S. started S \<and> same_picture
      (Option.bind (map_option snd (task_spinner (2, demo_kernel S))) (task_clock demo_platform))
      (Option.bind (task_clock demo_platform (demo_kernel S)) (\<lambda>K. map_option snd (task_spinner (2, K))))"
proof (rule sample_shell)
  fix S assume s: "started S"
  have "painting (demo_kernel S)" using s new_shell_arrays(2) by (simp add: painting_def demo_kernel_def)
  from header_tasks_commute [OF this] s show ?thesis by blast
qed

definition two_digits :: "nat \<Rightarrow> u8 list" where
  "two_digits d = [0x30 + of_nat (d div 10), 0x30 + of_nat (d mod 10)]"

lemma u32_to_2digit_two: "u32_to_2digit v = two_digits (unat v mod 100)"
proof -
  have w: "(ucast w :: u8) = of_nat (unat w)" for w :: u32 by simp
  have "unat v div 10 mod 10 = unat v mod 100 div 10" "unat v mod 10 = unat v mod 100 mod 10"
    using mod_mult2_eq [of "unat v" 10 10] by (simp_all add: mod_mod_cancel)
  moreover have "unat (v div 10 mod 10) = unat v div 10 mod 10" "unat (v mod 10) = unat v mod 10"
    by (simp_all add: unat_div unat_mod)
  ultimately show ?thesis unfolding u32_to_2digit_def two_digits_def w by metis
qed

lemma clock_bytes_time:
  "clock_bytes now = (let t = unat now div 100 in two_digits (t div 3600 mod 100) @ [0x3A]
     @ two_digits (t div 60 mod 60) @ [0x3A] @ two_digits (t mod 60))"
  by (simp add: clock_bytes_def Let_def u32_to_2digit_two unat_div unat_mod TICK_HZ_def)

text \<open>The clock shows the time since boot in columns 70 to 77, two digits each for hours (modulo 100),
  minutes and seconds, and leaves every other cell of the header as it was.\<close>

theorem clock_shows_time:
  assumes "painting K"
  shows "\<exists>K'. task_clock E K = Some K' \<and> (let t = unat (ticks (k_timer K)) div 100 in
      map (\<lambda>j. cell (ram (k_mach K')) (70 + j)) [0..<8] = map (header_mark K) (two_digits (t div 3600 mod 100) @ [0x3A]
        @ two_digits (t div 60 mod 60) @ [0x3A] @ two_digits (t mod 60)))
    \<and> (\<forall>p < 80. p \<notin> {70..77} \<longrightarrow> cell (ram (k_mach K')) p = terminal_screen_header (k_shell K) ! p)"
proof -
  let ?h = "terminal_screen_header (k_shell K)" and ?c = "clock_bytes (ticks (k_timer K))"
  from task_clock_eq [OF assms, of E] obtain M where
    m: "task_clock E K = Some ((with_header (clocked K) K)\<lparr>k_mach := M\<rparr>)"
      "\<forall>p < 2000. cell (ram M) p = shown (k_shell (with_header (clocked K) K)) p" by blast
  have s: "cell (ram M) p = clocked K ! p" if "p < 80" for p using m(2) that by (simp add: shown_def)
  have n: "clocked K ! p = (if p < 70 then ?h ! p else if p < 78 then header_mark K (?c ! (p - 70)) else ?h ! p)" if "p < 80" for p
    using that header_80 [OF assms] by (auto simp: clocked_def Let_def nth_append)
  have "map (\<lambda>j. cell (ram M) (70 + j)) [0..<8] = map (header_mark K) ?c"
    by (intro nth_equalityI) (simp_all add: s n del: upt_rec_numeral)
  moreover have "cell (ram M) p = ?h ! p" if "p < 80" "p \<notin> {70..77}" for p using that by (auto simp: s n)
  ultimately show ?thesis using m(1) by (auto simp: clock_bytes_time Let_def simp del: upt_rec_numeral)
qed

theorem clock_shows_time_witness:
  "\<exists>S K'. started S \<and> task_clock demo_platform (demo_kernel S) = Some K'
     \<and> map (\<lambda>j. cell (ram (k_mach K')) (70 + j)) [0..<8] = map (header_mark (demo_kernel S)) (str ''01:01:05'')"
proof (rule sample_shell)
  fix S assume s: "started S"
  have "painting (demo_kernel S)" using s new_shell_arrays(2) by (simp add: painting_def demo_kernel_def)
  moreover have "ticks (k_timer (demo_kernel S)) = 366542" by (simp add: demo_kernel_def)
  ultimately show ?thesis using s clock_shows_time [of "demo_kernel S" demo_platform]
    by (auto simp: two_digits_def Let_def simp del: upt_rec_numeral)
qed

text \<open>C34: a round of the status bar never writes outside its 80 bytes, whatever the heap counters and the tick
  count, as long as the free pages do not exceed the bitmap; row 1 then shows the metrics, cut
  after 78 characters, which only ever cuts the tick count.\<close>

theorem statusbar_fits:
  assumes "painting K" "unat (free_pages (k_pmm K)) \<le> 0x100000" "length buf = 80"
  shows "\<exists>buf' K'. task_statusbar (buf, K) = Some (buf', K') \<and> length buf' = 80 \<and> length (bar_prefix K) \<le> 77
    \<and> map (\<lambda>j. cell (ram (k_mach K')) (80 + j)) [0..<80]
        = status_row (k_shell K) (take 79 (bar_prefix K @ dec (unat (ticks (k_timer K)))))
    \<and> k_shell K' = (k_shell K)\<lparr>terminal_screen_status := terminal_screen_status (k_shell K')\<rparr>"
proof -
  let ?t = "take 79 (bar_prefix K @ dec (unat (ticks (k_timer K))))"
  from task_statusbar_eq [OF assms] obtain M S b where
    r: "task_statusbar (buf, K) = Some (b, K\<lparr>k_mach := M, k_shell := S\<rparr>)" "length b = 80"
      "S = (k_shell K)\<lparr>terminal_screen_status := take 80 (terminal_screen_status (k_shell K)) @ status_row (k_shell K) ?t\<rparr>"
      "\<forall>p < 2000. cell (ram M) p = shown S p" by blast
  have l: "length (terminal_screen_status (k_shell K)) = 160" "length (status_row (k_shell K) ?t) = 80"
    using painting_geo [OF assms(1)] by (simp_all add: shell_geo_def status_row_def)
  have "shown S (80 + j) = status_row (k_shell K) ?t ! j" if "j < 80" for j
    using that l by (simp add: shown_def r(3) nth_append)
  then have "map (\<lambda>j. cell (ram M) (80 + j)) [0..<80] = status_row (k_shell K) ?t"
    using r(4) l(2) by (intro nth_equalityI) (simp_all del: upt_rec_numeral)
  then show ?thesis using r(1-3) bar_prefix_length [OF assms(2)] by (auto simp del: upt_rec_numeral)
qed

theorem statusbar_fits_witness:
  "\<exists>S buf' K'. started S \<and> task_statusbar (replicate 80 7, demo_kernel S) = Some (buf', K') \<and> length buf' = 80"
proof (rule sample_shell)
  fix S assume s: "started S"
  have "painting (demo_kernel S)" "unat (free_pages (k_pmm (demo_kernel S))) \<le> 0x100000"
    using s new_shell_arrays(2) by (simp_all add: painting_def demo_kernel_def pmm0_def)
  from statusbar_fits [OF this, of "replicate 80 7"] s show ?thesis by auto
qed

end
