(* ===== verification/Kernel_Main.thy ===== *)
theory Kernel_Main
  imports Demo_Tasks Scheduler_Contract PMM_Contract
begin

text \<open>
  The boot (src/src/src/kernel.cpp and src/src/src/classes/shiro.class.h): \<open>shiro_main\<close> brings up
  the heap behind the modules, the page bitmap, the ram disk, the devices and the shell, runs
  \<open>init.sh\<close>, spawns the background tasks and enters the idle loop, whose body is \<open>Shell::Update\<close>,
  \<open>Yield\<close> and \<open>hlt\<close>.
\<close>

unbundle bit_operations_syntax

text \<open>Addresses and sizes that come from the linker and the compiler.\<close>

record linkage =
  kernel_start :: u32
  kernel_end :: u32
  gdt_at :: u32
  gdt_ptr_at :: u32
  idt_at :: u32
  idt_ptr_at :: u32
  isr_stub :: "nat \<Rightarrow> u32"
  page_dir_at :: u32
  preempt_yield_at :: u32
  sizeof_shiro :: u32
  sizeof_shell :: u32
  task_entry :: "nat \<Rightarrow> u32"
  task_label :: "nat \<Rightarrow> u32"

section \<open>Shiro\<close>

definition Shiro_Start :: "linkage \<Rightarrow> kernel \<Rightarrow> kernel" where
  "Shiro_Start L K =
     (let M0 = log_line [LStr ''> Welcome to Shiro - Operating System''] (k_mach K);
          (M1, G) = GDT_Start (gdt_at L) (gdt_ptr_at L) (M0, k_gdt K);
          M2 = PIC_Start M1;
          (M3, I) = IDT_Start (idt_at L) (idt_ptr_at L) (isr_stub L) (M2, k_idt K);
          (M4, P) = Paging_Start (page_dir_at L) (M3, k_paging K);
          M5 = Timer_Start M4;
          M6 = Keyboard_Start M5;
          M7 = log_line [LStr ''> Entering Text Mode''] M6;
          M8 = log_line [LStr ''> Starting VGA''] M7;
          (M9, T, S) = Scheduler_Start (preempt_yield_at L) (M8, k_timer K, k_sched K);
          M10 = M9\<lparr>if_flag := True\<rparr>;
          M11 = log_line [LStr ''> Interrupts enabled (IF=1)''] M10
      in K\<lparr>k_mach := M11, k_gdt := G, k_idt := I, k_paging := P, k_timer := T, k_sched := S\<rparr>)"

definition Shiro_Finish :: "kernel \<Rightarrow> kernel" where
  "Shiro_Finish K = K\<lparr>k_mach := log_line [LStr ''> SHIRO IS LOADED AND READY TO GO'']
     (log_line [LStr ''> Running Text Mode final routines''] (k_mach K))\<rparr>"

text \<open>The first \<open>GetInstance\<close> of a singleton, \<open>Shiro\<close> or \<open>Shell\<close>, takes its memory from the heap.  The
  pointer is not kept, the object being a record of its own; it is null only when no free block is
  large enough, and \<open>loader_ok\<close> bounds the sizes so that there is one.\<close>

definition new_instance :: "u32 \<Rightarrow> kernel \<Rightarrow> kernel option" where
  "new_instance n K = do {
     (p, M, H) \<leftarrow> Heap_Alloc n (k_mach K) (k_heap K);
     Some (K\<lparr>k_mach := M, k_heap := H\<rparr>) }"

section \<open>The kernel\<close>

text \<open>Memory first: the heap starts behind every module, and the bitmap gives out neither.\<close>

definition memory_start :: "linkage \<Rightarrow> u32 \<Rightarrow> kernel \<Rightarrow> kernel option" where
  "memory_start L mbi K = do {
     initrd_end \<leftarrow> modules_end (ram (k_mach K)) mbi;
     let (M1, H) = Heap_Start (kernel_end L) initrd_end (k_mach K);
     (M2, P) \<leftarrow> PMM_Start mbi (kernel_start L) (heap_end H) (M1, k_pmm K);
     Some (K\<lparr>k_mach := M2, k_heap := H, k_pmm := P\<rparr>) }"

definition start_shell :: "kernel \<Rightarrow> kernel option" where
  "start_shell K = do {
     (M, S) \<leftarrow> Shell_Start (k_kbd K) (k_mach K, k_shell K);
     Some (K\<lparr>k_mach := M, k_shell := S\<rparr>) }"

text \<open>
  The loop over \<open>init.sh\<close> reads the file, and its size, from memory as it goes, since a command may
  have written there; a command that stopped the machine ends it.  \<open>e\<close> is the directory entry.
\<close>

definition init_line :: "platform \<Rightarrow> nat \<Rightarrow> u8 list \<Rightarrow> kernel \<Rightarrow> outcome option" where
  "init_line E li buf K =
     (if 0 < li \<and> buf ! 0 \<noteq> 0x23 then do { s \<leftarrow> c_string buf; Dispatch E s K } else Some (Returned K))"

lemma entry_size_step: "i < unat (x :: u32) \<Longrightarrow> 2 ^ 32 - Suc i < 2 ^ 32 - i"
  using unat_u32_less [of x] by simp

function init_loop :: "platform \<Rightarrow> u32 \<Rightarrow> u32 \<Rightarrow> nat \<Rightarrow> u8 list \<times> nat \<Rightarrow> kernel \<Rightarrow> outcome option" where
  "init_loop E e data i (buf, li) K =
     (if i < unat (entry_size (ram (k_mach K)) e) then
        let b = ram (k_mach K) (data + of_nat i) in
        if b = 0x0D then init_loop E e data (Suc i) (buf, li) K
        else if b = 0x0A \<or> 79 \<le> li then do {
          buf1 \<leftarrow> put buf li 0;
          out \<leftarrow> init_line E li buf1 K;
          (if b \<noteq> 0x0A then do {
             buf2 \<leftarrow> put buf1 0 b;
             and_then out (init_loop E e data (Suc i) (buf2, 1)) }
           else and_then out (init_loop E e data (Suc i) (buf1, 0))) }
        else do {
          buf1 \<leftarrow> put buf li b;
          init_loop E e data (Suc i) (buf1, li + 1) K }
      else if 0 < li then do { buf1 \<leftarrow> put buf li 0; init_line E li buf1 K }
      else Some (Returned K))"
  by pat_completeness auto

termination
  by (relation "measure (\<lambda>(E, e, data, i, p, K). 2 ^ 32 - i)") (simp_all only: in_measure wf_measure prod.case entry_size_step)

declare init_loop.simps [simp del]

definition run_init :: "platform \<Rightarrow> kernel \<Rightarrow> outcome option" where
  "run_init E K =
     (let e = find_file E (str ''init.sh'') K
      in if e \<noteq> 0 then init_loop E e (Initrd_Data (ram (k_mach K)) e (k_initrd K)) 0 (fresh E 80, 0) K
         else Some (Returned K))"

definition spawn_task :: "linkage \<Rightarrow> nat \<Rightarrow> kernel \<Rightarrow> kernel option" where
  "spawn_task L i K = do {
     (r, M, H, S) \<leftarrow> Spawn (task_entry L i) (task_label L i) (k_mach K, k_heap K, k_sched K);
     Some (K\<lparr>k_mach := M, k_heap := H, k_sched := S\<rparr>) }"

definition shiro_main :: "linkage \<Rightarrow> platform \<Rightarrow> u32 \<Rightarrow> u32 \<Rightarrow> kernel \<Rightarrow> outcome option" where
  "shiro_main L E magic mbi K0 = do {
     K1 \<leftarrow> memory_start L mbi K0;
     (M2, I) \<leftarrow> Initrd_Start mbi (k_mach K1);
     K3 \<leftarrow> new_instance (sizeof_shiro L) (K1\<lparr>k_mach := M2, k_initrd := I\<rparr>);
     (M4, B) \<leftarrow> Multiboot_Start magic mbi (k_mach K3, k_multiboot K3);
     let K5 = Shiro_Finish (Shiro_Start L (K3\<lparr>k_mach := M4, k_multiboot := B\<rparr>));
     K6 \<leftarrow> new_instance (sizeof_shell L) K5;
     K7 \<leftarrow> start_shell K6;
     out \<leftarrow> run_init E K7;
     and_then out (\<lambda>K. map_option Returned (for_each (spawn_task L) [0..<4] K)) }"

section \<open>Memory\<close>

lemma modules_end_max:
  assumes "tag_chain m (mbi + 8) ts" "mbi \<noteq> 0"
  shows "\<exists>e. modules_end m mbi = Some e \<and> (\<forall>t \<in> set ts. tag_type m t = MB2_TAG_MODULE \<longrightarrow> mod_end m t \<le> e)"
proof -
  let ?f = "\<lambda>t e. if tag_type m t = MB2_TAG_MODULE \<and> e < mod_end m t then mod_end m t else e"
  have "run_tags (module_action m) ts e = Some (fold ?f ts e, False)" for e
    by (rule run_tags_total) (simp add: module_action_def)
  moreover have "e \<le> fold ?f us e \<and> (\<forall>t \<in> set us. tag_type m t = MB2_TAG_MODULE \<longrightarrow> mod_end m t \<le> fold ?f us e)" for us e
  proof (induction us arbitrary: e)
    case (Cons t us)
    from Cons [of "?f t e"] show ?case by (auto split: if_splits)
  qed simp
  ultimately show ?thesis using assms by (auto simp: modules_end_def mb2_walk_chain)
qed

lemma Heap_Start_base:
  assumes "unat kend + 4095 + 2 ^ 22 < 2 ^ 32" "unat hint + 4095 + 2 ^ 22 < 2 ^ 32" "0 < kend"
    "Heap_Start kend hint M = (M', H)"
  shows "hint \<le> heap_base H" "kend \<le> heap_base H" "unat (heap_end H) = unat (heap_base H) + 2 ^ 22"
proof -
  have m: "0 < max kend hint" "unat (max kend hint) + 4095 + 2 ^ 22 < 2 ^ 32"
    using assms(1-3) by (auto simp: max_def)
  note s = Heap_Start_ok [OF m assms(4)]
  from s(1) have b: "heap_base H = heap_first H" "heap_end H = heap_base H + HEAP_SIZE"
    "unat (heap_first H) + 2 ^ 22 < 2 ^ 32" by (simp_all add: heap_ok_def)
  then show "hint \<le> heap_base H" "kend \<le> heap_base H" using s(3) by simp_all
  show "unat (heap_end H) = unat (heap_base H) + 2 ^ 22"
    using b by (simp add: unat_word_ariths HEAP_SIZE_def)
qed


text \<open>The bytes of the information block that the walks over its tags and memory map read.\<close>

definition span :: "u32 \<Rightarrow> nat \<Rightarrow> u32 set" where
  "span a n = (\<lambda>k. a + of_nat k) ` {..<n}"

definition tag_bytes :: "mem \<Rightarrow> u32 \<Rightarrow> u32 set" where
  "tag_bytes m t = span t 8 \<union> (if tag_type m t = MB2_TAG_MMAP
     then span t 12 \<union> (\<Union>i \<in> set (word_upt 0 (mmap_count_of m t)). span (entry_at m t i) 20) else {})"

definition chain_end :: "mem \<Rightarrow> u32 \<Rightarrow> u32 list \<Rightarrow> u32" where
  "chain_end m a ts = (if ts = [] then a else next_tag m (last ts))"

definition info_bytes :: "mem \<Rightarrow> u32 \<Rightarrow> u32 list \<Rightarrow> u32 set" where
  "info_bytes m mbi ts = span (chain_end m (mbi + 8) ts) 4 \<union> (\<Union>t \<in> set ts. tag_bytes m t)"

definition agree :: "u32 set \<Rightarrow> mem \<Rightarrow> mem \<Rightarrow> bool" where
  "agree A m m' \<longleftrightarrow> (\<forall>a \<in> A. m' a = m a)"

lemma agree_subset: "agree B m m' \<Longrightarrow> A \<subseteq> B \<Longrightarrow> agree A m m'"
  by (auto simp: agree_def)

lemma span_at: "k < n \<Longrightarrow> a + of_nat k \<in> span a n"
  by (simp add: span_def)

lemma span_sub: "k + j \<le> n \<Longrightarrow> span (a + of_nat k) j \<subseteq> span a n"
proof
  fix x assume "k + j \<le> n" "x \<in> span (a + of_nat k) j"
  then obtain i where "x = a + of_nat (k + i)" "k + i < n" by (auto simp: span_def add.assoc)
  then show "x \<in> span a n" by (simp only: span_at)
qed

lemma agree_load32: "agree (span a 4) m m' \<Longrightarrow> load32 m' a = load32 m a"
  using span_at [of 0 4 a] span_at [of 1 4 a] span_at [of 2 4 a] span_at [of 3 4 a]
  by (simp add: agree_def load32_def)

lemma agree_load32_at: "agree (span a n) m m' \<Longrightarrow> k + 4 \<le> n \<Longrightarrow> load32 m' (a + of_nat k) = load32 m (a + of_nat k)"
  by (rule agree_load32) (rule agree_subset, assumption, rule span_sub)

lemma agree_entry:
  assumes "agree (span e 20) m m'"
  shows "entry_base m' e = entry_base m e" "entry_length m' e = entry_length m e" "entry_type m' e = entry_type m e"
  using agree_load32_at [OF assms, of 0] agree_load32_at [OF assms, of 4] agree_load32_at [OF assms, of 8]
    agree_load32_at [OF assms, of 12] agree_load32_at [OF assms, of 16]
  by (simp_all add: entry_base_def entry_length_def entry_type_def load64_def add.assoc)

lemma agree_tag:
  assumes "agree (tag_bytes m t) m m'"
  shows "tag_type m' t = tag_type m t" "next_tag m' t = next_tag m t"
    "tag_type m t = MB2_TAG_MMAP \<Longrightarrow> mmap_entry_size m' t = mmap_entry_size m t \<and> available m' t = available m t"
proof -
  have "agree (span t 8) m m'" by (rule agree_subset [OF assms]) (simp add: tag_bytes_def)
  note l = agree_load32_at [OF this, of 0] agree_load32_at [OF this, of 4]
  from l show "tag_type m' t = tag_type m t" and s: "next_tag m' t = next_tag m t"
    by (simp_all add: tag_type_def next_tag_def tag_size_def)
  have z: "tag_size m' t = tag_size m t" using l by (simp add: tag_size_def)
  assume t: "tag_type m t = MB2_TAG_MMAP"
  have "agree (span t 12) m m'" by (rule agree_subset [OF assms]) (auto simp: tag_bytes_def t)
  from agree_load32_at [OF this, of 8] have e: "mmap_entry_size m' t = mmap_entry_size m t"
    by (simp add: mmap_entry_size_def)
  then have c: "mmap_count_of m' t = mmap_count_of m t" "entry_at m' t = entry_at m t"
    by (auto simp: mmap_count_of_def entry_at_def z fun_eq_iff)
  have a: "agree (span (entry_at m t i) 20) m m'" if "i \<in> set (word_upt 0 (mmap_count_of m t))" for i
    by (rule agree_subset [OF assms]) (use that t in \<open>auto simp: tag_bytes_def\<close>)
  have "available m' t = available m t"
    unfolding available_def c filter_map map_map o_def
    by (intro map_cong filter_cong refl) (use agree_entry [OF a] in \<open>auto simp: o_def\<close>)
  with e show "mmap_entry_size m' t = mmap_entry_size m t \<and> available m' t = available m t" by simp
qed

lemma agree_chain:
  assumes "tag_chain m a ts" "agree (span (chain_end m a ts) 4) m m'" "\<And>t. t \<in> set ts \<Longrightarrow> agree (tag_bytes m t) m m'"
  shows "tag_chain m' a ts"
  using assms
proof (induction ts arbitrary: a)
  case Nil
  then show ?case using agree_load32 [of a m m'] by (simp add: chain_end_def tag_type_def)
next
  case (Cons t ts)
  from agree_tag [OF Cons.prems(3) [of t]] Cons show ?case by (simp add: chain_end_def split: if_splits)
qed

lemma mmap_wf_agree:
  assumes "mmap_wf m mbi ts" "agree (info_bytes m mbi ts) m m'"
  shows "mmap_wf m' mbi ts" "mmap_regions m' ts = mmap_regions m ts"
proof -
  have a: "agree (tag_bytes m t) m m'" if "t \<in> set ts" for t
    by (rule agree_subset [OF assms(2)]) (use that in \<open>auto simp: info_bytes_def\<close>)
  have e: "agree (span (chain_end m (mbi + 8) ts) 4) m m'"
    by (rule agree_subset [OF assms(2)]) (simp add: info_bytes_def)
  note t = agree_tag [OF a]
  show r: "mmap_regions m' ts = mmap_regions m ts"
    unfolding mmap_regions_def by (intro arg_cong [of _ _ concat] map_cong filter_cong) (auto simp: t)
  show "mmap_wf m' mbi ts"
    using assms(1) agree_chain [OF _ e a] t unfolding mmap_wf_def r by auto
qed

lemma span_bound: "unat a + n \<le> c \<Longrightarrow> c < 2 ^ 32 \<Longrightarrow> x \<in> span a n \<Longrightarrow> unat x < c"
  by (auto simp: span_def unat_word_ariths unat_of_nat take_bit_eq_mod)

lemma heap_ok_ram: "ram M' = ram M \<Longrightarrow> heap_ok M' H bs = heap_ok M H bs"
  by (simp add: heap_ok_def)

lemma boot_page_outside:
  assumes "p \<in> boot_pages m ts ks ke" "ks \<le> ke"
  shows "4096 * unat p + 4096 \<le> unat ks \<or> unat ke \<le> 4096 * unat p" "0x100000 \<le> 4096 * unat p"
proof -
  have "p < MAX_PAGES" "p \<notin> pages_touching (unat ks) (unat ke - unat ks)" "p \<notin> pages_touching 0 0x100000"
    using assms(1) by (auto simp: boot_pages_def ram_pages_def pages_inside_def)
  then show "4096 * unat p + 4096 \<le> unat ks \<or> unat ke \<le> 4096 * unat p" "0x100000 \<le> 4096 * unat p"
    using assms(2) by (auto simp: pages_touching_def word_le_nat_alt)
qed

text \<open>Steps that leave the interrupt controllers, the devices and the interrupt flag alone.\<close>

definition calm :: "mach \<Rightarrow> mach \<Rightarrow> bool" where
  "calm M M' \<longleftrightarrow> dev M' = dev M \<and> if_flag M' = if_flag M \<and> (\<forall>c0. pics c0 M' = pics c0 M)"

lemma calm_refl [simp]: "calm M M"
  by (simp add: calm_def)

lemma calm_trans: "calm M M1 \<Longrightarrow> calm M1 M2 \<Longrightarrow> calm M M2"
  by (simp add: calm_def)

lemma calm_simps [simp]: "calm M (log_line xs M)" "calm M (M\<lparr>ram := r\<rparr>)" "calm M (M\<lparr>klog := l\<rparr>)"
  by (simp_all add: calm_def pics_def)

lemma PMM_Start_calm: "PMM_Start mbi ks ke (M, P) = Some (M', P') \<Longrightarrow> calm M M'"
  by (auto simp: PMM_Start_def Let_def split: if_splits option.splits)

lemma memory_start_eq:
  assumes "mmap_wf (ram (k_mach K)) mbi ts" "kernel_start L \<le> kernel_end L"
    "0 < kernel_end L" "unat (kernel_end L) + 4095 + 2 ^ 22 < 2 ^ 32"
    "modules_end (ram (k_mach K)) mbi = Some e" "unat e + 4095 + 2 ^ 22 < 2 ^ 32"
    "Heap_Start (kernel_end L) e (k_mach K) = (M1, H)"
    "\<forall>a \<in> info_bytes (ram (k_mach K)) mbi ts. a < heap_base H \<or> heap_end H \<le> a"
  shows "\<exists>M2 P. memory_start L mbi K = Some (K\<lparr>k_mach := M2, k_heap := H, k_pmm := P\<rparr>)
    \<and> heap_ok M2 H [(2 ^ 22 - 16, False)] \<and> mmap_wf (ram M2) mbi ts \<and> calm (k_mach K) M2
    \<and> agree (info_bytes (ram (k_mach K)) mbi ts) (ram (k_mach K)) (ram M2)
    \<and> kernel_end L \<le> heap_base H \<and> e \<le> heap_base H \<and> kernel_start L \<le> heap_end H
    \<and> pmm_ok P \<and> pmm_ready P \<and> free_set P = boot_pages (ram (k_mach K)) ts (kernel_start L) (heap_end H)"
proof -
  let ?m = "ram (k_mach K)"
  have mx: "0 < max (kernel_end L) e" "unat (max (kernel_end L) e) + 4095 + 2 ^ 22 < 2 ^ 32"
    using assms(3,4,6) by (auto simp: max_def)
  note b = Heap_Start_base [OF assms(4,6,3,7)]
  note h = Heap_Start_ok [OF mx assms(7)]
  have hb: "heap_base H = heap_first H" using h(1) by (simp add: heap_ok_def)
  have ke: "kernel_start L \<le> heap_end H" "heap_base H \<le> heap_end H"
    using assms(2) b(2,3) by (simp_all add: word_le_nat_alt)
  have ag: "agree (info_bytes ?m mbi ts) ?m (ram M1)"
    unfolding agree_def
  proof
    fix a assume "a \<in> info_bytes ?m mbi ts"
    with assms(8) b(3) have "unat a < unat (heap_first H) \<or> unat (heap_first H) + 16 \<le> unat a"
      unfolding hb word_less_nat_alt word_le_nat_alt by fastforce
    from frameD [OF h(4) unat_u32_less this] show "ram M1 a = ?m a" by simp
  qed
  note w = mmap_wf_agree [OF assms(1) ag]
  from PMM_Start_ok [OF w(1) ke(1), of "k_pmm K"] obtain M2 P where
    p: "PMM_Start mbi (kernel_start L) (heap_end H) (M1, k_pmm K) = Some (M2, P)" "pmm_ok P" "pmm_ready P"
      "free_set P = boot_pages (ram M1) ts (kernel_start L) (heap_end H)" "ram M2 = ram M1" by blast
  have "heap_ok M2 H [(2 ^ 22 - 16, False)]" using h(1) heap_ok_ram [OF p(5)] by simp
  moreover have "calm (k_mach K) M1" using assms(7) by (auto simp: Heap_Start_def Let_def calm_def pics_def)
  ultimately show ?thesis
    using p b(1,2) ke w assms(5,7) ag calm_trans [OF _ PMM_Start_calm [OF p(1)]]
    by (intro exI [of _ M2] exI [of _ P]) (simp add: memory_start_def Let_def boot_pages_def)
qed

section \<open>Properties\<close>

text \<open>C6: the boot keeps memory apart: when the information block lies outside of the heap, the heap starts
  behind the kernel and behind the end of every module the boot loader left, and no page the
  bitmap calls free meets the kernel, a module above the kernel's start, the heap or the first MiB.\<close>

theorem boot_memory_apart:
  assumes "mmap_wf (ram (k_mach K)) mbi ts" "kernel_start L \<le> kernel_end L"
    "0 < kernel_end L" "unat (kernel_end L) + 4095 + 2 ^ 22 < 2 ^ 32"
    "modules_end (ram (k_mach K)) mbi = Some e" "unat e + 4095 + 2 ^ 22 < 2 ^ 32"
    "Heap_Start (kernel_end L) e (k_mach K) = (M1, H)"
    "\<forall>a \<in> info_bytes (ram (k_mach K)) mbi ts. a < heap_base H \<or> heap_end H \<le> a"
  shows "\<exists>K'. memory_start L mbi K = Some K' \<and> heap_inv (k_mach K') (k_heap K') \<and> pmm_ok (k_pmm K')
    \<and> kernel_end L \<le> heap_base (k_heap K')
    \<and> (\<forall>t \<in> set ts. tag_type (ram (k_mach K)) t = MB2_TAG_MODULE \<longrightarrow> mod_end (ram (k_mach K)) t \<le> heap_base (k_heap K'))
    \<and> (\<forall>p \<in> free_set (k_pmm K'). 0x100000 \<le> 4096 * unat p
        \<and> (4096 * unat p + 4096 \<le> unat (kernel_start L) \<or> unat (heap_end (k_heap K')) \<le> 4096 * unat p)
        \<and> (\<forall>t \<in> set ts. tag_type (ram (k_mach K)) t = MB2_TAG_MODULE \<longrightarrow> kernel_start L \<le> mod_start (ram (k_mach K)) t \<longrightarrow>
            4096 * unat p + 4096 \<le> unat (mod_start (ram (k_mach K)) t) \<or> unat (mod_end (ram (k_mach K)) t) \<le> 4096 * unat p))"
proof -
  let ?m = "ram (k_mach K)"
  from memory_start_eq [OF assms] obtain M2 P where
    k: "memory_start L mbi K = Some (K\<lparr>k_mach := M2, k_heap := H, k_pmm := P\<rparr>)" "heap_ok M2 H [(2 ^ 22 - 16, False)]"
      "kernel_end L \<le> heap_base H" "e \<le> heap_base H" "kernel_start L \<le> heap_end H" "pmm_ok P"
      "free_set P = boot_pages ?m ts (kernel_start L) (heap_end H)" by blast
  have "heap_base H \<le> heap_end H" using Heap_Start_base(3) [OF assms(4,6,3,7)] by (simp add: word_le_nat_alt)
  moreover have e: "\<forall>t \<in> set ts. tag_type ?m t = MB2_TAG_MODULE \<longrightarrow> mod_end ?m t \<le> e"
    using modules_end_max [of ?m mbi ts] assms(1,5) by (auto simp: mmap_wf_def)
  ultimately have m: "\<forall>t \<in> set ts. tag_type ?m t = MB2_TAG_MODULE \<longrightarrow> mod_end ?m t \<le> heap_base H \<and> mod_end ?m t \<le> heap_end H"
    using k(4) by fastforce
  note p = boot_page_outside [OF _ k(5), of _ ?m ts, folded k(7)]
  have "4096 * unat p + 4096 \<le> unat (mod_start ?m t) \<or> unat (mod_end ?m t) \<le> 4096 * unat p"
    if "p \<in> free_set P" "t \<in> set ts" "tag_type ?m t = MB2_TAG_MODULE" "kernel_start L \<le> mod_start ?m t" for p t
    using p(1) [OF that(1)] m that(2-4) unfolding word_le_nat_alt by fastforce
  with k(1,3,6) k(2) [THEN heap_okI, THEN conjunct1] m p show ?thesis by auto
qed

definition demo_linkage :: linkage where
  "demo_linkage = \<lparr>kernel_start = 0x100000, kernel_end = 0x180000, gdt_at = 0x110000, gdt_ptr_at = 0x110100,
     idt_at = 0x111000, idt_ptr_at = 0x110200, isr_stub = (\<lambda>n. 0x120000 + of_nat (16 * n)), page_dir_at = 0x112000,
     preempt_yield_at = 0x101000, sizeof_shiro = 64, sizeof_shell = 64, task_entry = (\<lambda>i. 0x102000 + of_nat (64 * i)),
     task_label = (\<lambda>i. 0x130000 + of_nat (16 * i))\<rparr>"

lemma set_word_upt_2: "set (word_upt 0 2) = {0, 1}"
  by (simp add: word_upt_rec [of 0] word_upt_rec [of 1] word_upt_rec [of 2])

lemma sample_info_low: "a \<in> info_bytes sample_ram sample_mbi sample_tags \<Longrightarrow> unat a < 0x9200"
  unfolding info_bytes_def chain_end_def sample_tags_def tag_bytes_def
  by (auto simp: tag_type_def next_tag_def tag_size_def mmap_count_of_def mmap_entry_size_def entry_at_def
      set_word_upt_2 tag_codes sample_words_def simp del: set_word_upt dest!: span_bound [rotated 2, where c = "0x9200"])

lemma sample_modules_end: "modules_end sample_ram sample_mbi = Some 0x200100"
  by (auto simp: modules_end_def mb2_walk_chain [OF sample_chain] sample_tags_def module_action_def tag_type_def
      mod_end_def tag_codes sample_words_def) (simp add: sample_mbi_def)

theorem boot_memory_apart_witness:
  "\<exists>S K'. memory_start demo_linkage sample_mbi ((demo_kernel S)\<lparr>k_mach := sample_mach\<rparr>) = Some K'
    \<and> heap_inv (k_mach K') (k_heap K') \<and> mod_end sample_ram 0x9068 \<le> heap_base (k_heap K')"
proof -
  let ?K = "\<lambda>S. (demo_kernel S)\<lparr>k_mach := sample_mach\<rparr>"
  obtain M1 H where h: "Heap_Start 0x180000 0x200100 sample_mach = (M1, H)" by fastforce
  have b: "heap_base H = 0x201000"
    using h by (auto simp: Heap_Start_def Let_def)
  then have i: "\<forall>a \<in> info_bytes sample_ram sample_mbi sample_tags. a < heap_base H \<or> heap_end H \<le> a"
    using sample_info_low by (fastforce simp: word_less_nat_alt)
  from boot_memory_apart [of "?K undefined" sample_mbi sample_tags demo_linkage "0x200100" M1 H]
    sample_mmap_wf sample_modules_end h i show ?thesis
    by (simp add: demo_linkage_def) (fastforce simp: sample_tags_def tag_type_def tag_codes sample_words_def)
qed

section \<open>When the information block is not apart\<close>

text \<open>C30: nothing keeps the heap off the information block itself: when the loader put that block on the
  first page behind the kernel and all modules, the header of the heap's first block overwrites
  its first tag with an end tag, and the boot goes on without a single free page and without
  the ram disk.\<close>

theorem boot_info_overwritten:
  assumes "mbi \<noteq> 0" "kernel_start L \<le> kernel_end L" "0 < kernel_end L" "unat (kernel_end L) + 4095 + 2 ^ 22 < 2 ^ 32"
    "modules_end (ram (k_mach K)) mbi = Some e" "unat e + 4095 + 2 ^ 22 < 2 ^ 32"
    "mbi = heap_base (snd (Heap_Start (kernel_end L) e (k_mach K)))"
  shows "\<exists>K' M'. memory_start L mbi K = Some K' \<and> free_set (k_pmm K') = {} \<and> AllocPage (k_pmm K') = (0, k_pmm K')
    \<and> Initrd_Start mbi (k_mach K') = Some (M', initrd0)"
proof -
  obtain M1 H where hs: "Heap_Start (kernel_end L) e (k_mach K) = (M1, H)" by fastforce
  have mx: "0 < max (kernel_end L) e" "unat (max (kernel_end L) e) + 4095 + 2 ^ 22 < 2 ^ 32"
    using assms(3,4,6) by (auto simp: max_def)
  note b = Heap_Start_base [OF assms(4,6,3) hs]
  note h = Heap_Start_ok [OF mx hs]
  have ke: "kernel_start L \<le> heap_end H" using assms(2) b(2,3) by (simp add: word_le_nat_alt)
  have t: "tag_type (ram M1) (mbi + 8) = MB2_TAG_END"
    using h(1) assms(7) hs by (simp add: heap_ok_def hdr_at_def tag_type_def hdr_used_def MB2_TAG_END_def)
  then have "mmap_wf (ram M1) mbi []" using assms(1) by (simp add: mmap_wf_def mmap_regions_def)
  from PMM_Start_ok [OF this ke, of "k_pmm K"] obtain M2 P where
    p: "PMM_Start mbi (kernel_start L) (heap_end H) (M1, k_pmm K) = Some (M2, P)" "pmm_ok P" "pmm_ready P"
      "free_set P = {}" "ram M2 = ram M1" by (auto simp: boot_pages_def mmap_regions_def)
  have "mb2_walk (ram M2) initrd_tag (mbi + 8) (M2, initrd0) = Some ((M2, initrd0), False)"
    using t p(5) by (simp add: mb2_walk.simps [of _ _ "mbi + 8"])
  then have "\<exists>M'. Initrd_Start mbi M2 = Some (M', initrd0)" using assms(1) by (simp add: Initrd_Start_def)
  with p AllocPage_empty [of P] hs assms(5) show ?thesis by (auto simp: memory_start_def)
qed

text \<open>A block of one memory map right behind the kernel: no module, one range of 127 MiB.\<close>

definition near_words :: "u32 list" where
  "near_words = [56, 0, 6, 40, 24, 0, 0x100000, 0, 0x7F00000, 0, 1, 0, 0, 8]"

definition near_kernel :: "shell \<Rightarrow> kernel" where
  "near_kernel S = (demo_kernel S)\<lparr>k_mach := blank\<lparr>ram := poke 0x180000 near_words (\<lambda>_. 0)\<rparr>\<rparr>"

lemma near_load: "k < 14 \<Longrightarrow> load32 (poke 0x180000 near_words m) (of_nat (0x180000 + 4 * k)) = near_words ! k"
  using load32_poke [of k near_words "0x180000" m] by (simp add: near_words_def)

lemma near_modules_end: "modules_end (ram (k_mach (near_kernel S))) 0x180000 = Some 0"
proof -
  have "tag_chain (poke 0x180000 near_words (\<lambda>_. 0)) (0x180000 + 8) [0x180008]"
    "tag_type (poke 0x180000 near_words (\<lambda>_. 0)) 0x180008 = 6"
    using near_load [of 2] near_load [of 3] near_load [of 12]
    by (simp_all add: tag_type_def next_tag_def tag_size_def tag_codes near_words_def)
  with mb2_walk_chain [OF this(1), of "module_action (poke 0x180000 near_words (\<lambda>_. 0))" 0] show ?thesis
    by (auto simp: near_kernel_def modules_end_def module_action_def tag_codes)
qed

theorem boot_info_overwritten_witness:
  "\<exists>S K'. memory_start demo_linkage 0x180000 (near_kernel S) = Some K' \<and> free_set (k_pmm K') = {}"
proof -
  have "0x180000 = heap_base (snd (Heap_Start (kernel_end demo_linkage) 0 (k_mach (near_kernel undefined))))"
    by (simp add: demo_linkage_def Heap_Start_def Let_def)
  from boot_info_overwritten [OF _ _ _ _ near_modules_end _ this]
  have "\<exists>K'. memory_start demo_linkage 0x180000 (near_kernel undefined) = Some K' \<and> free_set (k_pmm K') = {}"
    by (auto simp: demo_linkage_def)
  then show ?thesis by blast
qed

end
