(* ===== verification/Kernel_Boot.thy ===== *)
theory Kernel_Boot
  imports Kernel_Main
begin

text \<open>
  What the boot does (src/src/src/kernel.cpp): the start-up script runs its lines in order, the
  devices come up with exactly their two interrupt lines open, and the idle loop is entered with
  the invariant of \<open>Shell::Update\<close> and five tasks.
\<close>

section \<open>The start-up script\<close>

text \<open>A line that is neither empty nor a comment is a command.\<close>

definition script_line :: "u8 list \<Rightarrow> bool" where
  "script_line l \<longleftrightarrow> l \<noteq> [] \<and> hd l \<noteq> 0x23"

fun run_script :: "platform \<Rightarrow> u8 list list \<Rightarrow> kernel \<Rightarrow> outcome option" where
  "run_script E [] K = Some (Returned K)"
| "run_script E (l # ls) K =
     (if script_line l then do { out \<leftarrow> Dispatch E (takeWhile (\<lambda>c. c \<noteq> 0) l) K; and_then out (run_script E ls) }
      else run_script E ls K)"

definition quiet :: "mem \<Rightarrow> kernel \<Rightarrow> bool" where
  "quiet r K \<longleftrightarrow> kernel_ok K \<and> kbc_live (k_mach K) \<and> ram (k_mach K) = r"

lemma quiet_only: "quiet r K \<Longrightarrow> shell_only K K' \<Longrightarrow> quiet r K'"
  using kernel_ok_step [OF _ shell_only_step, of K K'] shell_only_mach [of K K'] by (simp add: quiet_def)

lemma quiet_Dispatch:
  assumes "quiet r K" "platform_ok E" "0 \<notin> set l" "length l \<le> 79"
  shows "\<exists>out. Dispatch E l K = Some out \<and> ends_safely K out \<and> (\<forall>K'. out = Returned K' \<longrightarrow> quiet r K')"
proof -
  have k: "kernel_ok K" "kbc_live (k_mach K)" using assms(1) by (simp_all add: quiet_def)
  from kbc_live_free [OF k(2) refl] obtain n where "kbc_free (polled n (k_mach K))" .
  from Dispatch_safe [OF k(1) assms(2-4) this] quiet_only [OF assms(1)] show ?thesis by auto
qed

lemma init_line_step:
  assumes "quiet r K" "platform_ok E" "length buf = 80" "0 \<in> set buf"
  shows "\<exists>out. init_line E li buf K = Some out \<and> (\<forall>K'. out = Returned K' \<longrightarrow> quiet r K')"
proof -
  have l: "length (takeWhile (\<lambda>c. c \<noteq> 0) buf) \<le> 79" using takeWhile_neq_length [OF assms(4)] assms(3) by simp
  from quiet_Dispatch [OF assms(1,2) cstr_nonzero l] assms(1,4) show ?thesis
    by (auto simp: init_line_def c_string_def)
qed

lemma init_line_script:
  "line_in l li b \<Longrightarrow> init_line E li b K = (if script_line l then Dispatch E (takeWhile (\<lambda>c. c \<noteq> 0) l) K else Some (Returned K))"
proof -
  assume a: "line_in l li b"
  then have l: "li = length l" "take li b = l" unfolding line_in_def by blast+
  then have h: "0 < li \<longleftrightarrow> l \<noteq> []" "0 < li \<Longrightarrow> b ! 0 = hd l"
    using nth_take [of 0 li b] by (auto simp: hd_conv_nth)
  with line_in_c_string [OF a] show ?thesis by (auto simp: init_line_def script_line_def)
qed

definition script_act :: "platform \<Rightarrow> nat \<Rightarrow> u8 list \<Rightarrow> outcome \<Rightarrow> outcome option" where
  "script_act E li b out = and_then out (init_line E li b)"

lemma and_then_stop: "\<forall>K. out \<noteq> Returned K \<Longrightarrow> and_then out f = Some out"
  by (cases out) auto

lemma script_text_stop:
  assumes "\<forall>K. out \<noteq> Returned K" "length buf = 80" "li < 80"
  shows "text_loop (script_act E) cs (buf, li) out = Some out"
  using assms(2,3)
proof (induction cs arbitrary: buf li)
  case (Cons c cs)
  have p: "put b k v = Some (b[k := v])" if "length b = 80" "k < 80" for b k v using that by (simp add: put_def)
  from Cons show ?case by (auto simp: p script_act_def and_then_stop [OF assms(1)])
qed (simp add: put_def script_act_def and_then_stop [OF assms(1)])

lemma init_loop_text:
  assumes "platform_ok E" "i \<le> unat (entry_size r e)" "quiet r K" "length buf = 80" "li < 80"
  shows "init_loop E e data i (buf, li) K = text_loop (script_act E)
    (map (\<lambda>i. r (data + of_nat i)) [i..<unat (entry_size r e)]) (buf, li) (Returned K)"
  using assms(2-)
proof (induction "unat (entry_size r e) - i" arbitrary: i buf li K)
  case 0
  then have "i = unat (entry_size r e)" "ram (k_mach K) = r" by (simp_all add: quiet_def)
  then show ?case by (simp add: init_loop.simps script_act_def)
next
  case (Suc d)
  have r: "ram (k_mach K) = r" using Suc.prems(2) by (simp add: quiet_def)
  have i: "i < unat (entry_size r e)" "d = unat (entry_size r e) - Suc i" using Suc(2) by auto
  let ?b = "r (data + of_nat i)"
  have p: "put b k v = Some (b[k := v])" if "length b = 80" "k < 80" for b k v using that by (simp add: put_def)
  have next_line: "and_then out (init_loop E e data (Suc i) (b, k)) = text_loop (script_act E)
      (map (\<lambda>i. r (data + of_nat i)) [Suc i..<unat (entry_size r e)]) (b, k) out"
    if "\<forall>K'. out = Returned K' \<longrightarrow> quiet r K'" "length b = 80" "k < 80" for out b k
    using that i Suc.hyps(1) [OF i(2), of _ b k] script_text_stop [of out b k] by (cases out) simp_all
  have c: "[i..<unat (entry_size r e)] = i # [Suc i..<unat (entry_size r e)]" using i(1) by (rule upt_conv_Cons)
  have z: "0 \<in> set (buf[li := 0])" "length (buf[li := 0]) = 80" using Suc.prems(3,4) by (auto simp: set_update_memI)
  from init_line_step [OF Suc.prems(2) assms(1) z(2,1), of li] obtain out where
    o: "init_line E li (buf[li := 0]) K = Some out" "\<forall>K'. out = Returned K' \<longrightarrow> quiet r K'" by blast
  show ?case
    using i(1) Suc.prems(2-4) Suc.hyps(1) [OF i(2)] next_line [OF o(2)] o(1) z(2)
    by (subst init_loop.simps) (auto simp: c r p Let_def script_act_def)
qed

lemma script_lines: "for_each (\<lambda>l out. and_then out (\<lambda>K. if script_line l then Dispatch E (takeWhile (\<lambda>c. c \<noteq> 0) l) K
    else Some (Returned K))) ls out = and_then out (run_script E ls)"
proof (induction ls arbitrary: out)
  case Nil
  then show ?case by (cases out) simp_all
next
  case (Cons l ls)
  show ?case
  proof (cases out)
    case (Returned K)
    with Cons show ?thesis by (cases "Dispatch E (takeWhile (\<lambda>c. c \<noteq> 0) l) K") auto
  qed (use Cons in simp_all)
qed

lemma init_loop_lines:
  assumes "platform_ok E" "quiet r K" "data_at r data (entry_size r e) = p"
  shows "init_loop E e data 0 (fresh E 80, 0) K = run_script E (file_lines p) K"
proof -
  have "init_loop E e data 0 (fresh E 80, 0) K = text_loop (script_act E) p (fresh E 80, 0) (Returned K)"
    using init_loop_text [OF assms(1) _ assms(2), of 0 e "fresh E 80" 0 data] assms(3) by (simp add: data_at_def)
  also have "\<dots> = for_each (\<lambda>l out. and_then out (\<lambda>K. if script_line l then Dispatch E (takeWhile (\<lambda>c. c \<noteq> 0) l) K
    else Some (Returned K))) (file_lines p) (Returned K)"
    unfolding file_lines_from by (rule text_loop_lines) (auto simp: script_act_def init_line_script intro!: arg_cong2 [where f = and_then])
  finally show ?thesis by (simp add: script_lines)
qed

lemma shell_only_trans: "shell_only K K1 \<Longrightarrow> shell_only K1 K2 \<Longrightarrow> shell_only K K2"
  by (auto simp: shell_only_def)

lemma shell_only_refl: "started (k_shell K) \<Longrightarrow> shell_only K K"
  unfolding shell_only_def by (intro exI [of _ "k_shell K"]) simp

lemma run_script_safe:
  assumes "platform_ok E" "quiet r K" "\<forall>l \<in> set ls. length l \<le> 79"
  shows "\<exists>out. run_script E ls K = Some out \<and> (\<forall>K'. out = Returned K' \<longrightarrow> shell_only K K')"
  using assms(2,3)
proof (induction ls arbitrary: K)
  case Nil
  then show ?case by (simp add: quiet_def kernel_ok_def shell_only_refl)
next
  case (Cons l ls)
  show ?case
  proof (cases "script_line l")
    case True
    let ?l = "takeWhile (\<lambda>c. c \<noteq> 0) l"
    have "length ?l \<le> 79" using Cons.prems(2) length_takeWhile_le [of "\<lambda>c. c \<noteq> 0" l] by (simp add: le_trans)
    from quiet_Dispatch [OF Cons.prems(1) assms(1) cstr_nonzero this] obtain out where
      d: "Dispatch E ?l K = Some out" "ends_safely K out" "\<forall>K'. out = Returned K' \<longrightarrow> quiet r K'" by blast
    show ?thesis
    proof (cases out)
      case (Returned K1)
      with d Cons.IH [of K1] Cons.prems(2) True show ?thesis by (auto intro: shell_only_trans)
    qed (use d True in simp_all)
  qed (use Cons in simp)
qed

lemma segments_plain: "0x0A \<notin> set cs \<Longrightarrow> segments p (cs @ ds) = segments (p @ cs) ds"
  by (induction cs arbitrary: p) auto

lemma file_lines_wrap:
  assumes "length c = 79" "t \<noteq> []" "length t \<le> 79" "0x0A \<notin> set (c @ t)" "0x0D \<notin> set (c @ t)"
  shows "file_lines (c @ t @ 0x0A # rest) = c # t # file_lines rest"
proof -
  have "filter (\<lambda>c. c \<noteq> 0x0D) (c @ t) = c @ t" by (rule filter_True) (use assms(5) in blast)
  then have "filter (\<lambda>c. c \<noteq> 0x0D) (c @ t @ 0x0A # rest) = (c @ t) @ 0x0A # filter (\<lambda>c. c \<noteq> 0x0D) rest" by simp
  then show ?thesis
    unfolding file_lines_def segments_plain [OF assms(4), of "[]"]
    using assms(1-3) by (simp only: segments_plain [OF assms(4), of "[]"]) (simp add: chunks_79 chunks_short)
qed

section \<open>The devices\<close>

text \<open>\<open>lines_open c0 D M\<close>: the controllers accept masks and exactly the lines of \<open>D\<close> are open.\<close>

definition lines_open :: "chip \<times> chip \<Rightarrow> nat set \<Rightarrow> mach \<Rightarrow> bool" where
  "lines_open c0 D M \<longleftrightarrow> pic_wired c0 M \<and> pic_idle c0 M
     \<and> chip_offset (fst (pics c0 M)) = 0x20 \<and> chip_offset (snd (pics c0 M)) = 0x28
     \<and> (\<forall>irq < 16. masked c0 M irq \<longleftrightarrow> irq \<notin> D)"

lemma lines_open_same:
  "pics c0 M' = pics c0 M \<Longrightarrow> dev M' = dev M \<Longrightarrow> lines_open c0 D M' = lines_open c0 D M"
  by (simp add: lines_open_def pic_wired_def pic_idle_def masked_def)

lemma dev_PIC [simp]: "dev (PIC_Start M) = dev M" "dev (PIC_Unmask irq M) = dev M"
  "ram (PIC_Start M) = ram M" "ram (PIC_Unmask irq M) = ram M"
  by (simp_all add: PIC_Start_def PIC_Remap_def PIC_Unmask_def Let_def case_prod_beta log_line_def outb_def inb_def)

lemma PIC_Start_open:
  assumes "pic_wired c0 M" shows "lines_open c0 {} (PIC_Start M)"
proof -
  have "bit (0xFF :: u8) k" if "k < 8" for k
  proof -
    have "(0xFF :: u8) = - 1" by simp
    with that show ?thesis by (simp only: bit_minus_1_iff possible_bit_word) simp
  qed
  then show ?thesis
    using pic_start_masks_all [of c0 M] assms
    by (auto simp: lines_open_def pic_wired_def pic_idle_def masked_def split: prod.splits)
qed

lemma PIC_Unmask_open:
  assumes "lines_open c0 D M" "irq < 16"
  shows "lines_open c0 (insert irq D) (PIC_Unmask (of_nat irq) M)"
proof -
  have w: "pic_wired c0 M" "pic_idle c0 M" using assms(1) by (simp_all add: lines_open_def)
  obtain c1 c2 where c: "pics c0 M = (c1, c2)" by (cases "pics c0 M")
  have "chip_stage c1 = Idle" "chip_stage c2 = Idle" using w(2) by (auto simp: pic_idle_def c)
  then have "pic_idle c0 (PIC_Unmask (of_nat irq) M) \<and> chip_offset (fst (pics c0 (PIC_Unmask (of_nat irq) M))) = chip_offset c1
      \<and> chip_offset (snd (pics c0 (PIC_Unmask (of_nat irq) M))) = chip_offset c2"
    by (auto simp: PIC_Unmask_def irq_port_def Let_def case_prod_beta pic_idle_def c chip_data_def pic_consts)
  with assms pic_one_line(1) [OF w assms(2)] show ?thesis
    by (auto simp: lines_open_def pic_wired_def c)
qed

lemma Timer_Start_open: "lines_open c0 D M \<Longrightarrow> lines_open c0 (insert 0 D) (Timer_Start M)"
  "dev (Timer_Start M) = dev M" "ram (Timer_Start M) = ram M"
proof -
  let ?M = "outb PIT_CHANNEL0 (ucast (drop_bit 8 (PIT_FREQUENCY div TICK_HZ) AND 0xFF)) (outb PIT_CHANNEL0
    (ucast (PIT_FREQUENCY div TICK_HZ AND 0xFF)) (outb PIT_COMMAND 0x36
    (log_line [LStr ''> Starting PIT timer at '', LInt TICK_HZ, LStr '' Hz''] M)))"
  have s: "Timer_Start M = PIC_Unmask 0 ?M" by (simp add: Timer_Start_def Let_def)
  then show "dev (Timer_Start M) = dev M" "ram (Timer_Start M) = ram M" by simp_all
  have "pics c0 ?M = pics c0 M" by (cases "pics c0 M") (simp add: PIT_COMMAND_def PIT_CHANNEL0_def)
  then have "lines_open c0 D ?M = lines_open c0 D M" by (intro lines_open_same) simp_all
  then show "lines_open c0 D M \<Longrightarrow> lines_open c0 (insert 0 D) (Timer_Start M)"
    using PIC_Unmask_open [of c0 D ?M 0] by (simp add: s)
qed

lemma Keyboard_Start_open: "lines_open c0 D M \<Longrightarrow> lines_open c0 (insert 1 D) (Keyboard_Start M)"
  "dev (Keyboard_Start M) = dev M" "ram (Keyboard_Start M) = ram M"
proof -
  let ?M = "log_line [LStr ''> Enabling Keyboard (IRQ1 -> INT 0x21)''] M"
  have "lines_open c0 D ?M = lines_open c0 D M" by (intro lines_open_same) simp_all
  then show "lines_open c0 D M \<Longrightarrow> lines_open c0 (insert 1 D) (Keyboard_Start M)"
    using PIC_Unmask_open [of c0 D ?M 1] by (simp add: Keyboard_Start_def)
qed (simp_all add: Keyboard_Start_def)

text \<open>What a step of the start-up that touches neither ports nor memory leaves alone.\<close>

definition still :: "mach \<Rightarrow> mach \<Rightarrow> bool" where
  "still M M' \<longleftrightarrow> dev M' = dev M \<and> ram M' = ram M \<and> io M' = io M"

lemma still_start:
  "still M (fst (GDT_Start a p (M, G)))" "still M (fst (IDT_Start a p isr (M, I)))"
  "still M (fst (Paging_Start a (M, P)))" "still M (fst (Scheduler_Start cb (M, T, S)))"
  by (simp_all add: still_def GDT_Start_def IDT_Start_def Paging_Start_def Scheduler_Start_def Let_def)

lemma still_open: "still M M' \<Longrightarrow> lines_open c0 D M' = lines_open c0 D M"
  by (rule lines_open_same) (simp_all add: still_def pics_def)

text \<open>The control registers that later steps keep.\<close>

definition control_registers :: "mach \<Rightarrow> u32 \<times> u32 \<times> u32 \<times> u32 \<times> u32" where
  "control_registers M = (cr0 M, cr3 M, cr4 M, gdtr M, idtr M)"

lemma control_keep [simp]:
  "control_registers (PIC_Start M) = control_registers M" "control_registers (Timer_Start M) = control_registers M"
  "control_registers (Keyboard_Start M) = control_registers M" "control_registers (fst (Scheduler_Start cb (M, T, S))) = control_registers M"
  "control_registers (log_line xs M) = control_registers M" "control_registers (M\<lparr>if_flag := b\<rparr>) = control_registers M"
  by (simp_all add: control_registers_def PIC_Start_def PIC_Remap_def PIC_Unmask_def Timer_Start_def Keyboard_Start_def
      Scheduler_Start_def Let_def case_prod_beta inb_def)

lemma control_paging:
  assumes "control_registers M' = control_registers M"
  shows "Paging_IsEnabled M' P = Paging_IsEnabled M P" "translate M' d acc va = translate M d acc va"
    "gdtr M' = gdtr M" "idtr M' = idtr M"
  using assms by (simp_all add: control_registers_def Paging_IsEnabled_def translate_def Let_def)

lemma start_tables:
  "gdtr (fst (GDT_Start a p (M, G))) = p" "idtr (fst (IDT_Start a p isr (M, I))) = p"
  "gdtr (fst (IDT_Start a p isr (M, I))) = gdtr M" "gdtr (fst (Paging_Start a (M, P))) = gdtr M"
  "idtr (fst (Paging_Start a (M, P))) = idtr M"
  by (simp_all add: GDT_Start_def IDT_Start_def Paging_Start_def Let_def)

lemma Shiro_Start_ready:
  assumes "pic_wired c0 (k_mach K)" "length (directory (k_paging K)) = 1024" "length (tasks (k_sched K)) = 8"
  shows "\<exists>M G I P T S. Shiro_Start L K = K\<lparr>k_mach := M, k_gdt := G, k_idt := I, k_paging := P, k_timer := T, k_sched := S\<rparr>
    \<and> if_flag M \<and> lines_open c0 {0, 1} M \<and> ram M = ram (k_mach K) \<and> dev M = dev (k_mach K)
    \<and> gdtr M = gdt_ptr_at L \<and> idtr M = idt_ptr_at L
    \<and> (\<forall>v < 48. gate_offset (idt_entries I ! v) = isr_stub L v \<and> gate_present (idt_entries I ! v))
    \<and> Paging_IsEnabled M P
    \<and> (\<forall>dir_at acc va. dir_at (page_dir_at L) = directory P \<longrightarrow> translate M dir_at acc va = Some va)
    \<and> sched_ok S \<and> used_slots S = {0} \<and> current S = 0 \<and> preempt_cb T = preempt_yield_at L
    \<and> (\<forall>i < 8. 0 \<in> set (t_name (tasks S ! i)))"
proof -
  let ?W = "log_line [LStr ''> Welcome to Shiro - Operating System''] (k_mach K)"
  obtain M1 G where g: "GDT_Start (gdt_at L) (gdt_ptr_at L) (?W, k_gdt K) = (M1, G)" by fastforce
  obtain M3 I where i: "IDT_Start (idt_at L) (idt_ptr_at L) (isr_stub L) (PIC_Start M1, k_idt K) = (M3, I)" by fastforce
  obtain M4 P where p: "Paging_Start (page_dir_at L) (M3, k_paging K) = (M4, P)" by fastforce
  let ?X = "log_line [LStr ''> Starting VGA''] (log_line [LStr ''> Entering Text Mode'']
    (Keyboard_Start (Timer_Start M4)))"
  obtain M9 T S where s: "Scheduler_Start (preempt_yield_at L) (?X, k_timer K, k_sched K) = (M9, T, S)" by (metis prod_cases3)
  let ?M = "log_line [LStr ''> Interrupts enabled (IF=1)''] (M9\<lparr>if_flag := True\<rparr>)"
  have eq: "Shiro_Start L K = K\<lparr>k_mach := ?M, k_gdt := G, k_idt := I, k_paging := P, k_timer := T, k_sched := S\<rparr>"
    unfolding Shiro_Start_def Let_def g prod.case i p s ..
  have st: "still ?W M1" "still (PIC_Start M1) M3" "still M3 M4" "still ?X M9"
    using still_start(1) [of ?W "gdt_at L" "gdt_ptr_at L" "k_gdt K"]
      still_start(2) [of "PIC_Start M1" "idt_at L" "idt_ptr_at L" "isr_stub L" "k_idt K"]
      still_start(3) [of M3 "page_dir_at L" "k_paging K"]
      still_start(4) [of ?X "preempt_yield_at L" "k_timer K" "k_sched K"] by (simp_all add: g i p s)
  have log: "lines_open c0 D (log_line xs M) = lines_open c0 D M" for D xs M by (rule lines_open_same) simp_all
  have "pic_wired c0 M1" using assms(1) st(1) by (simp add: pic_wired_def still_def)
  from PIC_Start_open [OF this] have "lines_open c0 {} M4" using still_open [OF st(2)] still_open [OF st(3)] by simp
  from Keyboard_Start_open(1) [OF Timer_Start_open(1) [OF this]] have "lines_open c0 {0, 1} M9"
    using still_open [OF st(4)] by (simp add: log insert_commute)
  moreover have "lines_open c0 D (M9\<lparr>if_flag := True\<rparr>) = lines_open c0 D M9" for D
    by (rule lines_open_same) (simp_all add: pics_def)
  ultimately have o: "lines_open c0 {0, 1} ?M" by (simp add: log)
  have r: "control_registers ?M = control_registers M4"
    using control_keep(4) [of "preempt_yield_at L" ?X "k_timer K" "k_sched K"] by (simp add: s)
  note t = start_tables(1) [of "gdt_at L" "gdt_ptr_at L" ?W "k_gdt K"] start_tables(2,3) [of "idt_at L" "idt_ptr_at L" "isr_stub L" "PIC_Start M1" "k_idt K"]
    start_tables(4,5) [of "page_dir_at L" M3 "k_paging K"]
  have "gdtr (PIC_Start M1) = gdtr M1" using control_keep(1) [of M1] by (simp add: control_registers_def)
  with t have t': "gdtr ?M = gdt_ptr_at L" "idtr ?M = idt_ptr_at L" using control_paging(3,4) [OF r] by (simp_all add: g i p)
  have ig: "\<forall>v < 48. gate_offset (idt_entries I ! v) = isr_stub L v \<and> gate_present (idt_entries I ! v)"
    using IDT_Start_gates [of "idt_at L" "idt_ptr_at L" "isr_stub L" "PIC_Start M1" "k_idt K"] by (auto simp: i Let_def)
  note pg = Paging_Start_identity [OF assms(2) p]
  have pe: "Paging_IsEnabled ?M P" using pg [of "\<lambda>_. directory P"] control_paging(1) [OF r] by simp
  have pt: "\<forall>dir_at acc va. dir_at (page_dir_at L) = directory P \<longrightarrow> translate ?M dir_at acc va = Some va"
    using pg control_paging(2) [OF r] by simp
  note sc = Scheduler_Start_ok [OF s assms(3)]
  have nm: "0 \<in> set (t_name (tasks S ! j))" if "j < 8" for j
    using s assms(3) that by (auto simp: Scheduler_Start_def Let_def nth_list_update kernel_name_def)
  have d: "ram ?M = ram (k_mach K)" "dev ?M = dev (k_mach K)"
    using st by (simp_all add: still_def Timer_Start_open Keyboard_Start_open)
  show ?thesis
    unfolding eq using o t' ig pe pt sc(1-4) nm d
    by (intro exI [of _ ?M] exI [of _ G] exI [of _ I] exI [of _ P] exI [of _ T] exI [of _ S]) simp
qed


lemma demo_kernel_live: "kbc_live (k_mach (demo_kernel S))"
  unfolding kbc_live_def
  by (intro allI exI [of _ 0]) (simp add: demo_kernel_def blank_def kbc_free_def inb_def Let_def)

section \<open>Properties\<close>

text \<open>C17: when the start-up ends and opens the interrupt flag, exactly the lines of the timer and of the keyboard
  are open, the vector each of them raises leads to the handler of that line, every address is
  mapped to itself, the running flow is task 0 of a sound scheduler whose preemption callback is
  registered with the timer, and memory has not been touched.\<close>

theorem shiro_start_ready:
  assumes "pic_wired c0 (k_mach K)" "length (directory (k_paging K)) = 1024" "length (tasks (k_sched K)) = 8"
  shows "let K' = Shiro_Start L K; M = k_mach K' in if_flag M \<and> ram M = ram (k_mach K)
    \<and> (\<forall>irq < 16. masked c0 M irq \<longleftrightarrow> irq \<noteq> 0 \<and> irq \<noteq> 1)
    \<and> idtr M = idt_ptr_at L \<and> gdtr M = gdt_ptr_at L
    \<and> (\<forall>irq < 16. \<not> masked c0 M irq \<longrightarrow>
         (let e = idt_entries (k_idt K') ! (unat (chip_offset (fst (pics c0 M))) + irq)
          in gate_present e \<and> gate_offset e = isr_stub L (32 + irq)))
    \<and> Paging_IsEnabled M (k_paging K')
    \<and> (\<forall>dir_at acc va. dir_at (page_dir_at L) = directory (k_paging K') \<longrightarrow> translate M dir_at acc va = Some va)
    \<and> sched_ok (k_sched K') \<and> used_slots (k_sched K') = {0} \<and> current (k_sched K') = 0
    \<and> preempt_cb (k_timer K') = preempt_yield_at L"
proof -
  from Shiro_Start_ready [OF assms, of L] obtain M G I P T S where
    eq: "Shiro_Start L K = K\<lparr>k_mach := M, k_gdt := G, k_idt := I, k_paging := P, k_timer := T, k_sched := S\<rparr>"
    and r: "if_flag M" "lines_open c0 {0, 1} M" "ram M = ram (k_mach K)" "gdtr M = gdt_ptr_at L" "idtr M = idt_ptr_at L"
      "\<forall>v < 48. gate_offset (idt_entries I ! v) = isr_stub L v \<and> gate_present (idt_entries I ! v)"
      "Paging_IsEnabled M P"
      "\<forall>dir_at acc va. dir_at (page_dir_at L) = directory P \<longrightarrow> translate M dir_at acc va = Some va"
      "sched_ok S" "used_slots S = {0}" "current S = 0" "preempt_cb T = preempt_yield_at L" by (elim exE conjE) (rule that)
  have "masked c0 M irq \<longleftrightarrow> irq \<noteq> 0 \<and> irq \<noteq> 1" if "irq < 16" for irq
    using r(2) that by (auto simp: lines_open_def)
  moreover have "unat (chip_offset (fst (pics c0 M))) = 32" using r(2) by (simp add: lines_open_def)
  ultimately show ?thesis using r(1,3-12) unfolding eq by (simp add: Let_def)
qed

theorem shiro_start_ready_witness:
  "\<exists>S. started S \<and> (let K' = Shiro_Start demo_linkage ((demo_kernel S)\<lparr>k_mach := pic_mach\<rparr>) in
     if_flag (k_mach K') \<and> \<not> masked (reset_chip, reset_chip) (k_mach K') 1 \<and> masked (reset_chip, reset_chip) (k_mach K') 2)"
proof (rule sample_shell)
  fix S assume s: "started S"
  let ?K = "(demo_kernel S)\<lparr>k_mach := pic_mach\<rparr>"
  have w: "pic_wired (reset_chip, reset_chip) (k_mach ?K)" using pic_mach_wired(1) by simp
  have l: "length (directory (k_paging ?K)) = 1024" "length (tasks (k_sched ?K)) = 8"
    by (simp_all add: demo_kernel_def paging0_def sched0_def)
  note r = shiro_start_ready [OF w l, of demo_linkage, unfolded Let_def]
  note f = r [THEN conjunct1] and m = r [THEN conjunct2, THEN conjunct2, THEN conjunct1, rule_format]
  from m [of 1] m [of 2] have "\<not> masked (reset_chip, reset_chip) (k_mach (Shiro_Start demo_linkage ?K)) 1"
    "masked (reset_chip, reset_chip) (k_mach (Shiro_Start demo_linkage ?K)) 2" by simp_all
  with s f show ?thesis unfolding Let_def by (intro exI [of _ S] conjI)
qed


text \<open>C24: the start-up file on the mounted disk is run line by line: cut as \<open>cat\<close> prints it, each line that is
  neither empty nor starts with a hash is dispatched in order, up to the first command that stops
  the machine; whatever the file holds, no array is overrun, and when the script comes to an end
  only the shell has changed.\<close>

theorem init_runs_script:
  assumes "kernel_ok K" "kbc_live (k_mach K)" "platform_ok E"
    "mounted (ram (k_mach K)) b (xs @ (n, p) # ys) (k_initrd K)" "file_name (n, p) = str ''init.sh''"
    "unat b + length (ird_image (xs @ (n, p) # ys)) < 2 ^ 32" "file_name (n, p) \<notin> file_name ` set xs"
    "arg_apart E (length (file_name (n, p))) b (length (ird_image (xs @ (n, p) # ys)))"
  shows "\<exists>out. run_init E K = Some out \<and> run_script E (file_lines p) K = Some out
    \<and> (\<forall>K'. out = Returned K' \<longrightarrow> shell_only K K')"
proof -
  have q: "quiet (ram (k_mach K)) K" using assms(1,2) by (simp add: quiet_def)
  note f = file_found [OF assms(4,6,7,8)]
  from run_script_safe [OF assms(3) q, of "file_lines p"] file_lines_length
  obtain out where "run_script E (file_lines p) K = Some out" "\<forall>K'. out = Returned K' \<longrightarrow> shell_only K K'" by blast
  with init_loop_lines [OF assms(3) q f(3)] f(1) show ?thesis
    unfolding run_init_def assms(5) [symmetric] by (simp add: Let_def)
qed

theorem init_runs_script_witness:
  "\<exists>S out. started S \<and> run_init demo_platform (demo_kernel S) = Some out
     \<and> run_script demo_platform [str ''# boot'', str ''ver'', [], str ''ticks''] (demo_kernel S) = Some out"
proof (rule sample_shell)
  fix S assume s: "started S"
  let ?n = "str ''init.sh''" and ?p = "str ''# boot'' @ [0x0A] @ str ''ver'' @ [0x0A, 0x0A] @ str ''ticks''"
  let ?xs = "[hd demo_files]"
  have f: "?xs @ (?n, ?p) # [] = demo_files" by (simp add: demo_files_def)
  have m: "mounted (ram (k_mach (demo_kernel S))) 0x200000 (?xs @ (?n, ?p) # []) (k_initrd (demo_kernel S))"
    unfolding f by (rule demo_mounted)
  have l: "length (ird_image (?xs @ (?n, ?p) # [])) = 117" unfolding f by (rule demo_length)
  have n: "file_name (?n, ?p) = str ''init.sh''" by (simp add: file_name_def)
  have x: "file_name (?n, ?p) \<notin> file_name ` set ?xs" by (simp add: demo_files_def file_name_def)
  have a: "arg_apart demo_platform (length (file_name (?n, ?p))) 0x200000 (length (ird_image (?xs @ (?n, ?p) # [])))"
    unfolding l n by (simp add: arg_apart_def demo_platform_def)
  have r: "unat (0x200000 :: u32) + length (ird_image (?xs @ (?n, ?p) # [])) < 2 ^ 32" unfolding l by simp
  have "file_lines ?p = [str ''# boot'', str ''ver'', [], str ''ticks'']" by (simp add: file_lines_def chunks_short)
  with init_runs_script [OF demo_kernel_ok(1) [OF s] demo_kernel_live demo_kernel_ok(2) m n r x a] s show ?thesis by auto
qed

text \<open>A comment of more than 79 characters is not one comment: the array is cut at 79, and what follows
  is run as a command.\<close>

theorem init_comment_wraps:
  assumes "kernel_ok K" "kbc_live (k_mach K)" "platform_ok E"
    "mounted (ram (k_mach K)) b (xs @ (n, c @ t @ 0x0A # rest) # ys) (k_initrd K)"
    "file_name (n, c @ t @ 0x0A # rest) = str ''init.sh''"
    "unat b + length (ird_image (xs @ (n, c @ t @ 0x0A # rest) # ys)) < 2 ^ 32"
    "file_name (n, c @ t @ 0x0A # rest) \<notin> file_name ` set xs"
    "arg_apart E (length (file_name (n, c @ t @ 0x0A # rest))) b (length (ird_image (xs @ (n, c @ t @ 0x0A # rest) # ys)))"
    "length c = 79" "hd c = 0x23" "script_line t" "length t \<le> 79" "0x0A \<notin> set (c @ t)" "0x0D \<notin> set (c @ t)" "0 \<notin> set t"
  shows "run_init E K = Option.bind (Dispatch E t K) (\<lambda>out. and_then out (run_script E (file_lines rest)))"
proof -
  have q: "quiet (ram (k_mach K)) K" using assms(1,2) by (simp add: quiet_def)
  note f = file_found [OF assms(4,6,7,8)]
  have "t \<noteq> []" using assms(11) by (simp add: script_line_def)
  note l = file_lines_wrap [OF assms(9) this assms(12-14), of rest]
  have w: "takeWhile (\<lambda>c. c \<noteq> 0) t = t" using assms(15) by (auto simp: takeWhile_eq_all_conv)
  have "run_script E (file_lines (c @ t @ 0x0A # rest)) K
      = Option.bind (Dispatch E t K) (\<lambda>out. and_then out (run_script E (file_lines rest)))"
    using assms(9-11) by (simp add: l w) (simp add: script_line_def)
  with init_loop_lines [OF assms(3) q f(3)] f(1) show ?thesis
    unfolding run_init_def assms(5) [symmetric] by (simp add: Let_def)
qed

text \<open>A disk whose script is one comment of 83 characters, the last four of which spell \<open>halt\<close>.\<close>

definition long_comment :: rdfile where
  "long_comment = (str ''init.sh'', replicate 79 0x23 @ str ''halt'' @ [0x0A])"

definition long_kernel :: "shell \<Rightarrow> kernel" where
  "long_kernel S = (demo_kernel S)\<lparr>k_mach := blank\<lparr>ram := poke_bytes 0x200000 (ird_image [long_comment]) (\<lambda>_. 0)\<rparr>,
     k_initrd := \<lparr>ird_base = 0x200000, ird_length = 132, file_count = 1, ird_entries = 0x200008, ird_ready = True\<rparr>\<rparr>"

theorem init_comment_wraps_witness:
  "\<exists>S K'. started S \<and> run_init demo_platform (long_kernel S) = Some (Stopped K')"
proof (rule sample_shell)
  fix S assume s: "started S"
  let ?K = "long_kernel S" and ?c = "replicate 79 (0x23 :: u8)" and ?t = "str ''halt''"
  have n: "file_name (str ''init.sh'', ?c @ ?t @ 0x0A # []) = str ''init.sh''" by (simp add: file_name_def)
  have f: "[] @ (str ''init.sh'', ?c @ ?t @ 0x0A # []) # [] = [long_comment]" by (simp add: long_comment_def)
  have l: "length (ird_image [long_comment]) = 132" by (simp add: length_image long_comment_def)
  have m: "mounted (ram (k_mach ?K)) 0x200000 [long_comment] (k_initrd ?K)"
    using bytes_at_poke_bytes [of "ird_image [long_comment]" "0x200000" "\<lambda>_. 0"] l
    by (simp add: mounted_def long_kernel_def) (simp add: long_comment_def zero_in_str)
  have k: "kernel_ok ?K" "kbc_live (k_mach ?K)"
    using demo_kernel_ok(1) [OF s] kbc_live_dev [OF demo_kernel_live [of S], of "k_mach ?K"]
    by (simp_all add: long_kernel_def kernel_ok_def demo_kernel_def)
  have n: "file_name (str ''init.sh'', ?c @ ?t @ 0x0A # []) = str ''init.sh''" by (simp add: file_name_def)
  have a: "k \<le> 31 \<Longrightarrow> arg_apart demo_platform k 0x200000 132" for k by (simp add: arg_apart_def demo_platform_def)
  have c: "length ?c = 79" "hd ?c = 0x23" "script_line ?t" "length ?t \<le> 79" "0x0A \<notin> set (?c @ ?t)" "0x0D \<notin> set (?c @ ?t)" "0 \<notin> set ?t"
    by (simp_all add: script_line_def zero_in_str)
  have "run_init demo_platform ?K = Option.bind (Dispatch demo_platform ?t ?K) (\<lambda>out. and_then out (run_script demo_platform (file_lines [])))"
    by (rule init_comment_wraps [OF k demo_kernel_ok(2), where b = "0x200000" and xs = "[]" and ys = "[]" and n = "str ''init.sh''" and c = ?c])
      (use m l n a c in \<open>simp_all only: f, simp_all\<close>)
  moreover obtain K' where "cmd_halt ?K = Some (Stopped K')"
    using Print_safe [OF k(1) line_fits_short, of "str ''Halting CPU. Reset the machine to continue.''"]
    by (auto simp: cmd_halt_def)
  moreover have "Dispatch demo_platform ?t ?K = cmd_halt ?K"
    using c(7) by (simp add: Dispatch_spec dispatch_spec_def skip_blanks_def first_word_def separator_def lookup_word_def Table_def)
  ultimately show ?thesis using s by auto
qed

end
