(* ===== verification/Boot_Chain.thy ===== *)
theory Boot_Chain
  imports Kernel_Boot
begin

text \<open>
  The whole boot (src/src/src/kernel.cpp, \<open>shiro_main\<close>): what each of its steps leaves alone, and the
  theorem that it reaches the idle loop with every component in its invariant.
\<close>

section \<open>What the start of the shell touches\<close>

definition on_screen :: "u32 \<Rightarrow> bool" where
  "on_screen a \<longleftrightarrow> 0xB8000 \<le> unat a \<and> unat a < 0xB8000 + 4000"

definition screen_step :: "mach \<Rightarrow> mach \<Rightarrow> bool" where
  "screen_step M M' \<longleftrightarrow> calm M M' \<and> (\<forall>a. \<not> on_screen a \<longrightarrow> ram M' a = ram M a)"

lemma screen_step_refl [simp]: "screen_step M M"
  by (simp add: screen_step_def)

lemma screen_step_trans: "screen_step M M1 \<Longrightarrow> screen_step M1 M2 \<Longrightarrow> screen_step M M2"
  using calm_trans [of M M1 M2] by (simp add: screen_step_def)

lemma screen_step_log [simp]: "screen_step M (log_line xs M)"
  by (simp add: screen_step_def)

lemma pic_event_other: "p \<notin> {0x20, 0x21, 0xA0, 0xA1} \<Longrightarrow> pic_event (Out p v) cs = cs"
  by (cases cs) simp

lemma cursor_step [simp]: "screen_step M (Cursor_moveTo x y M)" "screen_step M (Cursor_enable M)"
  by (simp_all add: screen_step_def calm_def Cursor_moveTo_def Cursor_enable_def Let_def case_prod_beta pic_event_other)
    (simp_all add: inb_def Let_def)

lemma UpdateScreen_screen:
  assumes "shell_geo S" "screen S = SCREEN_ADDR" "UpdateScreen kb (M, S) = Some M'"
  shows "screen_step M M'"
proof -
  have "GetBufferSize kb \<noteq> None"
    using assms(3) by (auto simp: UpdateScreen_def Let_def bind_eq_Some_conv)
  then obtain n where n: "GetBufferSize kb = Some n" by auto
  let ?m = "paint (shown S) [1920..<2000] (paint (shown S) [160..<1920]
       (paint (shown S) [80..<160] (paint (shown S) [0..<80] (ram M))))"
  have m: "M' = Cursor_moveTo (of_nat (n + 7)) 24 (M\<lparr>ram := ?m\<rparr>)"
    using UpdateScreen_eq [OF assms(1,2) n, of M] assms(3) by simp
  have "?m a = ram M a" if "\<not> on_screen a" for a
    using that paint_outside [of _ "unat a"] unat_u32_less [of a]
    by (auto simp: on_screen_def not_le not_less simp del: upt_rec_numeral)
  then have "screen_step M (M\<lparr>ram := ?m\<rparr>)" by (simp add: screen_step_def)
  then show ?thesis unfolding m by (rule screen_step_trans) simp
qed

lemma updated_screen:
  "updated kb M r = Some (M', S') \<Longrightarrow> shell_geo S' \<Longrightarrow> screen S' = SCREEN_ADDR \<Longrightarrow> screen_step M M'"
  using UpdateScreen_screen by (auto simp: updated_def bind_eq_Some_conv)

lemma updated_calls:
  "StartTerminalFooter kb (M, S) = Some (M', S') \<Longrightarrow> \<exists>r. updated kb M r = Some (M', S')"
  "echo text kb (M, S) = Some (M', S') \<Longrightarrow> \<exists>r. updated kb M r = Some (M', S')"
  by (auto simp: StartTerminalFooter_def echo_def WriteF_def Let_def bind_eq_Some_conv)

lemma start_calls:
  "StartTerminal t (M, S) = Some (M', S') \<Longrightarrow> screen_step M M'"
  "StartTerminalHeader (M, S) = Some (M', S') \<Longrightarrow> screen_step M M'"
  "StartTerminalStatus (M, S) = Some (M', S') \<Longrightarrow> screen_step M M'"
  by (auto simp: StartTerminal_def StartTerminalHeader_def StartTerminalStatus_def Let_def bind_eq_Some_conv)

lemma start_terminals_screen:
  "for_each StartTerminal ts (M, S) = Some (M', S') \<Longrightarrow> screen_step M M'"
proof (induction ts arbitrary: M S)
  case (Cons t ts)
  then obtain M1 S1 where "StartTerminal t (M, S) = Some (M1, S1)" "for_each StartTerminal ts (M1, S1) = Some (M', S')"
    by (auto simp: bind_eq_Some_conv)
  with Cons.IH start_calls(1) screen_step_trans show ?case by blast
qed simp

lemma echo_screen:
  assumes "started S" "t \<in> {1..5}" "line_fits text" "GetBufferSize kb = Some n"
    "echo text kb (M, S\<lparr>current_terminal := t\<rparr>) = Some (M', S')"
  shows "screen_step M M' \<and> started S'"
proof -
  have s: "started S'" using echo_step [OF assms(1-4), of M] assms(5) by auto
  from updated_calls(2) [OF assms(5)] updated_screen started_geo [OF s] s show ?thesis by blast
qed

lemma echoes_screen:
  assumes "started S" "set ts \<subseteq> {1..5}" "line_fits text" "GetBufferSize kb = Some n"
    "for_each (\<lambda>t (M, S). echo text kb (M, S\<lparr>current_terminal := t\<rparr>)) ts (M, S) = Some (M', S')"
  shows "screen_step M M' \<and> started S'"
  using assms
proof (induction ts arbitrary: M S)
  case (Cons t ts)
  then obtain M1 S1 where e: "echo text kb (M, S\<lparr>current_terminal := t\<rparr>) = Some (M1, S1)"
    "for_each (\<lambda>t (M, S). echo text kb (M, S\<lparr>current_terminal := t\<rparr>)) ts (M1, S1) = Some (M', S')"
    by (auto simp: bind_eq_Some_conv)
  have "screen_step M M1 \<and> started S1" using echo_screen [OF Cons.prems(1) _ Cons.prems(3,4) e(1)] Cons.prems(2) by simp
  with Cons.IH [OF _ _ Cons.prems(3,4) e(2)] Cons.prems(2) screen_step_trans show ?case by auto
qed simp

lemma Finish_screen:
  assumes "started S" "GetBufferSize kb = Some n" "Shell_Finish kb (M, S) = Some (M', S')"
  shows "screen_step M M'"
proof -
  let ?M0 = "log_line [LStr (''> Finishing Shell'' @ [CHR 0x0A])] M"
  have f: "line_fits (str (''> SHIRO IS LOADED AND READY TO GO'' @ [CHR 0x0A]))"
    "line_fits (str (''> THE DEBUG TERMINAL IS LOADED AND READY TO GO'' @ [CHR 0x0A]))"
    by (rule line_fits_short, simp)+
  from assms(3) obtain M1 S1 M2 S2 where
    a: "for_each (\<lambda>t (M, S). echo (str (''> SHIRO IS LOADED AND READY TO GO'' @ [CHR 0x0A])) kb
        (M, S\<lparr>current_terminal := t\<rparr>)) [1..<5] (?M0, S) = Some (M1, S1)" and
    b: "echo (str (''> THE DEBUG TERMINAL IS LOADED AND READY TO GO'' @ [CHR 0x0A])) kb
        (M1, S1\<lparr>current_terminal := 5\<rparr>) = Some (M2, S2)" and
    c: "updated kb M2 (Some (S2\<lparr>current_terminal := current_terminal S\<rparr>)) = Some (M', S')"
    by (auto simp: Shell_Finish_def Let_def bind_eq_Some_conv simp del: str_simps upt_rec_numeral)
  have "set [1..<5 :: nat] \<subseteq> {1..5}" by auto
  from echoes_screen [OF assms(1) this f(1) assms(2) a] have m1: "screen_step ?M0 M1" "started S1" by simp_all
  from echo_screen [OF m1(2) _ f(2) assms(2) b] have m2: "screen_step M1 M2" "started S2" by simp_all
  have "current_terminal S \<in> {1..5}" using assms(1) by (auto simp: started_def shell_ok_def shell_geo_def)
  then have "started (S2\<lparr>current_terminal := current_terminal S\<rparr>)" using shell_ok_current m2(2) by (simp add: started_def)
  moreover have "S' = S2\<lparr>current_terminal := current_terminal S\<rparr>" using c by (auto simp: updated_def bind_eq_Some_conv)
  ultimately have "screen_step M2 M'" using updated_screen [OF c] started_geo by blast
  with m1(1) m2(1) screen_step_trans [OF screen_step_log [of M]] show ?thesis using screen_step_trans by blast
qed

lemma Shell_Start_screen:
  assumes "shell_arrays S" "GetBufferSize kb = Some n"
  shows "\<exists>M' S'. Shell_Start kb (M, S) = Some (M', S') \<and> started S' \<and> screen_step M M'"
proof (rule Shell_Start_steps [OF assms, of M])
  fix M1 S1 M2 S2 M3 S3 M4 S4 S6 S7
  assume s: "StartTerminalHeader (log_line [LStr ([CHR 0x0A] @ ''> Starting Shell'')] M, shell_members S) = Some (M1, S1)"
    "StartTerminalStatus (M1, S1) = Some (M2, S2)" "for_each StartTerminal [1, 2, 3, 4, 5] (M2, S2) = Some (M3, S3)"
    "StartTerminalFooter kb (M3, S3) = Some (M4, S4)" "RenderHeader S4 = Some S6"
    "RenderStatus (str ''booting...'') S6 = Some S7" and b4: "booting S4" and b7: "booting S7" "\<forall>t \<in> {1..5}. blank_term t S7"
  have g: "shell_geo S4" "screen S4 = SCREEN_ADDR" using b4 by (simp_all add: booting_def)
  from updated_step [OF g assms(2), of M4] obtain M5 where s5: "updated kb M4 (Some S4) = Some (M5, S4)" by blast
  let ?M6 = "Cursor_moveTo 7 (of_nat (screen_height (layout S4) - 1)) (Cursor_enable M5)"
  from Finish_ok [OF blank_started(1) [OF b7] assms(2) blank_started(2) [OF b7], of ?M6] obtain M8 S8 where
    s8: "Shell_Finish kb (?M6, S7) = Some (M8, S8)" "started S8" by blast
  have "Shell_Start kb (M, S) = Some (M8, S8)"
    unfolding Shell_Start_def prod.case Let_def
    by (simp only: s s5 s8(1) Option.bind.simps prod.case)
  moreover have "screen_step M M4"
    using updated_calls(1) [OF s(4)] updated_screen g start_calls(2) [OF s(1)] start_calls(3) [OF s(2)]
      start_terminals_screen [OF s(3)] screen_step_trans screen_step_log by meson
  moreover have "screen_step M4 ?M6" using updated_screen [OF s5 g] cursor_step screen_step_trans by meson
  moreover have "screen_step ?M6 M8" by (rule Finish_screen [OF blank_started(1) [OF b7] assms(2) s8(1)])
  ultimately show ?thesis using s8(2) screen_step_trans by blast
qed

section \<open>The heap during the boot\<close>

text \<open>Blocks are only taken so far: used ones, then one free block of \<open>s\<close> bytes.\<close>

definition roomy :: "mach \<Rightarrow> heap \<Rightarrow> nat \<Rightarrow> bool" where
  "roomy M H s \<longleftrightarrow> (\<exists>us. heap_ok M H (us @ [(s, False)]) \<and> (\<forall>(k, u) \<in> set us. u))"

lemma roomy_start: "heap_ok M H [(s, False)] \<Longrightarrow> roomy M H s"
  unfolding roomy_def by (intro exI [of _ "[]"]) simp

lemma roomy_inv: "roomy M H s \<Longrightarrow> heap_inv M H"
  by (auto simp: roomy_def heap_okI)

lemma roomy_end: "roomy M H s \<Longrightarrow> heap_end H = heap_base H + HEAP_SIZE"
  by (auto simp: roomy_def heap_ok_def)

lemma split_fit_used: "\<forall>(k, u) \<in> set us. u \<Longrightarrow> n \<le> s \<Longrightarrow> split_fit n (us @ [(s, False)]) = Some (us, s, [])"
  by (induction us) auto

lemma roomy_alloc:
  assumes "roomy M H s" "unat (Heap_Round n) + 32 < s"
  shows "\<exists>p M' H'. Heap_Alloc n M H = Some (p, M', H') \<and> p \<noteq> 0 \<and> roomy M' H' (s - unat (Heap_Round n) - HDR)
    \<and> M' = M\<lparr>ram := ram M'\<rparr> \<and> heap_first H' = heap_first H \<and> heap_base H' = heap_base H
    \<and> (\<forall>a. unat a < unat (heap_first H) \<or> unat (heap_first H) + 2 ^ 22 \<le> unat a \<longrightarrow> ram M' a = ram M a)"
proof -
  let ?k = "unat (Heap_Round n)"
  from assms(1) obtain us where u: "heap_ok M H (us @ [(s, False)])" "\<forall>(k, u) \<in> set us. u" by (auto simp: roomy_def)
  have sp: "split_fit ?k (us @ [(s, False)]) = Some (us, s, [])" by (rule split_fit_used [OF u(2)]) (use assms(2) in simp)
  from Heap_Alloc_ok [OF u(1) sp] obtain M' H' where
    a: "Heap_Alloc n M H = Some (heap_first H + of_nat (total us) + 16, M', H')"
    "heap_ok M' H' (us @ carve ?k s @ [])" "heap_first H' = heap_first H" "M' = M\<lparr>ram := ram M'\<rparr>"
    "frame (unat (heap_first H) + total us) (unat (heap_first H) + total us + (HDR + s)) (ram M) (ram M')" by blast
  have t: "total us + HDR + s = 2 ^ 22" "unat (heap_first H) + 2 ^ 22 < 2 ^ 32" using u(1) by (auto simp: heap_ok_def)
  have c: "carve ?k s = [(?k, True), (s - ?k - HDR, False)]" using assms(2) by (simp add: carve_def HDR_def)
  have r: "roomy M' H' (s - ?k - HDR)"
    unfolding roomy_def by (intro exI [of _ "us @ [(?k, True)]"]) (use a(2) u(2) in \<open>simp add: c\<close>)
  have "of_nat (unat (heap_first H) + total us + 16) \<noteq> (0 :: u32)"
    by (rule of_nat_u32_neq0) (use t in \<open>simp_all add: HDR_def\<close>)
  then have p: "heap_first H + of_nat (total us) + 16 \<noteq> 0" by simp
  have f: "ram M' x = ram M x" if "unat x < unat (heap_first H) \<or> unat (heap_first H) + 2 ^ 22 \<le> unat x" for x
    using frameD [OF a(5) unat_u32_less [of x]] that t(1) by (auto simp: HDR_def)
  have b: "heap_base H' = heap_base H" using a(2,3) u(1) by (simp add: heap_ok_def)
  show ?thesis
    using a(1,3,4) p r f b
    by (intro exI [of _ "heap_first H + of_nat (total us) + 16"] exI [of _ M'] exI [of _ H']) simp
qed

lemma roomy_ram:
  assumes "roomy M H s" "\<forall>a. unat (heap_first H) \<le> unat a \<longrightarrow> ram M' a = ram M a"
  shows "roomy M' H s"
proof -
  from assms(1) obtain us where u: "heap_ok M H (us @ [(s, False)])" "\<forall>(k, u) \<in> set us. u" by (auto simp: roomy_def)
  have t: "unat (heap_first H) + 2 ^ 22 < 2 ^ 32" "total (us @ [(s, False)]) = 2 ^ 22" using u(1) by (auto simp: heap_ok_def)
  have "chain (ram M') (unat (heap_first H)) (us @ [(s, False)]) 0 = chain (ram M) (unat (heap_first H)) (us @ [(s, False)]) 0"
    by (rule chain_frame) (use assms(2) t in auto)
  with u(1) have "heap_ok M' H (us @ [(s, False)])" by (simp add: heap_ok_def)
  with u(2) show ?thesis by (auto simp: roomy_def)
qed

section \<open>The boot loader's block during the boot\<close>

lemma Initrd_Start_returns:
  assumes "tag_chain (ram M) (mbi + 8) ts"
  shows "\<exists>l I. Initrd_Start mbi M = Some (M\<lparr>klog := l\<rparr>, I)"
proof -
  have step: "\<exists>l I' b. initrd_tag t (M\<lparr>klog := l0\<rparr>, I) = Some ((M\<lparr>klog := l\<rparr>, I'), b)" for t l0 I
    by (auto simp: initrd_tag_def Let_def log_line_def)
  have "\<exists>l I' b. run_tags initrd_tag us (M\<lparr>klog := l0\<rparr>, I) = Some ((M\<lparr>klog := l\<rparr>, I'), b)" for us l0 I
  proof (induction us arbitrary: l0 I)
    case (Cons t us)
    from step [of t l0 I] obtain l1 I1 b where s: "initrd_tag t (M\<lparr>klog := l0\<rparr>, I) = Some ((M\<lparr>klog := l1\<rparr>, I1), b)" by blast
    from Cons.IH [of l1 I1] s show ?case by (cases b) auto
  qed auto
  from this [of ts "klog M" initrd0] obtain l I b where "run_tags initrd_tag ts (M, initrd0) = Some ((M\<lparr>klog := l\<rparr>, I), b)" by auto
  then show ?thesis using mb2_walk_chain [OF assms, of initrd_tag "(M, initrd0)"]
    by (auto simp: Initrd_Start_def log_line_def)
qed

lemma Multiboot_Start_returns:
  assumes "mmap_wf (ram M) mbi ts"
  shows "\<exists>l B'. Multiboot_Start magic mbi (M, B) = Some (M\<lparr>klog := l\<rparr>, B')"
proof -
  have "mb2_walk (ram M) (multiboot_tag (ram M)) (mbi + 8) B1 \<noteq> None" for B1
  proof -
    have "run_tags (multiboot_tag (ram M)) ts B1 = None \<longleftrightarrow> (\<exists>t \<in> set ts. faulty_mmap (ram M) t)"
      by (rule run_tags_None) (auto simp: multiboot_tag_step split: if_splits)
    with assms mb2_walk_chain [of "ram M" "mbi + 8" ts "multiboot_tag (ram M)" B1] show ?thesis
      by (auto simp: mmap_wf_def faulty_mmap_def)
  qed
  then obtain r where "mb2_walk (ram M) (multiboot_tag (ram M)) (mbi + 8) ((Multiboot_Reset B)\<lparr>mb_valid := True\<rparr>) = Some r"
    by (meson not_None_eq)
  then show ?thesis
    by (cases r) (auto simp: Multiboot_Start_def Let_def multiboot_log_def log_line_def)
qed

lemma calm_ram: "N = M\<lparr>ram := r\<rparr> \<Longrightarrow> calm M N"
  by simp

section \<open>Spawning during the boot\<close>

lemma roomy_put:
  assumes "roomy M H s" "\<And>x. m x \<noteq> ram M x \<Longrightarrow> \<exists>(p, k) \<in> heap_regions M H. p \<le> unat x \<and> unat x < p + k"
  shows "roomy (M\<lparr>ram := m\<rparr>) H s"
  using assms(1) heap_put_ok [OF _ assms(2)] unfolding roomy_def by blast

lemma roomy_log [simp]: "roomy (log_line xs M) H s = roomy M H s"
  by (simp add: roomy_def heap_ok_def)

definition nul_names :: "sched \<Rightarrow> bool" where
  "nul_names S \<longleftrightarrow> (\<forall>i < 8. 0 \<in> set (t_name (tasks S ! i)))"

lemma Spawn_boot:
  assumes "sched_ok S" "used_slots S = {0..<n}" "n < 8" "stacks_ok M H S" "nul_names S" "roomy M H s" "8192 \<le> s"
  shows "\<exists>M' H' S'. Spawn entry name (M, H, S) = Some (int n, M', H', S') \<and> roomy M' H' (s - 4112)
    \<and> sched_ok S' \<and> used_slots S' = {0..<Suc n} \<and> stacks_ok M' H' S' \<and> nul_names S' \<and> current S' = current S \<and> calm M M'
    \<and> heap_end H' = heap_end H"
proof -
  have k: "unat (Heap_Round STACK_SIZE) = 4096" by (simp add: Heap_Round_def STACK_SIZE_def)
  from roomy_alloc [OF assms(6), of STACK_SIZE] assms(7) obtain p M1 H1 where
    a: "Heap_Alloc STACK_SIZE M H = Some (p, M1, H1)" "p \<noteq> 0" "roomy M1 H1 (s - 4112)" "M1 = M\<lparr>ram := ram M1\<rparr>"
      "heap_base H1 = heap_base H"
    by (auto simp: k HDR_def)
  note inv = roomy_inv [OF assms(6)]
  have "used_slots S \<noteq> {0..<8}" using assms(2,3) by (metis atLeastLessThan_iff le0 less_irrefl)
  with find_slot_None [of S] obtain slot where f: "find_slot (tasks S) = Some slot" by auto
  define M2 where "M2 = M1\<lparr>ram := format_stack p entry (ram M1)\<rparr>"
  have "sched_ready S" using assms(1) by (simp add: sched_ok_def)
  then have "\<exists>t xs. Spawn entry name (M, H, S) = Some (int slot, log_line xs M2, H1,
      S\<lparr>tasks := (tasks S)[slot := t], spawned_count := spawned_count S + 1\<rparr>)"
    using a(2) unfolding Spawn_def M2_def by (simp add: f a(1) Let_def) blast
  then obtain t xs where sp: "Spawn entry name (M, H, S) = Some (int slot, log_line xs M2, H1,
      S\<lparr>tasks := (tasks S)[slot := t], spawned_count := spawned_count S + 1\<rparr>)" by blast
  have al: "heap_alloc STACK_SIZE (M, H) = Some (p, (M1, H1))" using a(1) by (simp add: heap_alloc_def)
  have n: "STACK_SIZE \<le> 0xFFFFFFF8" "unat STACK_SIZE = 4096" by (simp_all add: STACK_SIZE_def)
  from kheap.alloc_new [OF _ al a(2) n(1)] inv obtain l where l: "4096 \<le> l" "(unat p, l) \<in> heap_regions M1 H1" by (auto simp: n(2))
  with kheap.regions_bound [of "(M1, H1)" "unat p" l] roomy_inv [OF a(3)] have b: "unat p + 4096 < 2 ^ 32" by auto
  have "\<exists>(q, k) \<in> heap_regions M1 H1. q \<le> unat x \<and> unat x < q + k" if "format_stack p entry (ram M1) x \<noteq> ram M1 x" for x
    using format_stack_range [OF b, of entry "ram M1" x] that l by (intro bexI [OF _ l(2)]) simp
  then have r: "roomy (log_line xs M2) H1 (s - 4112)" unfolding M2_def roomy_log by (rule roomy_put [OF a(3)])
  have c: "calm M (log_line xs M2)"
    unfolding M2_def by (intro calm_trans [OF calm_ram [OF a(4)] calm_trans [OF _ calm_simps(1)]] calm_simps(2))
  note s = Spawn_sound [OF assms(1) inv assms(4) sp]
  have "slot = n \<and> used_slots (S\<lparr>tasks := (tasks S)[slot := t], spawned_count := spawned_count S + 1\<rparr>) = {0..<Suc n}
    \<and> nul_names (S\<lparr>tasks := (tasks S)[slot := t], spawned_count := spawned_count S + 1\<rparr>)"
    using assms(1) inv
  proof (cases rule: Spawn_cases [of _ _ _ entry name])
    case (new sl stack M3 H3 t')
    from trans [OF sp [symmetric] new(4)] have e0: "sl = slot" "S\<lparr>tasks := (tasks S)[slot := t], spawned_count := spawned_count S + 1\<rparr>
      = S\<lparr>tasks := (tasks S)[sl := t'], spawned_count := spawned_count S + 1\<rparr>"
      unfolding option.inject prod.inject of_nat_eq_iff by blast+
    from e0(1) arg_cong [OF e0(2), of tasks] have e: "sl = slot" "(tasks S)[slot := t] = (tasks S)[slot := t']" by simp_all
    have "slot = n" using new(1-3) unfolding e(1) assms(2) by (metis atLeastLessThan_iff le0 less_irrefl nat_neq_iff)
    moreover have "length (tasks S) = 8" using assms(1) by (simp add: sched_ok_def)
    ultimately show ?thesis
      using sched_ok_spawn(2) [OF assms(1) new(1,2,11,12,16)] new(18) assms(2,3,5) e
      by (auto simp: nul_names_def nth_list_update)
  qed (use sp assms(2,3) in auto)
  moreover have "heap_end H1 = heap_end H" using roomy_end [OF a(3)] roomy_end [OF assms(6)] a(5) by simp
  ultimately show ?thesis using sp r s c by auto
qed

section \<open>From the shell to the idle loop\<close>

text \<open>
  \<open>booted c0 n s K\<close>: the shell and the keyboard are in the invariant of the idle loop, the lines of the
  timer and of the keyboard are open, \<open>n\<close> tasks sit in the first slots, task 0 runs, and the
  heap ends with a free block of \<open>s\<close> bytes.
\<close>

definition booted :: "chip \<times> chip \<Rightarrow> nat \<Rightarrow> nat \<Rightarrow> kernel \<Rightarrow> bool" where
  "booted c0 n s K \<longleftrightarrow> update_ok K \<and> if_flag (k_mach K) \<and> lines_open c0 {0, 1} (k_mach K)
     \<and> sched_ok (k_sched K) \<and> used_slots (k_sched K) = {0..<n} \<and> current (k_sched K) = 0 \<and> nul_names (k_sched K)
     \<and> stacks_ok (k_mach K) (k_heap K) (k_sched K) \<and> roomy (k_mach K) (k_heap K) s"

lemma calm_open: "calm M M' \<Longrightarrow> lines_open c0 D M' = lines_open c0 D M"
  unfolding calm_def by (rule lines_open_same) blast+

lemma nul_names_all: "sched_ok S \<Longrightarrow> nul_names S \<Longrightarrow> \<forall>t \<in> set (tasks S). 0 \<in> set (t_name t)"
  by (auto simp: nul_names_def sched_ok_def in_set_conv_nth)

lemma spawn_booted:
  assumes "booted c0 n s K" "n < 8" "8192 \<le> s"
  shows "\<exists>K'. spawn_task L i K = Some K' \<and> booted c0 (Suc n) (s - 4112) K' \<and> k_pmm K' = k_pmm K
    \<and> heap_end (k_heap K') = heap_end (k_heap K)"
proof -
  let ?S = "k_sched K"
  have b: "update_ok K" "if_flag (k_mach K)" "lines_open c0 {0, 1} (k_mach K)" "sched_ok ?S" "used_slots ?S = {0..<n}"
    "current ?S = 0" "nul_names ?S" "stacks_ok (k_mach K) (k_heap K) ?S" "roomy (k_mach K) (k_heap K) s"
    using assms(1) by (simp_all add: booted_def)
  from Spawn_boot [OF b(4,5) assms(2) b(8,7,9) assms(3), of "task_entry L i" "task_label L i"] obtain M' H' S' where
    s: "Spawn (task_entry L i) (task_label L i) (k_mach K, k_heap K, ?S) = Some (int n, M', H', S')"
    "roomy M' H' (s - 4112)" "sched_ok S'" "used_slots S' = {0..<Suc n}" "stacks_ok M' H' S'" "nul_names S'"
    "current S' = current ?S" "calm (k_mach K) M'" "heap_end H' = heap_end (k_heap K)" by blast
  let ?K = "K\<lparr>k_mach := M', k_heap := H', k_sched := S'\<rparr>"
  have k: "kernel_ok ?K"
    using b(1,6) s(3,7) nul_names_all [OF s(3,6)] by (simp add: update_ok_def kernel_ok_def sched_ok_def)
  have u: "update_ok ?K"
    using b(1) k kbc_live_dev [of "k_mach K" M'] s(8) by (simp add: update_ok_def calm_def)
  have f: "if_flag M'" "lines_open c0 {0, 1} M'" using b(2,3) s(8) calm_open [OF s(8)] by (simp_all add: calm_def)
  have "spawn_task L i K = Some ?K" by (simp add: spawn_task_def s(1))
  with u f s(2-7,9) b(6) show ?thesis by (intro exI [of _ ?K]) (simp add: booted_def)
qed

lemma spawns_booted:
  assumes "booted c0 n s K" "n + length is \<le> 8" "4112 * length is + 4080 \<le> s"
  shows "\<exists>K'. for_each (spawn_task L) is K = Some K' \<and> booted c0 (n + length is) (s - 4112 * length is) K' \<and> k_pmm K' = k_pmm K
    \<and> heap_end (k_heap K') = heap_end (k_heap K)"
  using assms
proof (induction "is" arbitrary: n s K)
  case (Cons i js)
  from spawn_booted [OF Cons.prems(1), of L i] Cons.prems(2,3) obtain K1 where
    k: "spawn_task L i K = Some K1" "booted c0 (Suc n) (s - 4112) K1" "k_pmm K1 = k_pmm K"
      "heap_end (k_heap K1) = heap_end (k_heap K)" by auto
  have l: "Suc n + length js \<le> 8" "4112 * length js + 4080 \<le> s - 4112" "s - 4112 - 4112 * length js = s - 4112 * length (i # js)"
    using Cons.prems(2,3) by simp_all
  from Cons.IH [OF k(2) l(1,2)] obtain K2 where
    "for_each (spawn_task L) js K1 = Some K2" "booted c0 (Suc n + length js) (s - 4112 * length (i # js)) K2" "k_pmm K2 = k_pmm K1"
      "heap_end (k_heap K2) = heap_end (k_heap K1)"
    unfolding l(3) by blast
  with k show ?case by (intro exI [of _ K2]) simp
qed auto

lemma booted_only: "booted c0 n s K \<Longrightarrow> shell_only K K' \<Longrightarrow> booted c0 n s K'"
proof -
  assume a: "booted c0 n s K" "shell_only K K'"
  have "update_ok K'" using update_ok_step [OF _ shell_only_step [OF a(2)]] a(1) by (simp add: booted_def)
  moreover from a(2) obtain S where "K' = K\<lparr>k_shell := S\<rparr>" unfolding shell_only_def by blast
  ultimately show ?thesis using a(1) by (simp add: booted_def)
qed

text \<open>Whatever is on the disk, \<open>init.sh\<close> comes to an end.\<close>

lemma run_init_safe:
  assumes "update_ok K" "platform_ok E"
  shows "\<exists>out. run_init E K = Some out \<and> (\<forall>K'. out = Returned K' \<longrightarrow> shell_only K K')"
    "\<not> ird_ready (k_initrd K) \<Longrightarrow> run_init E K = Some (Returned K)"
proof -
  have q: "quiet (ram (k_mach K)) K" using assms(1) by (simp add: quiet_def update_ok_def)
  let ?e = "find_file E (str ''init.sh'') K"
  let ?d = "Initrd_Data (ram (k_mach K)) ?e (k_initrd K)"
  let ?p = "data_at (ram (k_mach K)) ?d (entry_size (ram (k_mach K)) ?e)"
  from run_script_safe [OF assms(2) q, of "file_lines ?p"] file_lines_length init_loop_lines [OF assms(2) q refl, of ?e ?d] q
  show "\<exists>out. run_init E K = Some out \<and> (\<forall>K'. out = Returned K' \<longrightarrow> shell_only K K')"
    by (auto simp: run_init_def Let_def quiet_def kernel_ok_def shell_only_refl)
  show "\<not> ird_ready (k_initrd K) \<Longrightarrow> run_init E K = Some (Returned K)"
    by (simp add: run_init_def find_file_def Initrd_Find_def)
qed

section \<open>Up to the shell\<close>

lemma Heap_Round_le: "unat n \<le> 2 ^ 20 \<Longrightarrow> unat (Heap_Round n) \<le> 2 ^ 20 + 8"
proof -
  assume a: "unat n \<le> 2 ^ 20"
  let ?n = "if n < 8 then 8 else n"
  have "unat ?n \<le> 2 ^ 20" using a by simp
  then have "unat (?n + 7) \<le> 2 ^ 20 + 7" by (simp add: unat_word_ariths)
  then show ?thesis unfolding Heap_Round_def unat_and_not_7 by simp
qed

lemma new_instance_roomy:
  assumes "roomy (k_mach K) (k_heap K) s" "unat n \<le> 2 ^ 20" "2 ^ 20 + 64 \<le> s"
  shows "\<exists>M H s'. new_instance n K = Some (K\<lparr>k_mach := M, k_heap := H\<rparr>) \<and> roomy M H s' \<and> s \<le> s' + 2 ^ 20 + 64
    \<and> calm (k_mach K) M \<and> heap_first H = heap_first (k_heap K) \<and> heap_base H = heap_base (k_heap K)
    \<and> (\<forall>a. unat a < unat (heap_first H) \<or> unat (heap_first H) + 2 ^ 22 \<le> unat a \<longrightarrow> ram M a = ram (k_mach K) a)"
proof -
  note r = Heap_Round_le [OF assms(2)]
  have "unat (Heap_Round n) + 32 < s" using r assms(3) by simp
  from roomy_alloc [OF assms(1) this] obtain p M H where
    "Heap_Alloc n (k_mach K) (k_heap K) = Some (p, M, H)" "roomy M H (s - unat (Heap_Round n) - HDR)"
    "M = (k_mach K)\<lparr>ram := ram M\<rparr>" "heap_first H = heap_first (k_heap K)" "heap_base H = heap_base (k_heap K)"
    "\<forall>a. unat a < unat (heap_first (k_heap K)) \<or> unat (heap_first (k_heap K)) + 2 ^ 22 \<le> unat a \<longrightarrow> ram M a = ram (k_mach K) a"
    by blast
  moreover have "s \<le> (s - unat (Heap_Round n) - HDR) + 2 ^ 20 + 64" using r by (simp add: HDR_def)
  ultimately show ?thesis
    using calm_ram [of M "ram M" "k_mach K"] by (intro exI [of _ M] exI [of _ H] exI [of _ "s - unat (Heap_Round n) - HDR"])
      (simp add: new_instance_def)
qed

text \<open>What the loader and the linker provide, and the state of the machine at power-on.\<close>

definition loader_ok :: "linkage \<Rightarrow> u32 \<Rightarrow> u32 list \<Rightarrow> kernel \<Rightarrow> bool" where
  "loader_ok L mbi ts K \<longleftrightarrow> mmap_wf (ram (k_mach K)) mbi ts \<and> kernel_start L \<le> kernel_end L
     \<and> 0xB8FA0 \<le> kernel_end L \<and> unat (kernel_end L) + 4095 + 2 ^ 22 < 2 ^ 32
     \<and> unat (sizeof_shiro L) \<le> 2 ^ 20 \<and> unat (sizeof_shell L) \<le> 2 ^ 20
     \<and> (\<exists>e. modules_end (ram (k_mach K)) mbi = Some e \<and> unat e + 4095 + 2 ^ 22 < 2 ^ 32
         \<and> (let H = snd (Heap_Start (kernel_end L) e (k_mach K))
            in \<forall>a \<in> info_bytes (ram (k_mach K)) mbi ts. a < heap_base H \<or> heap_end H \<le> a))"

definition power_on :: "chip \<times> chip \<Rightarrow> kernel \<Rightarrow> bool" where
  "power_on c0 K \<longleftrightarrow> pic_wired c0 (k_mach K) \<and> kbc_live (k_mach K)
     \<and> length (directory (k_paging K)) = 1024 \<and> length (tasks (k_sched K)) = 8 \<and> shell_arrays (k_shell K)
     \<and> kb_ok (k_kbd K) \<and> function_key (k_kbd K) \<le> 5"

lemma roomy_same: "ram M' = ram M \<Longrightarrow> roomy M' H s = roomy M H s"
  by (simp add: roomy_def heap_ok_def)

lemma Initrd_Start_none:
  assumes "tag_chain (ram M) (mbi + 8) ts" "\<forall>t \<in> set ts. tag_type (ram M) t \<noteq> MB2_TAG_MODULE" "Initrd_Start mbi M = Some (M', I)"
  shows "\<not> ird_ready I"
proof -
  have "run_tags initrd_tag us (M, initrd0) = Some ((M, initrd0), False)" if "set us \<subseteq> set ts" for us
    using that assms(2) by (induction us) (auto simp: initrd_tag_def)
  with assms(3) mb2_walk_chain [OF assms(1), of initrd_tag "(M, initrd0)"] show ?thesis
    by (auto simp: Initrd_Start_def initrd0_def log_line_def split: if_splits)
qed

lemma boot_memory:
  assumes "loader_ok L mbi ts K"
  obtains M I H s P where
    "Option.bind (memory_start L mbi K) (\<lambda>K1. Option.bind (Initrd_Start mbi (k_mach K1)) (\<lambda>(M2, I).
       new_instance (sizeof_shiro L) (K1\<lparr>k_mach := M2, k_initrd := I\<rparr>)))
     = Some (K\<lparr>k_mach := M, k_heap := H, k_pmm := P, k_initrd := I\<rparr>)"
    "roomy M H s" "2 ^ 21 + 2 ^ 20 - 80 \<le> s" "calm (k_mach K) M" "mmap_wf (ram M) mbi ts" "0xB8FA0 \<le> unat (heap_first H)"
    "pmm_ok P" "free_set P = boot_pages (ram (k_mach K)) ts (kernel_start L) (heap_end H)"
    "(\<forall>t \<in> set ts. tag_type (ram (k_mach K)) t \<noteq> MB2_TAG_MODULE) \<Longrightarrow> \<not> ird_ready I"
proof -
  let ?m = "ram (k_mach K)"
  obtain e M1 H1 where e: "modules_end ?m mbi = Some e" "unat e + 4095 + 2 ^ 22 < 2 ^ 32"
    "Heap_Start (kernel_end L) e (k_mach K) = (M1, H1)" "\<forall>a \<in> info_bytes ?m mbi ts. a < heap_base H1 \<or> heap_end H1 \<le> a"
    using assms by (metis loader_ok_def prod.collapse)
  have l: "mmap_wf ?m mbi ts" "kernel_start L \<le> kernel_end L" "0xB8FA0 \<le> kernel_end L" "unat (kernel_end L) + 4095 + 2 ^ 22 < 2 ^ 32"
    "unat (sizeof_shiro L) \<le> 2 ^ 20"
    using assms by (simp_all add: loader_ok_def)
  have "0 < kernel_end L" using l(3) by (simp add: word_le_nat_alt word_less_nat_alt)
  from memory_start_eq [OF l(1,2) this l(4) e] obtain M2 P where
    m: "memory_start L mbi K = Some (K\<lparr>k_mach := M2, k_heap := H1, k_pmm := P\<rparr>)" "heap_ok M2 H1 [(2 ^ 22 - 16, False)]"
      "mmap_wf (ram M2) mbi ts" "calm (k_mach K) M2" "agree (info_bytes ?m mbi ts) ?m (ram M2)" "kernel_end L \<le> heap_base H1"
      "pmm_ok P" "free_set P = boot_pages ?m ts (kernel_start L) (heap_end H1)" by blast
  have c: "tag_chain (ram M2) (mbi + 8) ts" using m(3) by (simp add: mmap_wf_def)
  from Initrd_Start_returns [OF c] obtain lg I where i: "Initrd_Start mbi M2 = Some (M2\<lparr>klog := lg\<rparr>, I)" by blast
  let ?K2 = "K\<lparr>k_mach := M2\<lparr>klog := lg\<rparr>, k_heap := H1, k_pmm := P, k_initrd := I\<rparr>"
  have "roomy (k_mach ?K2) (k_heap ?K2) (2 ^ 22 - 16)" using roomy_start [OF m(2)] roomy_same [of "M2\<lparr>klog := lg\<rparr>" M2] by simp
  from new_instance_roomy [OF this l(5)] obtain M3 H3 s where
    n: "new_instance (sizeof_shiro L) ?K2 = Some (?K2\<lparr>k_mach := M3, k_heap := H3\<rparr>)" "roomy M3 H3 s"
      "2 ^ 22 - 16 \<le> s + 2 ^ 20 + 64" "calm (k_mach ?K2) M3" "heap_first H3 = heap_first H1" "heap_base H3 = heap_base H1"
      "\<forall>a. unat a < unat (heap_first H1) \<or> unat (heap_first H1) + 2 ^ 22 \<le> unat a \<longrightarrow> ram M3 a = ram M2 a" by auto
  have h: "heap_base H1 = heap_first H1" "heap_base H3 = heap_first H3" "heap_end H1 = heap_base H1 + HEAP_SIZE"
    "heap_end H3 = heap_base H3 + HEAP_SIZE" "unat (heap_first H1) + 2 ^ 22 < 2 ^ 32"
    using m(2) n(2) by (auto simp: heap_ok_def roomy_def)
  then have u: "unat (heap_end H1) = unat (heap_first H1) + 2 ^ 22" by (simp add: unat_word_ariths HEAP_SIZE_def)
  have "agree (info_bytes ?m mbi ts) ?m (ram M3)"
    unfolding agree_def
  proof
    fix a assume a: "a \<in> info_bytes ?m mbi ts"
    with e(4) have "unat a < unat (heap_first H1) \<or> unat (heap_first H1) + 2 ^ 22 \<le> unat a"
      unfolding h(1) u [symmetric] by (simp add: word_less_nat_alt word_le_nat_alt)
    then have "ram M3 a = ram M2 a" by (rule n(7) [rule_format])
    with a m(5) show "ram M3 a = ?m a" by (simp add: agree_def)
  qed
  from mmap_wf_agree(1) [OF l(1) this] have w: "mmap_wf (ram M3) mbi ts" .
  have t: "tag_type (ram M2) t = tag_type ?m t" if "t \<in> set ts" for t
    using agree_tag(1) [OF agree_subset [OF m(5)], of t] that by (auto simp: info_bytes_def)
  show thesis
  proof (rule that)
    show "Option.bind (memory_start L mbi K) (\<lambda>K1. Option.bind (Initrd_Start mbi (k_mach K1)) (\<lambda>(M2, I).
       new_instance (sizeof_shiro L) (K1\<lparr>k_mach := M2, k_initrd := I\<rparr>)))
     = Some (K\<lparr>k_mach := M3, k_heap := H3, k_pmm := P, k_initrd := I\<rparr>)"
    proof -
      have a: "K\<lparr>k_mach := M2, k_heap := H1, k_pmm := P\<rparr>\<lparr>k_mach := M2\<lparr>klog := lg\<rparr>, k_initrd := I\<rparr> = ?K2"
        "?K2\<lparr>k_mach := M3, k_heap := H3\<rparr> = K\<lparr>k_mach := M3, k_heap := H3, k_pmm := P, k_initrd := I\<rparr>"
        by (cases K, simp)+
      have "k_mach (K\<lparr>k_mach := M2, k_heap := H1, k_pmm := P\<rparr>) = M2" by simp
      then show ?thesis by (simp only: m(1) i n(1) a Option.bind.simps prod.case)
    qed
    show "2 ^ 21 + 2 ^ 20 - 80 \<le> s" using n(3) by simp
    show "calm (k_mach K) M3" using calm_trans [OF m(4) calm_trans [OF calm_simps(3)]] n(4) by simp
    show "0xB8FA0 \<le> unat (heap_first H3)" using l(3) m(6) h(1) n(5) by (simp add: word_le_nat_alt)
    have "heap_end H3 = heap_end H1" by (simp only: h(3,4) n(6))
    with m(8) show "free_set P = boot_pages ?m ts (kernel_start L) (heap_end H3)" by simp
    show "\<forall>t \<in> set ts. tag_type ?m t \<noteq> MB2_TAG_MODULE \<Longrightarrow> \<not> ird_ready I"
      using Initrd_Start_none [OF c _ i] t by auto
  qed (fact n(2) w m(7))+
qed

lemma shiro_main_split: "shiro_main L E magic mbi K =
   Option.bind (Option.bind (memory_start L mbi K) (\<lambda>K1. Option.bind (Initrd_Start mbi (k_mach K1)) (\<lambda>(M2, I).
       new_instance (sizeof_shiro L) (K1\<lparr>k_mach := M2, k_initrd := I\<rparr>)))) (\<lambda>K3. do {
     (M4, B) \<leftarrow> Multiboot_Start magic mbi (k_mach K3, k_multiboot K3);
     let K5 = Shiro_Finish (Shiro_Start L (K3\<lparr>k_mach := M4, k_multiboot := B\<rparr>));
     K6 \<leftarrow> new_instance (sizeof_shell L) K5;
     K7 \<leftarrow> start_shell K6;
     out \<leftarrow> run_init E K7;
     and_then out (\<lambda>K. map_option Returned (for_each (spawn_task L) [0..<4] K)) })"
  unfolding shiro_main_def Option.bind_assoc Let_def case_prod_beta' ..

lemma boot_to_shell:
  assumes "loader_ok L mbi ts K" "power_on c0 K"
  obtains K7 s where
    "shiro_main L E magic mbi K = Option.bind (run_init E K7) (\<lambda>out. and_then out (\<lambda>K. map_option Returned
       (for_each (spawn_task L) [0..<4] K)))"
    "booted c0 1 s K7" "2 ^ 20 \<le> s" "pmm_ok (k_pmm K7)"
    "free_set (k_pmm K7) = boot_pages (ram (k_mach K)) ts (kernel_start L) (heap_end (k_heap K7))"
    "(\<forall>t \<in> set ts. tag_type (ram (k_mach K)) t \<noteq> MB2_TAG_MODULE) \<Longrightarrow> \<not> ird_ready (k_initrd K7)"
proof (rule boot_memory [OF assms(1)])
  fix M H s P I
  assume m: "Option.bind (memory_start L mbi K) (\<lambda>K1. Option.bind (Initrd_Start mbi (k_mach K1)) (\<lambda>(M2, I).
       new_instance (sizeof_shiro L) (K1\<lparr>k_mach := M2, k_initrd := I\<rparr>)))
     = Some (K\<lparr>k_mach := M, k_heap := H, k_pmm := P, k_initrd := I\<rparr>)"
    "roomy M H s" "2 ^ 21 + 2 ^ 20 - 80 \<le> s" "calm (k_mach K) M" "mmap_wf (ram M) mbi ts" "0xB8FA0 \<le> unat (heap_first H)"
    "pmm_ok P" "free_set P = boot_pages (ram (k_mach K)) ts (kernel_start L) (heap_end H)"
    "(\<forall>t \<in> set ts. tag_type (ram (k_mach K)) t \<noteq> MB2_TAG_MODULE) \<Longrightarrow> \<not> ird_ready I"
  have p: "pic_wired c0 (k_mach K)" "kbc_live (k_mach K)" "length (directory (k_paging K)) = 1024"
    "length (tasks (k_sched K)) = 8" "shell_arrays (k_shell K)" "kb_ok (k_kbd K)" "function_key (k_kbd K) \<le> 5"
    using assms(2) by (simp_all add: power_on_def)
  from Multiboot_Start_returns [OF m(5), of magic "k_multiboot K"] obtain lg B where
    b: "Multiboot_Start magic mbi (M, k_multiboot K) = Some (M\<lparr>klog := lg\<rparr>, B)" by blast
  let ?K4 = "K\<lparr>k_mach := M\<lparr>klog := lg\<rparr>, k_heap := H, k_pmm := P, k_initrd := I, k_multiboot := B\<rparr>"
  have w: "pic_wired c0 (k_mach ?K4)" using p(1) m(4) by (simp add: pic_wired_def calm_def)
  have d: "length (directory (k_paging ?K4)) = 1024" "length (tasks (k_sched ?K4)) = 8" using p(3,4) by simp_all
  from Shiro_Start_ready [OF w d, of L] obtain M5 G D Pg T S where
    s: "Shiro_Start L ?K4 = ?K4\<lparr>k_mach := M5, k_gdt := G, k_idt := D, k_paging := Pg, k_timer := T, k_sched := S\<rparr>"
    "if_flag M5" "lines_open c0 {0, 1} M5" "ram M5 = ram (k_mach ?K4)" "dev M5 = dev (k_mach ?K4)"
    "sched_ok S" "used_slots S = {0}" "current S = 0" "\<forall>i < 8. 0 \<in> set (t_name (tasks S ! i))" by (elim exE conjE) (rule that)
  let ?K5 = "Shiro_Finish (Shiro_Start L ?K4)"
  have k5: "?K5 = ?K4\<lparr>k_mach := k_mach ?K5, k_gdt := G, k_idt := D, k_paging := Pg, k_timer := T, k_sched := S\<rparr>"
    "calm M5 (k_mach ?K5)" "ram (k_mach ?K5) = ram M5" by (simp_all add: Shiro_Finish_def s(1) calm_def pics_def)
  have "roomy (k_mach ?K5) (k_heap ?K5) s"
    using m(2) roomy_same [of "k_mach ?K5" M] k5(3) s(4) by (subst k5(1)) simp
  from new_instance_roomy [OF this, of "sizeof_shell L"] assms(1) m(3) obtain M6 H6 s6 where
    n: "new_instance (sizeof_shell L) ?K5 = Some (?K5\<lparr>k_mach := M6, k_heap := H6\<rparr>)" "roomy M6 H6 s6" "s \<le> s6 + 2 ^ 20 + 64"
      "calm (k_mach ?K5) M6" "heap_first H6 = heap_first (k_heap ?K5)" "heap_base H6 = heap_base (k_heap ?K5)"
    by (auto simp: loader_ok_def)
  have q: "GetBufferSize (k_kbd K) = Some (length (kb_text (k_kbd K)))" using p(6) by (simp add: GetBufferSize_def kb_string)
  from Shell_Start_screen [OF p(5) q, of M6] obtain M7 S7 where
    h: "Shell_Start (k_kbd K) (M6, k_shell K) = Some (M7, S7)" "started S7" "screen_step M6 M7" by blast
  have k: "k_heap ?K5 = H" "k_kbd ?K5 = k_kbd K" "k_shell ?K5 = k_shell K" "k_sched ?K5 = S" "k_pmm ?K5 = P" "k_initrd ?K5 = I"
    by (subst k5(1), simp)+
  let ?K7 = "?K5\<lparr>k_mach := M7, k_heap := H6, k_shell := S7\<rparr>"
  have r: "roomy M7 H6 s6"
    by (rule roomy_ram [OF n(2)]) (use h(3) m(6) n(5) k(1) in \<open>auto simp: screen_step_def on_screen_def\<close>)
  have c: "calm M5 M7" using k5(2) n(4) h(3) by (auto simp: screen_step_def intro: calm_trans)
  have v: "dev M7 = dev (k_mach K)" using c s(5) m(4) by (simp add: calm_def)
  have nn: "nul_names S" using s(9) by (simp add: nul_names_def)
  have "update_ok ?K7"
    using h(2) p(6,7) nul_names_all [OF s(6) nn] kbc_live_dev [OF p(2) v] s(6,8)
    by (simp add: update_ok_def kernel_ok_def k sched_ok_def)
  moreover have "stacks_ok M7 H6 S" using s(7) by (simp add: stacks_ok_def)
  ultimately have bt: "booted c0 1 s6 ?K7"
    using c s(2,3,6-8) calm_open [OF c] nn r by (simp add: booted_def k calm_def)
  have e: "shiro_main L E magic mbi K = Option.bind (run_init E ?K7) (\<lambda>out. and_then out (\<lambda>K. map_option Returned
       (for_each (spawn_task L) [0..<4] K)))"
  proof -
    let ?K3 = "K\<lparr>k_mach := M, k_heap := H, k_pmm := P, k_initrd := I\<rparr>"
    have a: "?K3\<lparr>k_mach := M\<lparr>klog := lg\<rparr>, k_multiboot := B\<rparr> = ?K4" "k_mach ?K3 = M" "k_multiboot ?K3 = k_multiboot K"
      by (cases K, simp)+
    have t: "start_shell (?K5\<lparr>k_mach := M6, k_heap := H6\<rparr>) = Some ?K7"
      using h(1) by (simp add: start_shell_def k)
    show ?thesis
      by (simp only: shiro_main_split m(1) a b n(1) t Let_def Option.bind.simps prod.case)
  qed
  have "heap_end H6 = heap_end H"
    using n(2,6) m(2) k(1) by (auto simp: roomy_def heap_ok_def)
  with e bt n(3) m(3,7-9) k show thesis by (intro that [of ?K7 s6]) simp_all
qed

section \<open>Properties\<close>

text \<open>C4: the boot comes to an end on every machine the loader may leave: no step of it fails, and unless a line of
  \<open>init.sh\<close> stopped the machine the idle loop is entered with the timer's and the keyboard's lines open and
  no other, task 0 running beside four tasks on stacks of their own, the page bitmap counting
  the memory map's pages, and the shell, the keyboard, the heap and the scheduler in their
  invariants; without a module it always gets there.\<close>

theorem shiro_boots:
  assumes "loader_ok L mbi ts K" "power_on c0 K" "platform_ok E"
  shows "\<exists>out. shiro_main L E magic mbi K = Some out
    \<and> (\<forall>K'. out = Returned K' \<longrightarrow> update_ok K' \<and> if_flag (k_mach K') \<and> (\<forall>irq < 16. masked c0 (k_mach K') irq \<longleftrightarrow> irq \<notin> {0, 1})
        \<and> sched_ok (k_sched K') \<and> used_slots (k_sched K') = {0..<5} \<and> current (k_sched K') = 0
        \<and> heap_inv (k_mach K') (k_heap K') \<and> stacks_ok (k_mach K') (k_heap K') (k_sched K')
        \<and> pmm_ok (k_pmm K')
        \<and> free_set (k_pmm K') = boot_pages (ram (k_mach K)) ts (kernel_start L) (heap_end (k_heap K')))
    \<and> ((\<forall>t \<in> set ts. tag_type (ram (k_mach K)) t \<noteq> MB2_TAG_MODULE) \<longrightarrow> (\<exists>K'. out = Returned K'))"
proof (rule boot_to_shell [OF assms(1,2), of E magic])
  let ?F = "\<lambda>K. boot_pages (ram (k_mach K)) ts (kernel_start L)"
  fix K7 s
  assume k: "shiro_main L E magic mbi K = Option.bind (run_init E K7) (\<lambda>out. and_then out (\<lambda>K. map_option Returned
       (for_each (spawn_task L) [0..<4] K)))"
    "booted c0 1 s K7" "2 ^ 20 \<le> s" "pmm_ok (k_pmm K7)" "free_set (k_pmm K7) = ?F K (heap_end (k_heap K7))"
    "(\<forall>t \<in> set ts. tag_type (ram (k_mach K)) t \<noteq> MB2_TAG_MODULE) \<Longrightarrow> \<not> ird_ready (k_initrd K7)"
  have u: "update_ok K7" using k(2) by (simp add: booted_def)
  from run_init_safe(1) [OF u assms(3)] obtain out where
    r: "run_init E K7 = Some out" "\<forall>K'. out = Returned K' \<longrightarrow> shell_only K7 K'" by blast
  have i: "\<exists>K'. out = Returned K'" if "\<forall>t \<in> set ts. tag_type (ram (k_mach K)) t \<noteq> MB2_TAG_MODULE"
    using run_init_safe(2) [OF u assms(3) k(6) [OF that]] r(1) by simp
  show ?thesis
  proof (cases out)
    case (Returned K8)
    then have o: "shell_only K7 K8" using r(2) by simp
    have "4112 * length [0..<4 :: nat] + 4080 \<le> s" using k(3) by simp
    from spawns_booted [OF booted_only [OF k(2) o] _ this, of L] obtain K' where
      f: "for_each (spawn_task L) [0..<4] K8 = Some K'" "booted c0 5 (s - 16448) K'" "k_pmm K' = k_pmm K8"
        "heap_end (k_heap K') = heap_end (k_heap K8)" by auto
    have "k_pmm K8 = k_pmm K7" "k_heap K8 = k_heap K7" using o by (auto simp: shell_only_def)
    with f(3,4) k(4,5) have p: "pmm_ok (k_pmm K')" "free_set (k_pmm K') = ?F K (heap_end (k_heap K'))" by simp_all
    have m: "shiro_main L E magic mbi K = Some (Returned K')" using k(1) r(1) Returned f(1) by simp
    have b: "update_ok K'" "if_flag (k_mach K')" "\<forall>irq < 16. masked c0 (k_mach K') irq \<longleftrightarrow> irq \<notin> {0, 1}"
      "sched_ok (k_sched K')" "used_slots (k_sched K') = {0..<5}" "current (k_sched K') = 0"
      "stacks_ok (k_mach K') (k_heap K') (k_sched K')" "heap_inv (k_mach K') (k_heap K')"
      using f(2) roomy_inv [of "k_mach K'"] by (auto simp: booted_def lines_open_def simp del: upt_rec_numeral)
    show ?thesis
      by (intro exI [of _ "Returned K'"] conjI impI allI exI [of _ K'])
        (simp_all only: m outcome.inject, use b p in simp_all)
  qed (use r(1) k(1) i in auto)
qed

text \<open>A machine at power-on: interrupt controllers that accept masks, and a block of one memory map
  at 0x9000 (a range of 127 MiB, no module).\<close>

definition plain_ram :: mem where "plain_ram = poke 0x9000 near_words (\<lambda>_. 0)"

definition plain_kernel :: kernel where
  "plain_kernel = (demo_kernel new_shell)\<lparr>k_mach := pic_mach\<lparr>ram := plain_ram\<rparr>\<rparr>"

lemma plain_load: "k < 14 \<Longrightarrow> load32 plain_ram (of_nat (0x9000 + 4 * k)) = near_words ! k"
  using load32_poke [of k near_words "0x9000" "\<lambda>_. 0"] by (simp add: near_words_def plain_ram_def)

lemma plain_words:
  "load32 plain_ram 0x9008 = 6" "load32 plain_ram 0x900C = 40" "load32 plain_ram 0x9010 = 24" "load32 plain_ram 0x9030 = 0"
  "load32 plain_ram 0x9018 = 0x100000" "load32 plain_ram 0x901C = 0" "load32 plain_ram 0x9020 = 0x7F00000"
  "load32 plain_ram 0x9024 = 0" "load32 plain_ram 0x9028 = 1"
  using plain_load [of 2] plain_load [of 3] plain_load [of 4] plain_load [of 12] plain_load [of 6] plain_load [of 7]
    plain_load [of 8] plain_load [of 9] plain_load [of 10] by (simp_all add: near_words_def)

lemma plain_tags: "tag_chain plain_ram (0x9000 + 8) [0x9008]" "tag_type plain_ram 0x9008 = MB2_TAG_MMAP"
  "next_tag plain_ram 0x9008 = 0x9030"
  by (simp_all add: tag_type_def next_tag_def tag_size_def tag_codes plain_words)

lemma plain_map: "mmap_count_of plain_ram 0x9008 = 1" "mmap_entry_size plain_ram 0x9008 = 24" "entry_at plain_ram 0x9008 0 = 0x9018"
  "available plain_ram 0x9008 = [(0x100000, 0x7F00000)]"
proof -
  show e: "mmap_count_of plain_ram 0x9008 = 1" "mmap_entry_size plain_ram 0x9008 = 24" "entry_at plain_ram 0x9008 0 = 0x9018"
    by (simp_all add: mmap_count_of_def mmap_entry_size_def tag_size_def entry_at_def plain_words)
  show "available plain_ram 0x9008 = [(0x100000, 0x7F00000)]"
    by (simp add: available_def e word_upt_rec [of 0] word_upt_rec [of 1] entry_type_def entry_base_def entry_length_def load64_def plain_words
        MB2_MEMORY_AVAILABLE_def)
qed

lemma plain_loader: "loader_ok demo_linkage 0x9000 [0x9008] plain_kernel"
proof -
  have "mmap_wf plain_ram 0x9000 [0x9008]"
    using plain_tags by (simp add: mmap_wf_def mmap_regions_def plain_map)
  moreover have "modules_end plain_ram 0x9000 = Some 0"
    using mb2_walk_chain [OF plain_tags(1), of "module_action plain_ram" 0] plain_tags(2)
    by (simp add: modules_end_def module_action_def tag_codes)
  moreover have "unat a < 0x9100" if "a \<in> info_bytes plain_ram 0x9000 [0x9008]" for a
    using that plain_tags(2,3) unfolding info_bytes_def chain_end_def tag_bytes_def
    by (auto simp: plain_map word_upt_rec [of 0] word_upt_rec [of 1] simp del: set_word_upt dest!: span_bound [rotated 2, where c = "0x9100"])
  then have "a < 0x180000" if "a \<in> info_bytes plain_ram 0x9000 [0x9008]" for a
    using that by (fastforce simp: word_less_nat_alt)
  ultimately show ?thesis
    unfolding loader_ok_def by (simp add: plain_kernel_def demo_linkage_def Heap_Start_def Let_def)
qed

lemma plain_power_on: "power_on (reset_chip, reset_chip) plain_kernel"
proof -
  have "pic_wired (reset_chip, reset_chip) (k_mach plain_kernel)"
    using pic_mach_wired(1) by (simp add: pic_wired_def plain_kernel_def)
  moreover have "kbc_live (k_mach plain_kernel)"
    unfolding kbc_live_def
    by (intro allI exI [of _ 0]) (simp add: plain_kernel_def pic_mach_def kbc_free_def inb_def Let_def pic_dev_def)
  ultimately show ?thesis
    using new_shell_arrays(1)
    by (simp add: power_on_def plain_kernel_def demo_kernel_def paging0_def sched0_def kb_ok_def keyboard0_def)
qed

theorem shiro_boots_witness:
  "\<exists>K'. shiro_main demo_linkage demo_platform 0x36D76289 0x9000 plain_kernel = Some (Returned K') \<and> used_slots (k_sched K') = {0..<5}"
proof -
  have "\<forall>t \<in> set [0x9008]. tag_type (ram (k_mach plain_kernel)) t \<noteq> MB2_TAG_MODULE"
    using plain_tags(2) by (simp add: plain_kernel_def tag_codes)
  with shiro_boots [OF plain_loader plain_power_on demo_kernel_ok(2), where magic = "0x36D76289"] show ?thesis by (elim exE conjE) auto
qed

end
