(* ===== verification/Spec2Isabelle.thy ===== *)
theory Spec2Isabelle
  imports Heap_Contract PMM_Contract Multiboot Initrd Descriptor_Tables Paging Timer Task_Switch ISR Preemption
    Shell_Display Debug_Log Bios Boot_Chain
begin

text \<open>
  A model of the shiro kernel (src/src/src: C++ headers under classes/ and libs/, kernel.cpp, and the
  assembly under boot/asm/) and the theorems that make it correct.

  \<^bold>\<open>The program.\<close>  shiro is a small i686 kernel in one address space.  The boot loader jumps to
  \<open>shiro_main\<close> with the address of a multiboot2 information block.  The kernel places a heap of 4 MiB
  behind itself and the loaded modules, builds a bitmap of the physical pages from the memory map,
  looks for a ram disk among the modules, sets up descriptor tables, interrupt controllers, identity
  paging, timer and keyboard, starts a scheduler of eight task slots and a shell of five text
  terminals, runs the lines of \<open>init.sh\<close>, spawns four demo tasks and enters the idle loop: one tick of
  the shell, a yield, a halt.  From then on the timer interrupt counts ticks and switches tasks by
  force every fifth tick, and the keyboard interrupt fills the line buffer the shell reads.

  \<^bold>\<open>How it is modelled.\<close>  A machine word of w bits is a \<open>w word\<close>, so sums wrap where the C++ code
  wraps; a pointer is a \<open>32 word\<close> and the null pointer is 0.  Memory is one function from addresses to
  bytes (\<open>mem\<close>); the record \<open>mach\<close> has it as \<open>ram\<close>, next to the history \<open>io\<close> of the port accesses, the
  control registers, the interrupt flag and \<open>klog\<close>, the argument lists of the calls of \<open>log\<close>.  The
  static members of a class and the members of a singleton are a record of that class (\<open>heap\<close>, \<open>pmm\<close>,
  \<open>initrd\<close>, \<open>multiboot\<close>, \<open>timer\<close>, \<open>sched\<close>, \<open>keyboard\<close>, \<open>shell\<close>, ...), passed explicitly and returned
  updated; \<open>kernel\<close> collects them.  What the code keeps in memory by address (heap headers, task stacks,
  the screen, the information block, the ram disk) stays in \<open>ram\<close>; arrays that are members are lists,
  with every access checked.  \<open>None\<close> is the value of an access outside of an array, of a read before the
  start of a literal, or of a loop that never ends; so each theorem with \<open>= Some\<close> also says that the
  code returns and stays inside its arrays.

  \<^bold>\<open>The theories\<close>, each with the source files it models:

  \<^item> \<open>Prelude\<close>: the types, loads and stores, the machine, counted loops over unsigned counters.
  \<^item> \<open>C_Library\<close> (libs/string.h, stdlib.h, common.h), \<open>Text_Lines\<close> (the number and line formatters of
    commands.class.h and tasks.class.h): what they do on C strings; the loops stay inside buffers of
    the sizes their callers give them.
  \<^item> \<open>Heap_Spec\<close>, \<open>Heap\<close>, \<open>Heap_Contract\<close> (heap.class.h): first fit, splitting and merging on an abstract
    list of blocks; the linked headers in memory implement it; the locale \<open>allocator\<close> is what the
    clients of the heap rely on, interpreted on the kernel heap as \<open>kheap\<close>; reachable heaps.
  \<^item> \<open>Boot_Info\<close> (libs/multiboot2.h and the walk over the tags that four callers repeat), \<open>Multiboot\<close>
    (multiboot.class.h), \<open>PMM\<close> and \<open>PMM_Contract\<close> (pmm.class.h: the bitmap after the boot, allocation,
    reachable states), \<open>Initrd\<close> (initrd.class.h and the packer tools/mkinitrd.py: round trip).
  \<^item> \<open>PIC\<close> (pic.class.h, with the documented state machine of the 8259A run on the port history),
    \<open>Descriptor_Tables\<close> (gdt.class.h, idt.class.h), \<open>Paging\<close> (paging.class.h, with the processor's walk
    of a large-page directory), \<open>Timer\<close> (timer.class.h), \<open>Keyboard\<close> (keyboard.class.h).
  \<^item> \<open>Screen\<close> (vga, cursor, text.mode), \<open>Panic\<close> (panic.class.h), \<open>ISR\<close> (isr.class.h, boot/asm/isr.asm),
    \<open>Debug_Log\<close> (debug.class.h, boot/asm/io.asm: what the recorded log lines become on the serial port),
    \<open>Bios\<close> (bios.class.h and boot/asm/real-mode-switcher.asm, which nothing calls: calls of the firmware).
  \<^item> \<open>Scheduler\<close>, \<open>Scheduler_Contract\<close>, \<open>Scheduler_Reach\<close> (scheduler.class.h: round robin and its fairness,
    the invariant of the task table, stacks as heap blocks through \<open>kheap\<close>), \<open>Task_Switch\<close>
    (boot/asm/switch.asm, instruction by instruction), \<open>Preemption\<close> (the forced yield inside the timer
    interrupt, as a step relation over the task, the interrupt flag and the timer line in service).
  \<^item> \<open>Shell\<close>, \<open>Shell_Contract\<close>, \<open>Shell_Display\<close> (shell.class.h: scroll-back, screen picture, start); the
    locale \<open>line_printer\<close> is the contract of printing lines, interpreted on a terminal (\<open>terminal\<close>) and on
    the kernel's console (\<open>console\<close>).
  \<^item> \<open>Reports\<close>, \<open>Commands\<close>, \<open>Commands_Contract\<close>, \<open>Commands_Correct\<close> (commands.class.h: all builtin commands,
    their tables, arguments and dispatch), \<open>Shell_Update\<close> (the tick of the shell and \<open>Execute\<close>).
  \<^item> \<open>Demo_Tasks\<close> (tasks.class.h), \<open>Kernel_Main\<close>, \<open>Kernel_Boot\<close>, \<open>Boot_Chain\<close> (kernel.cpp, shiro.class.h).

  \<^bold>\<open>What is proved.\<close>  Heap: allocation and freeing refine first fit with merging, always return, and keep
  a chain of blocks that tiles the 4 MiB.  Pages: the bitmap after the boot is the set of whole pages
  of the available ranges less the reserved ones; a page is never handed out twice.  Boot: the parts of memory
  are kept apart, the ram disk is read back as it was packed, the script runs its lines in order, and
  on every information block \<open>loader_ok\<close> admits the boot reaches the idle loop with all invariants in
  place.  Scheduling: every ready task runs within seven switches, a switch never picks a task
  before its deadline, a context switch and an interrupt are transparent, Spawn fails only without a
  slot or a block, and a forced switch away from task 0 ends with task 0 resumed and interrupts on.
  Shell: whatever the user types and whatever a file holds, a tick stays inside
  every array, a line ended by Enter is always run, and commands print what they should.  Error behaviour the code has, wanted or not, is
  stated as it is: requests that wrap in the heap, sleeps that wrap, the halt with interrupts off after a
  forced switch away from any other task, sleepers that are due and are not woken, the panic screen and log of a vector with an error code or with a large address, an information block that
  the heap overwrites, a line buffer that loses its terminator.

  \<^bold>\<open>Termination.\<close>  No fuel is used.  Counted loops are recursive on the distance to their bound.  The
  loops whose end depends on memory or devices are \<open>partial_function\<close>s (\<open>alloc_scan\<close>, \<open>find_prev\<close>,
  \<open>mb2_walk\<close>, \<open>strlen_from\<close>, \<open>C_strcmp\<close>, \<open>C_strcpy\<close>, \<open>strcat_end\<close>, \<open>kbc_wait\<close>, \<open>sleep_loop\<close>); that they return is proved where the code relies on
  it: the heap walks in the heap invariant, the tag walk exactly on the chains that end, the waits
  on the hardware under the hypothesis that it answers.  The loop over \<open>init.sh\<close> counts a 32-bit index up.

  \<^bold>\<open>Parameters and hypotheses.\<close>  Devices are a function \<open>dev\<close> from the port history to the next byte read;
  \<open>pic_wired\<close> says that the data ports of the interrupt controllers read back the masks of the documented
  state machine, \<open>kbc_live\<close> that the keyboard controller is ready again after finitely many polls.
  \<open>linkage\<close> has the addresses and sizes the linker and the compiler fix, \<open>platform\<close> the bytes an
  uninitialised array happens to hold, the address a string argument is given at, the build
  stamp and the \<open>cpuid\<close> instruction.  The firmware behind \<open>int32\<close> is a function.  Each is instantiated by a concrete value in a witness.

  \<^bold>\<open>Not modelled.\<close>  \<open>System::Modes::Video\<close> (a placeholder), libs/stdio.h (a \<open>printf\<close> that
  is never called and prints nothing), \<open>delay\<close> and \<open>srand\<close> of libs/stdlib.h (not called), the entry stub
  boot.asm up to the call of \<open>shiro_main\<close>, the reload of the segment registers, es, fs, gs and the
  registers a C handler may clobber inside an interrupt (the stub saves the general ones), the linker script, the
  build, the disk images and the tools other than the packer.  The start-up, a tick of the shell and a
  round of a task are each one flow without an interrupt in the middle; interrupts and forced switches between such flows are the
  subject of \<open>Preemption\<close> and \<open>ISR\<close>.  Kernel objects are records of their own: the bytes \<open>new\<close> takes for
  them are taken from the heap, but a store through a stray pointer into such an object, as \<open>poke\<close> could
  make it, changes \<open>ram\<close> only.
\<close>

end
